(* ===== verification/Jeux_Prelude.thy ===== *)
theory Jeux_Prelude
  imports Main "HOL-Library.Word"
begin

text \<open>
  The prelude of the development: the outcome type of a C function that may fault, its sequencing
  operator and their simplification rules, heaps and pointers, mutexes and semaphores, C strings,
  and the interface of a reference-counted object with the lemmas that hold of every such object.

  A C function that returns normally is an \<open>Inr\<close>; a function that reaches undefined behaviour,
  blocks for ever, or ends the process is an \<open>Inl\<close> with the kind of fault. A value \<open>Inr (r, s)\<close>
  is the C return value \<open>r\<close> together with the state \<open>s\<close> after the call.
\<close>

section \<open>Outcomes of a C function\<close>

datatype fault =
    NullDeref        \<comment> \<open>a NULL pointer is dereferenced\<close>
  | UseAfterFree     \<comment> \<open>an object is used that was freed, or never allocated\<close>
  | OutOfBounds      \<comment> \<open>an array is indexed outside its bounds\<close>
  | BufferOverflow   \<comment> \<open>a character buffer is written past its end\<close>
  | Deadlock         \<comment> \<open>a lock is taken that nobody will release\<close>
  | OutOfFuel        \<comment> \<open>the bound on recursive calls is reached\<close>
  | Exited int       \<comment> \<open>the process ends with this status\<close>

type_synonym 'a result = "fault + 'a"

definition and_then :: "'a result \<Rightarrow> ('a \<Rightarrow> 'b result) \<Rightarrow> 'b result" where
  "and_then m f = (case m of Inl e \<Rightarrow> Inl e | Inr x \<Rightarrow> f x)"

named_theorems c_simps \<open>equations that execute one primitive step of the C model\<close>

lemma and_then_Inr [simp]: "and_then (Inr x) f = f x"
  by (simp add: and_then_def)

lemma and_then_Inl [simp]: "and_then (Inl e) f = Inl e"
  by (simp add: and_then_def)

lemma and_then_eq_Inr: "and_then m f = Inr y \<longleftrightarrow> (\<exists>x. m = Inr x \<and> f x = Inr y)"
  by (cases m) auto

lemma and_then_eq_Inl: "and_then m f = Inl e \<longleftrightarrow> m = Inl e \<or> (\<exists>x. m = Inr x \<and> f x = Inl e)"
  by (cases m) auto

lemma and_then_cong [fundef_cong]:
  "m = m' \<Longrightarrow> (\<And>x. m' = Inr x \<Longrightarrow> f x = f' x) \<Longrightarrow> and_then m f = and_then m' f'"
  by (cases m') auto

lemma and_then_assoc: "and_then (and_then m f) g = and_then m (\<lambda>x. and_then (f x) g)"
  by (cases m) auto

definition assert_c :: "bool \<Rightarrow> fault \<Rightarrow> unit result" where
  "assert_c b e = (if b then Inr () else Inl e)"

lemma assert_c_simps [simp]: "assert_c True e = Inr ()" "assert_c False e = Inl e"
  by (simp_all add: assert_c_def)

section \<open>The type int\<close>

text \<open>
  The value that an \<^verbatim>\<open>int\<close> of 32 bits holds when an integer is stored in it. For an assignment from a longer
  type this is what the compiler defines; for an overflow in \<^verbatim>\<open>int\<close> arithmetic, which C leaves undefined, it is what
  the arithmetic of the machine gives.
\<close>

definition to_int32 :: "int \<Rightarrow> int" where
  "to_int32 n = sint (word_of_int n :: 32 word)"

lemma to_int32_id: "- (2 ^ 31) \<le> n \<Longrightarrow> n < 2 ^ 31 \<Longrightarrow> to_int32 n = n"
  unfolding to_int32_def int_word_sint by simp

section \<open>Heaps and pointers\<close>

text \<open>
  An object of a given C type lives in the heap of that type, a map from addresses to objects.
  A pointer is an address or NULL. Reading through NULL or through an address that holds no object
  is a fault.
\<close>

type_synonym addr = nat
type_synonym ptr = "addr option"
type_synonym 'a heap = "addr \<rightharpoonup> 'a"

abbreviation NULL :: ptr where "NULL \<equiv> None"

definition load :: "'a heap \<Rightarrow> addr \<Rightarrow> 'a result" where
  "load h a = (case h a of None \<Rightarrow> Inl UseAfterFree | Some x \<Rightarrow> Inr x)"

definition deref :: "'a heap \<Rightarrow> ptr \<Rightarrow> 'a result" where
  "deref h p = (case p of None \<Rightarrow> Inl NullDeref | Some a \<Rightarrow> load h a)"

lemma load_simps [simp]:
  "h a = Some x \<Longrightarrow> load h a = Inr x"
  "h a = None \<Longrightarrow> load h a = Inl UseAfterFree"
  by (simp_all add: load_def)

lemma load_eq_Inr: "load h a = Inr x \<longleftrightarrow> h a = Some x"
  by (simp add: load_def split: option.splits)

lemma deref_simps [simp]: "deref h None = Inl NullDeref" "deref h (Some a) = load h a"
  by (simp_all add: deref_def)

text \<open>An array of C, indexed by an \<open>int\<close>.\<close>

definition arr_get :: "'a list \<Rightarrow> int \<Rightarrow> 'a result" where
  "arr_get xs i = (if 0 \<le> i \<and> i < int (length xs) then Inr (xs ! nat i) else Inl OutOfBounds)"

definition arr_set :: "'a list \<Rightarrow> int \<Rightarrow> 'a \<Rightarrow> 'a list result" where
  "arr_set xs i v = (if 0 \<le> i \<and> i < int (length xs) then Inr (xs[nat i := v]) else Inl OutOfBounds)"

lemma arr_get_ok [simp]: "0 \<le> i \<Longrightarrow> i < int (length xs) \<Longrightarrow> arr_get xs i = Inr (xs ! nat i)"
  by (simp add: arr_get_def)

lemma arr_set_ok [simp]: "0 \<le> i \<Longrightarrow> i < int (length xs) \<Longrightarrow> arr_set xs i v = Inr (xs[nat i := v])"
  by (simp add: arr_set_def)

lemma nth_update_iff: "xs[i := v] ! j = (if j = i \<and> i < length xs then v else xs ! j)"
  by (cases "i < length xs") (auto simp: nth_list_update list_update_beyond)

section \<open>Mutexes and semaphores\<close>

text \<open>
  A mutex is True while it is held. The model runs one handler at a time, so a mutex that is held
  when a handler wants it was left locked by an earlier early return, or is held by the handler
  itself: taking it never returns. The same holds of a semaphore whose value is zero.
\<close>

type_synonym mutex = bool
type_synonym sem = nat

definition pthread_mutex_lock :: "mutex \<Rightarrow> mutex result" where
  "pthread_mutex_lock m = (if m then Inl Deadlock else Inr True)"

definition pthread_mutex_unlock :: "mutex \<Rightarrow> mutex" where
  "pthread_mutex_unlock m = False"

definition sem_wait :: "sem \<Rightarrow> sem result" where
  "sem_wait s = (if s = 0 then Inl Deadlock else Inr (s - 1))"

definition sem_post :: "sem \<Rightarrow> sem" where
  "sem_post s = Suc s"

lemma mutex_simps [simp]:
  "pthread_mutex_lock False = Inr True"
  "pthread_mutex_lock True = Inl Deadlock"
  "pthread_mutex_unlock m = False"
  by (simp_all add: pthread_mutex_lock_def pthread_mutex_unlock_def)

lemma sem_simps [simp]:
  "sem_wait (Suc s) = Inr s"
  "sem_wait 0 = Inl Deadlock"
  "sem_post s = Suc s"
  by (simp_all add: sem_wait_def sem_post_def)

lemma sem_wait_1 [simp]: "sem_wait 1 = Inr 0"
  by (simp add: sem_wait_def)

lemma sem_wait_pos: "0 < s \<Longrightarrow> sem_wait s = Inr (s - 1)"
  by (simp add: sem_wait_def)

section \<open>C strings\<close>

text \<open>
  A character buffer is the list of its characters; the string it holds ends before the first NUL.
\<close>

definition NUL :: char where "NUL = CHR 0x00"

definition cstr :: "char list \<Rightarrow> string" where
  "cstr buf = takeWhile (\<lambda>c. c \<noteq> NUL) buf"

definition strlen :: "char list \<Rightarrow> nat" where
  "strlen buf = length (cstr buf)"

definition isspace :: "char \<Rightarrow> bool" where
  "isspace c \<longleftrightarrow> c = CHR '' '' \<or> c = CHR 0x09 \<or> c = CHR 0x0A \<or> c = CHR 0x0B \<or> c = CHR 0x0C \<or> c = CHR 0x0D"

definition isdigit :: "char \<Rightarrow> bool" where
  "isdigit c \<longleftrightarrow> 48 \<le> (of_char c :: nat) \<and> (of_char c :: nat) \<le> 57"

fun digits_val :: "int \<Rightarrow> string \<Rightarrow> int" where
  "digits_val acc [] = acc"
| "digits_val acc (c # cs) =
     (if isdigit c then digits_val (10 * acc + (of_char c - 48)) cs else acc)"

text \<open>
  \<open>atoi\<close> skips white space, takes an optional sign, and reads decimal digits; a string with no
  digit there is 0. The callers pass at most four characters, so the \<open>int\<close> does not overflow.
\<close>

definition atoi :: "string \<Rightarrow> int" where
  "atoi s = (case dropWhile isspace s of
       [] \<Rightarrow> 0
     | c # cs \<Rightarrow> (if c = CHR ''-'' then - digits_val 0 cs
                 else if c = CHR ''+'' then digits_val 0 cs
                 else digits_val 0 (c # cs)))"

lemma cstr_no_NUL: "NUL \<notin> set (cstr buf)"
  by (auto simp: cstr_def dest: set_takeWhileD)

lemma cstr_id: "NUL \<notin> set s \<Longrightarrow> cstr s = s"
  unfolding cstr_def by (rule takeWhile_eq_all_conv [THEN iffD2]) auto

lemma cstr_idem [simp]: "cstr (cstr buf) = cstr buf"
  by (rule cstr_id) (rule cstr_no_NUL)

lemma length_cstr_le: "length (cstr buf) \<le> length buf"
  by (simp add: cstr_def length_takeWhile_le)

section \<open>Reference-counted objects\<close>

text \<open>
  \<open>unref_times u n x\<close> drops \<open>n\<close> references to \<open>x\<close> with \<open>u\<close>; the object is gone (\<open>None\<close>) when \<open>u\<close> freed
  it, and dropping a reference to a freed object is a fault.
\<close>

fun unref_times :: "('o \<Rightarrow> 'o option result) \<Rightarrow> nat \<Rightarrow> 'o \<Rightarrow> 'o option result" where
  "unref_times u 0 x = Inr (Some x)"
| "unref_times u (Suc n) x = and_then (unref_times u n x)
     (\<lambda>r. case r of None \<Rightarrow> Inl UseAfterFree | Some y \<Rightarrow> u y)"

fun ref_times :: "('o \<Rightarrow> 'o result) \<Rightarrow> nat \<Rightarrow> 'o \<Rightarrow> 'o result" where
  "ref_times f 0 x = Inr x"
| "ref_times f (Suc n) x = and_then (ref_times f n x) f"

text \<open>
  The contract shared by the reference-counted types: taking a reference adds one to the count,
  dropping one subtracts one, and only dropping the last one frees the object; the rest of the
  object (its \<open>body\<close>) is untouched.
\<close>

locale refcounted =
  fixes rc :: "'o \<Rightarrow> int"
    and ready :: "'o \<Rightarrow> bool"
    and body :: "'o \<Rightarrow> 'b"
    and ref :: "'o \<Rightarrow> 'o result"
    and unref :: "'o \<Rightarrow> 'o option result"
  assumes ref_ok: "ready x \<Longrightarrow> \<exists>y. ref x = Inr y \<and> ready y \<and> rc y = rc x + 1 \<and> body y = body x"
    and unref_keep: "ready x \<Longrightarrow> rc x \<noteq> 1 \<Longrightarrow>
          \<exists>y. unref x = Inr (Some y) \<and> ready y \<and> rc y = rc x - 1 \<and> body y = body x"
    and unref_free: "ready x \<Longrightarrow> rc x = 1 \<Longrightarrow> unref x = Inr None"
begin

lemma refs_taken:
  "ready x \<Longrightarrow> \<exists>y. ref_times ref n x = Inr y \<and> ready y \<and> rc y = rc x + int n \<and> body y = body x"
proof (induction n)
  case 0
  then show ?case by simp
next
  case (Suc n)
  then obtain y where "ref_times ref n x = Inr y" "ready y" "rc y = rc x + int n" "body y = body x"
    by blast
  with ref_ok [of y] show ?case by auto
qed

lemma alive_before_last:
  "ready x \<Longrightarrow> int n < rc x \<Longrightarrow>
     \<exists>y. unref_times unref n x = Inr (Some y) \<and> ready y \<and> rc y = rc x - int n \<and> body y = body x"
proof (induction n)
  case 0
  then show ?case by simp
next
  case (Suc n)
  then obtain y where "unref_times unref n x = Inr (Some y)" "ready y" "rc y = rc x - int n"
      "body y = body x"
    by auto
  moreover from this Suc.prems have "rc y \<noteq> 1" by simp
  ultimately show ?case using unref_keep [of y] by auto
qed

lemma freed_by_last:
  assumes "ready x" and "rc x = int (Suc n)"
  shows "unref_times unref (Suc n) x = Inr None"
proof -
  from assms obtain y where "unref_times unref n x = Inr (Some y)" "ready y" "rc y = 1"
    using alive_before_last [of x n] by auto
  then show ?thesis using unref_free [of y] by simp
qed

lemma balanced:
  assumes "ready x" and "0 < rc x"
  shows "\<exists>y z. ref_times ref n x = Inr y \<and> unref_times unref n y = Inr (Some z)
           \<and> rc z = rc x \<and> body z = body x"
proof -
  from refs_taken [OF assms(1), of n] obtain y
    where y: "ref_times ref n x = Inr y" "ready y" "rc y = rc x + int n" "body y = body x"
    by blast
  with assms(2) have "int n < rc y" by simp
  from alive_before_last [OF y(2) this] y show ?thesis by auto
qed

end

end
