(* ===== verification/Runtime.thy ===== *)
theory Runtime
  imports Jeux_Prelude
begin

text \<open>
  The operating system and C library as the server sees them: requests for memory, mutexes and
  semaphores that may be refused, the clock, and sockets that transfer bytes in chunks of the
  kernel's choice. What the environment decides is kept in the record \<open>sys\<close> as functions from the
  number of the request to the answer, so that every possible behaviour is some value of it.
\<close>

type_synonym byte = "8 word"

record sys =
  res_ok :: "nat \<Rightarrow> bool"        \<comment> \<open>is the n-th request for memory, a mutex or a semaphore granted\<close>
  res_n :: nat
  clock :: "nat \<Rightarrow> int \<times> int"    \<comment> \<open>seconds and nanoseconds of the n-th reading\<close>
  clock_n :: nat
  wr_ans :: "nat \<Rightarrow> int"         \<comment> \<open>how much the n-th write would take, or negative\<close>
  wr_n :: nat
  rd_ans :: "nat \<Rightarrow> int"         \<comment> \<open>how much the n-th read would give, or negative\<close>
  rd_n :: nat
  outp :: "int \<Rightarrow> byte list"     \<comment> \<open>bytes written so far to a descriptor\<close>
  inp :: "int \<Rightarrow> byte list"      \<comment> \<open>bytes the peer of a descriptor will still send before it closes\<close>
  rd_shut :: "int \<Rightarrow> bool"       \<comment> \<open>has the descriptor been shut down for reading\<close>

text \<open>
  \<open>calloc\<close>, \<open>realloc\<close>, \<open>strdup\<close>, \<open>pthread_mutex_init\<close> and \<open>sem_init\<close>: the next answer of the
  environment decides whether the request is granted.
\<close>

definition request :: "sys \<Rightarrow> bool \<times> sys" where
  "request s = (res_ok s (res_n s), s\<lparr>res_n := Suc (res_n s)\<rparr>)"

abbreviation calloc :: "sys \<Rightarrow> bool \<times> sys" where "calloc \<equiv> request"
abbreviation realloc :: "sys \<Rightarrow> bool \<times> sys" where "realloc \<equiv> request"
abbreviation pthread_mutex_init :: "sys \<Rightarrow> bool \<times> sys" where "pthread_mutex_init \<equiv> request"
abbreviation sem_init :: "sys \<Rightarrow> bool \<times> sys" where "sem_init \<equiv> request"

definition clock_gettime :: "sys \<Rightarrow> (int \<times> int) \<times> sys" where
  "clock_gettime s = (clock s (clock_n s), s\<lparr>clock_n := Suc (clock_n s)\<rparr>)"

text \<open>\<open>write\<close> takes at most the bytes it is given; it reports how many, or a negative number.\<close>

definition write_fd :: "int \<Rightarrow> byte list \<Rightarrow> sys \<Rightarrow> int \<times> sys" where
  "write_fd fd bs s =
     (let ans = wr_ans s (wr_n s); s = s\<lparr>wr_n := Suc (wr_n s)\<rparr> in
      if ans < 0 then (-1, s)
      else (let k = min (nat ans) (length bs) in
        (int k, s\<lparr>outp := (outp s)(fd := outp s fd @ take k bs)\<rparr>)))"

text \<open>
  \<open>read\<close> blocks until there is something: it gives at least one byte and at most as many as asked
  for, nothing once the peer has closed or the descriptor is shut down for reading, or an error.
\<close>

definition read_fd :: "int \<Rightarrow> nat \<Rightarrow> sys \<Rightarrow> (int \<times> byte list) \<times> sys" where
  "read_fd fd n s =
     (let ans = rd_ans s (rd_n s); s = s\<lparr>rd_n := Suc (rd_n s)\<rparr> in
      if ans < 0 then ((-1, []), s)
      else if rd_shut s fd then ((0, []), s)
      else (let k = min (max 1 (nat ans)) (min n (length (inp s fd))) in
        ((int k, take k (inp s fd)), s\<lparr>inp := (inp s)(fd := drop k (inp s fd))\<rparr>)))"

text \<open>The environment grants every request from now on; every write and read goes through.\<close>

definition no_oom :: "sys \<Rightarrow> bool" where
  "no_oom s \<longleftrightarrow> (\<forall>n. res_ok s n)"

definition net_up :: "sys \<Rightarrow> bool" where
  "net_up s \<longleftrightarrow> (\<forall>n. 0 < wr_ans s n)"

definition rd_up :: "sys \<Rightarrow> bool" where
  "rd_up s \<longleftrightarrow> (\<forall>n. 0 \<le> rd_ans s n)"

lemma request_no_oom [simp]: "no_oom s \<Longrightarrow> request s = (True, s\<lparr>res_n := Suc (res_n s)\<rparr>)"
  by (simp add: request_def no_oom_def)

lemma no_oom_updates [simp]:
  "no_oom (s\<lparr>res_n := k\<rparr>) = no_oom s"
  "no_oom (s\<lparr>clock_n := k\<rparr>) = no_oom s"
  "no_oom (s\<lparr>wr_n := k\<rparr>) = no_oom s"
  "no_oom (s\<lparr>rd_n := k\<rparr>) = no_oom s"
  "no_oom (s\<lparr>outp := f\<rparr>) = no_oom s"
  "no_oom (s\<lparr>inp := f\<rparr>) = no_oom s"
  "no_oom (s\<lparr>rd_shut := g\<rparr>) = no_oom s"
  by (simp_all add: no_oom_def)

lemma net_up_updates [simp]:
  "net_up (s\<lparr>res_n := k\<rparr>) = net_up s"
  "net_up (s\<lparr>clock_n := k\<rparr>) = net_up s"
  "net_up (s\<lparr>wr_n := k\<rparr>) = net_up s"
  "net_up (s\<lparr>rd_n := k\<rparr>) = net_up s"
  "net_up (s\<lparr>outp := f\<rparr>) = net_up s"
  "net_up (s\<lparr>inp := f\<rparr>) = net_up s"
  "net_up (s\<lparr>rd_shut := g\<rparr>) = net_up s"
  by (simp_all add: net_up_def)

text \<open>
  What the answers of the environment are does not change; only how many were used and what was
  written do.
\<close>

definition env_same :: "sys \<Rightarrow> sys \<Rightarrow> bool" where
  "env_same s t \<longleftrightarrow> res_ok t = res_ok s \<and> clock t = clock s \<and> wr_ans t = wr_ans s
     \<and> rd_ans t = rd_ans s \<and> inp t = inp s \<and> rd_shut t = rd_shut s"

lemma env_same_refl [simp]: "env_same s s"
  by (simp add: env_same_def)

lemma env_same_trans: "env_same s t \<Longrightarrow> env_same t u \<Longrightarrow> env_same s u"
  by (simp add: env_same_def)

lemma env_same_updates [simp]:
  "env_same s (t\<lparr>res_n := k\<rparr>) = env_same s t"
  "env_same s (t\<lparr>clock_n := k\<rparr>) = env_same s t"
  "env_same s (t\<lparr>wr_n := k\<rparr>) = env_same s t"
  "env_same s (t\<lparr>outp := f\<rparr>) = env_same s t"
  by (simp_all add: env_same_def)

lemma env_same_no_oom: "env_same s t \<Longrightarrow> no_oom t = no_oom s"
  by (simp add: env_same_def no_oom_def)

lemma env_same_net_up: "env_same s t \<Longrightarrow> net_up t = net_up s"
  by (simp add: env_same_def net_up_def)

text \<open>An environment for evaluating the model: everything is granted, writes and reads are whole.\<close>

definition calm_sys :: sys where
  "calm_sys = \<lparr>res_ok = (\<lambda>_. True), res_n = 0, clock = (\<lambda>_. (0, 0)), clock_n = 0,
     wr_ans = (\<lambda>_. 1000000), wr_n = 0, rd_ans = (\<lambda>_. 1000000), rd_n = 0,
     outp = (\<lambda>_. []), inp = (\<lambda>_. []), rd_shut = (\<lambda>_. False)\<rparr>"

lemma calm_sys_ok [simp]: "no_oom calm_sys" "net_up calm_sys" "rd_up calm_sys"
  by (simp_all add: no_oom_def net_up_def rd_up_def calm_sys_def)

end
