(* ===== verification/Game.thy ===== *)
theory Game
  imports Runtime
begin

text \<open>
  The game component (\<^verbatim>\<open>src/game.c\<close>, \<^verbatim>\<open>include/game.h\<close>): the state of one game of tic-tac-toe, moves,
  resignation, detection of the end, parsing and printing. Every function of the file is a
  definition here. The functions are proved against an abstract game of two players who occupy
  cells in turn, and against the rules (lines, draws, turns, ratings roles).
\<close>

section \<open>Data\<close>

datatype GAME_ROLE = NULL_ROLE | FIRST_PLAYER_ROLE | SECOND_PLAYER_ROLE

text \<open>The integer value of an enumerator, as the C code stores it in \<open>rows\<close>.\<close>

fun role_val :: "GAME_ROLE \<Rightarrow> int" where
  "role_val NULL_ROLE = 0"
| "role_val FIRST_PLAYER_ROLE = 1"
| "role_val SECOND_PLAYER_ROLE = 2"

record GAME =
  rows :: "int list"
  g_ref_count :: int
  is_over :: int
  current_player :: GAME_ROLE
  winner :: GAME_ROLE
  g_mutex :: mutex

record GAME_MOVE =
  move :: int
  role :: GAME_ROLE

section \<open>Operations\<close>

definition game_ref :: "GAME \<Rightarrow> GAME result" where
  "game_ref game =
     and_then (pthread_mutex_lock (g_mutex game)) (\<lambda>m.
     let game = game\<lparr>g_mutex := m\<rparr>;
         game = game\<lparr>g_ref_count := g_ref_count game + 1\<rparr> in
     Inr (game\<lparr>g_mutex := pthread_mutex_unlock m\<rparr>))"

text \<open>The freshly allocated structure is zeroed; NULL is returned when a request is refused.\<close>

definition game_create :: "sys \<Rightarrow> (GAME option \<times> sys) result" where
  "game_create s =
     (let (ok, s) = calloc s in
      if \<not> ok then Inr (None, s)
      else
        let (ok, s) = pthread_mutex_init s in
        if \<not> ok then Inr (None, s)
        else
          and_then (game_ref \<lparr>rows = replicate 9 0, g_ref_count = 0, is_over = 0,
                     current_player = FIRST_PLAYER_ROLE, winner = NULL_ROLE, g_mutex = False\<rparr>)
            (\<lambda>game. Inr (Some game, s)))"

text \<open>\<open>None\<close> when the last reference was dropped and the structure freed.\<close>

definition game_unref :: "GAME \<Rightarrow> GAME option result" where
  "game_unref game =
     and_then (pthread_mutex_lock (g_mutex game)) (\<lambda>m.
     let game = game\<lparr>g_mutex := m, g_ref_count := g_ref_count game - 1\<rparr> in
     if g_ref_count game = 0 then Inr None
     else Inr (Some (game\<lparr>g_mutex := pthread_mutex_unlock m\<rparr>)))"

definition row_lines :: "(nat \<times> nat \<times> nat) list" where
  "row_lines = map (\<lambda>i. (i, i + 1, i + 2)) [0, 3, 6]"

definition col_lines :: "(nat \<times> nat \<times> nat) list" where
  "col_lines = map (\<lambda>i. (i, i + 3, i + 6)) [0, 1, 2]"

definition diag_lines :: "(nat \<times> nat \<times> nat) list" where
  "diag_lines = [(0, 4, 8), (2, 4, 6)]"

text \<open>The first of a list of lines whose three cells are equal and occupied: the value there.\<close>

fun check_lines :: "(nat \<times> nat \<times> nat) list \<Rightarrow> int list \<Rightarrow> int option" where
  "check_lines [] board = None"
| "check_lines ((i, j, k) # ls) board =
     (if board ! i = board ! j \<and> board ! j = board ! k \<and> board ! i \<noteq> 0
      then Some (board ! i) else check_lines ls board)"

fun empty_count :: "int list \<Rightarrow> nat" where
  "empty_count [] = 0"
| "empty_count (c # cs) = (if c = 0 then Suc (empty_count cs) else empty_count cs)"

text \<open>
  The check is in the order of the code: rows, columns, diagonals, full board. It records the
  winner and the end in the game and returns the flag.
\<close>

definition game_is_over :: "GAME \<Rightarrow> (int \<times> GAME) result" where
  "game_is_over game =
     and_then (pthread_mutex_lock (g_mutex game)) (\<lambda>m.
     let game = game\<lparr>g_mutex := m\<rparr>; board = rows game in
     case check_lines (row_lines @ col_lines @ diag_lines) board of
       Some v \<Rightarrow>
         (let game = game\<lparr>winner := (if v = role_val FIRST_PLAYER_ROLE then FIRST_PLAYER_ROLE
                                     else SECOND_PLAYER_ROLE), is_over := 1,
                          g_mutex := pthread_mutex_unlock m\<rparr> in
          Inr (is_over game, game))
     | None \<Rightarrow>
         if empty_count board = 0 then
           (let game = game\<lparr>winner := NULL_ROLE, is_over := 1, g_mutex := pthread_mutex_unlock m\<rparr> in
            Inr (is_over game, game))
         else
           (let game = game\<lparr>g_mutex := pthread_mutex_unlock m\<rparr> in Inr (is_over game, game)))"

definition game_apply_move :: "GAME \<Rightarrow> GAME_MOVE \<Rightarrow> (int \<times> GAME) result" where
  "game_apply_move game mv =
     and_then (pthread_mutex_lock (g_mutex game)) (\<lambda>m.
     let game = game\<lparr>g_mutex := m\<rparr> in
     if current_player game \<noteq> role mv
     then Inr (-1, game\<lparr>g_mutex := pthread_mutex_unlock m\<rparr>)
     else
       and_then (arr_get (rows game) (move mv)) (\<lambda>c.
       if c \<noteq> 0 then Inr (-1, game\<lparr>g_mutex := pthread_mutex_unlock m\<rparr>)
       else
         and_then (arr_set (rows game) (move mv) (role_val (role mv))) (\<lambda>r.
         let game = game\<lparr>rows := r\<rparr>;
             game = game\<lparr>current_player :=
                      (if current_player game = FIRST_PLAYER_ROLE then SECOND_PLAYER_ROLE
                       else FIRST_PLAYER_ROLE),
                    g_mutex := pthread_mutex_unlock m\<rparr> in
         and_then (game_is_over game) (\<lambda>(_, game). Inr (0, game)))))"

definition game_resign :: "GAME \<Rightarrow> GAME_ROLE \<Rightarrow> int \<times> GAME" where
  "game_resign game r =
     (if winner game \<noteq> NULL_ROLE then (-1, game)
      else (0, game\<lparr>current_player := NULL_ROLE, is_over := 1,
                    winner := (if r = FIRST_PLAYER_ROLE then SECOND_PLAYER_ROLE
                               else FIRST_PLAYER_ROLE)\<rparr>))"

definition game_get_winner :: "GAME \<Rightarrow> GAME_ROLE" where
  "game_get_winner game = winner game"

section \<open>Printing and parsing\<close>

definition cell_char :: "int \<Rightarrow> char" where
  "cell_char c = (if c = 0 then CHR '' '' else if c = 1 then CHR ''X'' else CHR ''O'')"

text \<open>The loop over the cells \<open>i .. n\<close> of a row, with a bar between cells.\<close>

fun row_string :: "int list \<Rightarrow> nat list \<Rightarrow> nat \<Rightarrow> string" where
  "row_string board [] n = []"
| "row_string board (i # is) n =
     cell_char (board ! i) # (if i \<noteq> n then ''|'' else []) @ row_string board is n"

definition floor_string :: string where
  "floor_string = replicate 5 (CHR ''-'')"

definition newline :: string where
  "newline = [CHR 0x0A]"

definition state_string :: "GAME \<Rightarrow> string" where
  "state_string game =
     row_string (rows game) [0, 1, 2] 2 @ newline @ floor_string @ newline @
     row_string (rows game) [3, 4, 5] 5 @ newline @ floor_string @ newline @
     row_string (rows game) [6, 7, 8] 8 @ newline @
     [if role_val (current_player game) = 1 then CHR ''X'' else CHR ''O''] @ '' to move'' @ newline"

text \<open>
  The characters and the final NUL are written into a buffer of 50 bytes, which is then cut to
  size. A refused buffer is written through NULL; a refused resize returns NULL (\<open>None\<close>).
\<close>

definition game_unparse_state :: "GAME \<Rightarrow> sys \<Rightarrow> (string option \<times> GAME \<times> sys) result" where
  "game_unparse_state game s =
     (let (ok, s) = calloc s in
      and_then (pthread_mutex_lock (g_mutex game)) (\<lambda>m.
      and_then (assert_c ok NullDeref) (\<lambda>_.
      and_then (assert_c (length (state_string game) + 1 \<le> 50) BufferOverflow) (\<lambda>_.
      let (ok, s) = realloc s in
      Inr (if ok then Some (state_string game) else None,
           game\<lparr>g_mutex := pthread_mutex_unlock m\<rparr>, s)))))"

text \<open>The string is the content of a C string: it holds no NUL.\<close>

definition game_parse_move :: "GAME \<Rightarrow> GAME_ROLE \<Rightarrow> string \<Rightarrow> sys \<Rightarrow> GAME_MOVE option \<times> sys" where
  "game_parse_move game r str s =
     (let (ok, s) = calloc s in
      if \<not> ok then (None, s)
      else if length str = 1 then
        (let m = atoi str - 1 in
         if m < 0 \<or> m > 8 then (None, s) else (Some \<lparr>move = m, role = r\<rparr>, s))
      else if length str = 4 then
        (if str ! 1 \<noteq> CHR ''<'' \<or> str ! 2 \<noteq> CHR ''-'' then (None, s)
         else if str ! 3 = CHR ''X'' \<and> current_player game \<noteq> FIRST_PLAYER_ROLE then (None, s)
         else if str ! 3 = CHR ''O'' \<and> current_player game \<noteq> SECOND_PLAYER_ROLE then (None, s)
         else
           (let m = atoi str - 1 in
            if m < 0 \<or> m > 8 then (None, s) else (Some \<lparr>move = m, role = r\<rparr>, s)))
      else (None, s))"

definition game_unparse_move :: "GAME_MOVE \<Rightarrow> sys \<Rightarrow> string option \<times> sys" where
  "game_unparse_move mv s =
     (let (ok, s) = calloc s in
      if \<not> ok then (None, s)
      else (Some (cstr [char_of (move mv + 1 + of_char (CHR ''0''))]), s))"

section \<open>Reference counting\<close>

definition game_body :: "GAME \<Rightarrow> int list \<times> int \<times> GAME_ROLE \<times> GAME_ROLE" where
  "game_body g = (rows g, is_over g, current_player g, winner g)"

lemma game_ref_unlocked [simp]:
  "\<not> g_mutex g \<Longrightarrow> game_ref g = Inr (g\<lparr>g_ref_count := g_ref_count g + 1\<rparr>)"
  by (cases g) (simp add: game_ref_def)

lemma game_unref_unlocked [simp]:
  "\<not> g_mutex g \<Longrightarrow> game_unref g =
     Inr (if g_ref_count g = 1 then None else Some (g\<lparr>g_ref_count := g_ref_count g - 1\<rparr>))"
  by (cases g) (simp add: game_unref_def)

interpretation game_rc: refcounted g_ref_count "\<lambda>g. \<not> g_mutex g" game_body game_ref game_unref
  by unfold_locales (simp_all add: game_body_def)


section \<open>The rules of the game\<close>

text \<open>
  A player has a line when all cells of a row, of a column or of one of the two diagonals are theirs; the
  cell in row \<open>r\<close> and column \<open>c\<close> is number \<open>3 * r + c\<close>. This is the rule of the game, stated without
  regard to how the code looks for lines.
\<close>

definition has_line :: "int list \<Rightarrow> int \<Rightarrow> bool" where
  "has_line b v \<longleftrightarrow>
     (\<exists>r \<in> {0, 1, 2}. \<forall>c \<in> {0, 1, 2}. b ! (3 * r + c) = v) \<or> (\<exists>c \<in> {0, 1, 2}. \<forall>r \<in> {0, 1, 2}. b ! (3 * r + c) = v)
     \<or> (\<forall>d \<in> {0, 1, 2}. b ! (3 * d + d) = v) \<or> (\<forall>d \<in> {0, 1, 2}. b ! (3 * d + (2 - d)) = v)"

text \<open>
  The abstract game is its history, the cells taken so far, newest first; the two players take
  them in turn. A history is legal when the cells are different cells of the board and no move
  was made in a decided game.
\<close>

definition mover :: "nat list \<Rightarrow> GAME_ROLE" where
  "mover h = (if even (length h) then FIRST_PLAYER_ROLE else SECOND_PLAYER_ROLE)"

fun other_role :: "GAME_ROLE \<Rightarrow> GAME_ROLE" where
  "other_role FIRST_PLAYER_ROLE = SECOND_PLAYER_ROLE"
| "other_role SECOND_PLAYER_ROLE = FIRST_PLAYER_ROLE"
| "other_role NULL_ROLE = NULL_ROLE"

fun board_of :: "nat list \<Rightarrow> int list" where
  "board_of [] = replicate 9 0"
| "board_of (c # h) = (board_of h)[c := role_val (mover h)]"

definition decided :: "int list \<Rightarrow> bool" where
  "decided b \<longleftrightarrow> has_line b 1 \<or> has_line b 2 \<or> 0 \<notin> set b"

fun legal :: "nat list \<Rightarrow> bool" where
  "legal [] = True"
| "legal (c # h) = (legal h \<and> c < 9 \<and> c \<notin> set h \<and> \<not> decided (board_of h))"

definition winner_of :: "int list \<Rightarrow> GAME_ROLE" where
  "winner_of b = (if has_line b 1 then FIRST_PLAYER_ROLE
                  else if has_line b 2 then SECOND_PLAYER_ROLE else NULL_ROLE)"

text \<open>\<open>game_rel h g\<close>: the game object \<open>g\<close> implements the history \<open>h\<close> in which nobody resigned.\<close>

definition game_rel :: "nat list \<Rightarrow> GAME \<Rightarrow> bool" where
  "game_rel h g \<longleftrightarrow> legal h \<and> rows g = board_of h \<and> current_player g = mover h
     \<and> winner g = winner_of (board_of h) \<and> is_over g = (if decided (board_of h) then 1 else 0)
     \<and> \<not> g_mutex g"

subsection \<open>Boards\<close>

text \<open>The lines that the code looks at, and that they are the lines of the rules.\<close>

definition all_lines :: "(nat \<times> nat \<times> nat) list" where
  "all_lines = row_lines @ col_lines @ diag_lines"

lemma all_lines_eq:
  "all_lines = [(0, 1, 2), (3, 4, 5), (6, 7, 8), (0, 3, 6), (1, 4, 7), (2, 5, 8), (0, 4, 8), (2, 4, 6)]"
  by (simp add: all_lines_def row_lines_def col_lines_def diag_lines_def)

lemma all_lines_bound: "(i, j, k) \<in> set all_lines \<Longrightarrow> i < 9 \<and> j < 9 \<and> k < 9"
  by (auto simp: all_lines_eq)

lemma has_line_iff: "has_line b v \<longleftrightarrow> (\<exists>(i, j, k) \<in> set all_lines. b ! i = v \<and> b ! j = v \<and> b ! k = v)"
  unfolding has_line_def all_lines_eq by (simp add: numeral_eq_Suc)

lemma length_board_of [simp]: "length (board_of h) = 9"
  by (induction h) auto

lemma role_val_mover: "role_val (mover h) = 1 \<or> role_val (mover h) = 2"
  by (simp add: mover_def)

lemma role_val_mover_nz [simp]: "role_val (mover h) \<noteq> 0"
  using role_val_mover [of h] by auto

lemma mover_Cons: "mover (c # h) = other_role (mover h)"
  by (simp add: mover_def)

lemma board_of_values: "set (board_of h) \<subseteq> {0, 1, 2}"
proof (induction h)
  case Nil
  then show ?case by (auto dest: in_set_replicate [THEN iffD1])
next
  case (Cons c h)
  have "set (board_of (c # h)) \<subseteq> insert (role_val (mover h)) (set (board_of h))"
    by (simp add: set_update_subset_insert)
  with Cons.IH role_val_mover [of h] show ?case by auto
qed

lemma board_of_free: "c < 9 \<Longrightarrow> board_of h ! c = 0 \<longleftrightarrow> c \<notin> set h"
  by (induction h) (auto simp: nth_update_iff)

lemma empty_count_eq: "empty_count b = count_list b 0"
  by (induction b) auto

lemma empty_count_0: "empty_count b = 0 \<longleftrightarrow> 0 \<notin> set b"
  by (induction b) auto

lemma full_board: "0 \<notin> set (board_of h) \<longleftrightarrow> {..<9} \<subseteq> set h"
proof -
  have "0 \<notin> set (board_of h) \<longleftrightarrow> (\<forall>c < 9. board_of h ! c \<noteq> 0)"
    by (metis in_set_conv_nth length_board_of)
  then show ?thesis by (auto simp: board_of_free)
qed

lemma legal_distinct: "legal h \<Longrightarrow> distinct h \<and> set h \<subseteq> {..<9}"
  by (induction h) auto

lemma legal_length: "legal h \<Longrightarrow> length h \<le> 9"
  using legal_distinct [of h] card_mono [of "{..<9}" "set h"] distinct_card [of h] by auto

lemma legal_nine_full: "legal h \<Longrightarrow> length h = 9 \<Longrightarrow> 0 \<notin> set (board_of h)"
  using legal_distinct [of h] card_subset_eq [of "{..<9}" "set h"] distinct_card [of h]
  by (auto simp: full_board)

subsection \<open>Lines\<close>

lemma check_lines_None:
  "check_lines ls b = None \<longleftrightarrow> (\<forall>(i, j, k) \<in> set ls. \<not> (b ! i = b ! j \<and> b ! j = b ! k \<and> b ! i \<noteq> 0))"
  by (induction ls b rule: check_lines.induct) (auto split: if_splits)

lemma check_lines_Some:
  "check_lines ls b = Some v \<Longrightarrow>
     v \<noteq> 0 \<and> (\<exists>(i, j, k) \<in> set ls. b ! i = v \<and> b ! j = v \<and> b ! k = v)"
  by (induction ls b rule: check_lines.induct) (auto split: if_splits)

lemma check_all_None:
  "check_lines all_lines b = None \<longleftrightarrow> (\<forall>v. v \<noteq> 0 \<longrightarrow> \<not> has_line b v)"
  unfolding check_lines_None has_line_iff by fastforce

lemma check_all_Some: "check_lines all_lines b = Some v \<Longrightarrow> v \<noteq> 0 \<and> has_line b v"
  by (drule check_lines_Some) (simp add: has_line_iff)

lemma has_line_value:
  assumes "has_line b v" and "length b = 9"
  shows "v \<in> set b"
proof -
  from assms(1) obtain i j k where "(i, j, k) \<in> set all_lines" "b ! i = v"
    by (auto simp: has_line_iff)
  with all_lines_bound assms(2) show ?thesis by (metis nth_mem)
qed

text \<open>Taking a free cell for one player completes no line of the other.\<close>

lemma has_line_update:
  assumes "has_line (b[c := v]) u" and "u \<noteq> v" and "length b = 9"
  shows "has_line b u"
proof -
  from assms(1) obtain i j k where l: "(i, j, k) \<in> set all_lines"
      "b[c := v] ! i = u" "b[c := v] ! j = u" "b[c := v] ! k = u"
    by (auto simp: has_line_iff)
  with all_lines_bound [OF l(1)] assms(2,3) have "b ! i = u" "b ! j = u" "b ! k = u"
    by (auto simp: nth_update_iff split: if_splits)
  with l(1) show ?thesis by (auto simp: has_line_iff)
qed

text \<open>In a legal history only the player who moved last can have a line.\<close>

lemma legal_line_of_last:
  assumes "legal (c # h)" and "has_line (board_of (c # h)) v" and "v \<noteq> 0"
  shows "v = role_val (mover h)"
proof (rule ccontr)
  assume ne: "v \<noteq> role_val (mover h)"
  with assms(2) have l: "has_line (board_of h) v"
    by (auto intro: has_line_update)
  then have "v \<in> set (board_of h)" by (simp add: has_line_value)
  with assms(3) board_of_values [of h] have "v = 1 \<or> v = 2" by auto
  with l assms(1) show False by (auto simp: decided_def)
qed

lemma legal_not_both:
  assumes "legal h"
  shows "\<not> (has_line (board_of h) 1 \<and> has_line (board_of h) 2)"
proof (cases h)
  case Nil
  have "(1::int) \<notin> set (board_of [])" by simp
  with Nil show ?thesis using has_line_value [of "board_of []" 1] by fastforce
next
  case (Cons c h')
  show ?thesis
  proof
    assume "has_line (board_of h) 1 \<and> has_line (board_of h) 2"
    then have "has_line (board_of (c # h')) 1" "has_line (board_of (c # h')) 2"
      unfolding Cons by blast+
    moreover have "legal (c # h')" using assms Cons by blast
    ultimately have "1 = role_val (mover h')" "2 = role_val (mover h')"
      using legal_line_of_last zero_neq_one zero_neq_numeral by metis+
    then show False by linarith
  qed
qed

lemma check_all_winner:
  assumes "legal h"
  shows "check_lines all_lines (board_of h) =
    (if winner_of (board_of h) = NULL_ROLE then None
     else Some (role_val (winner_of (board_of h))))"
proof (cases "check_lines all_lines (board_of h)")
  case None
  then show ?thesis by (auto simp: check_all_None winner_of_def)
next
  case (Some v)
  then have v: "v \<noteq> 0" "has_line (board_of h) v" by (auto dest: check_all_Some)
  then have "v \<in> {0, 1, 2}"
    using has_line_value [of "board_of h" v] board_of_values [of h] by auto
  with v legal_not_both [OF assms] Some show ?thesis by (auto simp: winner_of_def)
qed

lemma winner_of_decided: "winner_of b \<noteq> NULL_ROLE \<Longrightarrow> decided b"
  by (auto simp: winner_of_def decided_def split: if_splits)

lemma decided_draw: "decided b \<Longrightarrow> winner_of b = NULL_ROLE \<Longrightarrow> 0 \<notin> set b"
  by (auto simp: winner_of_def decided_def split: if_splits)


section \<open>The game object implements the rules\<close>

lemma game_is_over_board:
  assumes "legal h" and "rows g = board_of h" and "\<not> g_mutex g"
  shows "game_is_over g =
    (if decided (board_of h) then Inr (1, g\<lparr>winner := winner_of (board_of h), is_over := 1\<rparr>)
     else Inr (is_over g, g))"
proof -
  let ?b = "board_of h"
  have chk: "check_lines (row_lines @ col_lines @ diag_lines) ?b =
      (if winner_of ?b = NULL_ROLE then None else Some (role_val (winner_of ?b)))"
    using check_all_winner [OF assms(1)] by (simp add: all_lines_def)
  have m: "g\<lparr>g_mutex := False\<rparr> = g" using assms(3) by (cases g) simp
  show ?thesis
  proof (cases "winner_of ?b")
    case NULL_ROLE
    with chk assms show ?thesis
      using m by (cases g) (auto simp: game_is_over_def empty_count_0 decided_draw decided_def)
  next
    case FIRST_PLAYER_ROLE
    with chk assms winner_of_decided [of ?b] show ?thesis
      by (cases g) (simp add: game_is_over_def)
  next
    case SECOND_PLAYER_ROLE
    with chk assms winner_of_decided [of ?b] show ?thesis
      by (cases g) (simp add: game_is_over_def)
  qed
qed

lemma game_is_over_rel: "game_rel h g \<Longrightarrow> game_is_over g = Inr (is_over g, g)"
  by (cases g) (auto simp: game_rel_def game_is_over_board)

lemma undecided_no_winner: "\<not> decided b \<Longrightarrow> winner_of b = NULL_ROLE"
  by (auto simp: decided_def winner_of_def)

lemma mover_flip:
  "(if mover h = FIRST_PLAYER_ROLE then SECOND_PLAYER_ROLE else FIRST_PLAYER_ROLE) = mover (c # h)"
  by (simp add: mover_def)

lemma apply_legal_move:
  assumes rel: "game_rel h g" and nd: "\<not> decided (board_of h)"
    and r: "role mv = mover h" and i: "0 \<le> move mv" "move mv < 9" "nat (move mv) \<notin> set h"
  shows "\<exists>g'. game_apply_move g mv = Inr (0, g') \<and> game_rel (nat (move mv) # h) g'
           \<and> g_ref_count g' = g_ref_count g"
proof -
  let ?c = "nat (move mv)" and ?h = "nat (move mv) # h"
  from rel have g: "legal h" "rows g = board_of h" "current_player g = mover h" "\<not> g_mutex g"
      "winner g = NULL_ROLE" "is_over g = 0"
    using nd by (auto simp: game_rel_def undecided_no_winner)
  from i g(1) nd have leg: "legal ?h" by (simp add: nat_less_iff)
  from i have free: "board_of h ! ?c = 0" by (simp add: board_of_free nat_less_iff)
  define g1 where "g1 = g\<lparr>rows := board_of ?h, current_player := mover ?h\<rparr>"
  have "game_apply_move g mv = and_then (game_is_over g1) (\<lambda>(_, g). Inr (0, g))"
    using g r i free mover_flip [of h ?c]
    by (cases g) (simp add: game_apply_move_def g1_def)
  moreover have "game_is_over g1 =
      (if decided (board_of ?h) then Inr (1, g1\<lparr>winner := winner_of (board_of ?h), is_over := 1\<rparr>)
       else Inr (is_over g1, g1))"
    by (rule game_is_over_board [OF leg]) (use g in \<open>simp_all add: g1_def\<close>)
  ultimately show ?thesis
    using g leg by (auto simp: game_rel_def g1_def undecided_no_winner simp del: board_of.simps)
qed

lemma apply_illegal_move:
  assumes rel: "game_rel h g" and i: "0 \<le> move mv" "move mv < 9"
    and bad: "role mv \<noteq> mover h \<or> nat (move mv) \<in> set h"
  shows "game_apply_move g mv = Inr (-1, g)"
proof -
  from rel have g: "rows g = board_of h" "current_player g = mover h" "\<not> g_mutex g"
    by (auto simp: game_rel_def)
  have "nat (move mv) \<in> set h \<Longrightarrow> board_of h ! nat (move mv) \<noteq> 0"
    using i by (simp add: board_of_free nat_less_iff)
  with g i bad show ?thesis by (cases g) (auto simp: game_apply_move_def Let_def)
qed

lemma is_over_decided: "game_rel h g \<Longrightarrow> is_over g = 1 \<longleftrightarrow> decided (board_of h)"
  by (simp add: game_rel_def)

lemma is_over_undecided: "game_rel h g \<Longrightarrow> is_over g = 0 \<longleftrightarrow> \<not> decided (board_of h)"
  by (simp add: game_rel_def)

lemma game_create_ok:
  "no_oom s \<Longrightarrow> \<exists>g s'. game_create s = Inr (Some g, s') \<and> game_rel [] g \<and> g_ref_count g = 1 \<and> no_oom s'"
proof -
  assume "no_oom s"
  moreover have "\<not> has_line (board_of []) v" if "v \<noteq> 0" for v
    using that has_line_value [of "board_of []" v] by auto
  ultimately show ?thesis
    by (simp add: game_create_def game_rel_def mover_def winner_of_def decided_def)
qed

lemma game_is_over_any:
  assumes "\<not> g_mutex g"
  shows "\<exists>f g'. game_is_over g = Inr (f, g') \<and> rows g' = rows g \<and> g_ref_count g' = g_ref_count g"
  using assms by (cases "check_lines (row_lines @ col_lines @ diag_lines) (rows g)") (simp_all add: game_is_over_def Let_def)

lemma apply_in_turn:
  assumes rel: "game_rel h g" and i: "0 \<le> move mv" "move mv < 9" and r: "role mv = mover h" and free: "nat (move mv) \<notin> set h"
  shows "\<exists>g'. game_apply_move g mv = Inr (0, g') \<and> g_ref_count g' = g_ref_count g
    \<and> rows g' = (rows g)[nat (move mv) := role_val (role mv)]"
proof -
  from rel have g: "rows g = board_of h" "current_player g = mover h" "\<not> g_mutex g" by (simp_all add: game_rel_def)
  have "board_of h ! nat (move mv) = 0" using i free by (simp add: board_of_free nat_less_iff)
  then obtain g1 where g1: "game_apply_move g mv = and_then (game_is_over g1) (\<lambda>(_, g). Inr (0, g))" "\<not> g_mutex g1"
      "g_ref_count g1 = g_ref_count g" "rows g1 = (rows g)[nat (move mv) := role_val (role mv)]"
    using g r i by (auto simp: game_apply_move_def Let_def)
  obtain f g' where "game_is_over g1 = Inr (f, g')" "rows g' = rows g1" "g_ref_count g' = g_ref_count g1"
    using game_is_over_any [OF g1(2)] by blast
  then show ?thesis using g1 by simp
qed

text \<open>A game won by the first player on the top row, as an input for witnesses.\<close>

definition won_game :: GAME where
  "won_game = \<lparr>rows = [1, 1, 1, 2, 2, 0, 0, 0, 0], g_ref_count = 1, is_over = 1,
     current_player = SECOND_PLAYER_ROLE, winner = FIRST_PLAYER_ROLE, g_mutex = False\<rparr>"

lemma won_game_rel: "game_rel [2, 4, 1, 3, 0] won_game"
  by code_simp

text \<open>
  C3: applying a move implements the abstract game while the game is in progress. Then the move is
  accepted exactly when it is legal in the abstract game and the player's turn, and the game object
  implements the history extended with that cell. A move out of turn or to a taken cell is always refused with
  -1 and leaves the game unchanged. When the game is over the abstract game has no legal move,
  but the code still accepts one in turn to a free cell, and writes it to the board.
\<close>

theorem game_apply_move_refines:
  assumes "game_rel h g" and "0 \<le> move mv" and "move mv < 9"
  shows "\<exists>r g'. game_apply_move g mv = Inr (r, g')
    \<and> (is_over g = 0 \<longrightarrow> (r = 0 \<longleftrightarrow> role mv = mover h \<and> legal (nat (move mv) # h)))
    \<and> (if role mv = mover h \<and> nat (move mv) \<notin> set h
       then r = 0 \<and> g_ref_count g' = g_ref_count g \<and> rows g' = (rows g)[nat (move mv) := role_val (role mv)]
         \<and> (if is_over g = 0 then game_rel (nat (move mv) # h) g' else \<not> legal (nat (move mv) # h))
       else r = -1 \<and> g' = g)"
proof (cases "role mv = mover h \<and> nat (move mv) \<notin> set h")
  case False
  then show ?thesis using apply_illegal_move [OF assms] by auto
next
  case True
  show ?thesis
  proof (cases "decided (board_of h)")
    case False
    obtain g' where g': "game_apply_move g mv = Inr (0, g')" "game_rel (nat (move mv) # h) g'" "g_ref_count g' = g_ref_count g"
      using apply_legal_move [OF assms(1) False _ assms(2,3)] True by auto
    moreover have "legal (nat (move mv) # h)" "rows g' = (rows g)[nat (move mv) := role_val (role mv)]"
      using g'(2) assms(1) True by (simp_all add: game_rel_def)
    ultimately show ?thesis using True False is_over_undecided [OF assms(1)] by simp
  next
    case dec: True
    obtain g' where "game_apply_move g mv = Inr (0, g')" "g_ref_count g' = g_ref_count g"
        "rows g' = (rows g)[nat (move mv) := role_val (role mv)]"
      using apply_in_turn [OF assms] True by auto
    then show ?thesis using True dec is_over_undecided [OF assms(1)] by simp
  qed
qed

theorem game_apply_move_refines_witness:
  "(\<exists>g s g'. game_create calm_sys = Inr (Some g, s)
      \<and> game_apply_move g \<lparr>move = 4, role = FIRST_PLAYER_ROLE\<rparr> = Inr (0, g') \<and> game_rel [4] g')
   \<and> (\<exists>g'. game_apply_move won_game \<lparr>move = 8, role = SECOND_PLAYER_ROLE\<rparr> = Inr (0, g') \<and> rows g' ! 8 = 2)"
proof -
  obtain g s where c: "game_create calm_sys = Inr (Some g, s)" and rel: "game_rel [] g"
    using game_create_ok [of calm_sys] by auto
  from c have "is_over g = 0" by (auto simp: game_create_def)
  with game_apply_move_refines [OF rel, of "\<lparr>move = 4, role = FIRST_PLAYER_ROLE\<rparr>"] c
  show ?thesis using game_apply_move_refines [OF won_game_rel, of "\<lparr>move = 8, role = SECOND_PLAYER_ROLE\<rparr>"]
    by (auto simp: mover_def won_game_def)
qed

lemma winner_is_last_mover:
  assumes "game_rel h g" and "winner g \<noteq> NULL_ROLE"
  shows "\<exists>c h'. h = c # h' \<and> winner g = mover h'"
proof (cases h)
  case Nil
  have "\<not> has_line (board_of []) v" if "v \<noteq> 0" for v
    using that has_line_value [of "board_of []" v] by auto
  with Nil assms show ?thesis by (simp add: game_rel_def winner_of_def)
next
  case (Cons c h')
  from assms obtain v where v: "has_line (board_of h) v" "v = role_val (winner g)" "v \<noteq> 0"
    by (auto simp: game_rel_def winner_of_def split: if_splits)
  with Cons assms(1) legal_line_of_last [of c h' v] have "role_val (winner g) = role_val (mover h')"
    by (simp add: game_rel_def)
  then have "winner g = mover h'"
    by (cases "winner g") (auto simp: mover_def split: if_splits)
  with Cons show ?thesis by blast
qed

lemma winner_iff_line:
  assumes "game_rel h g" and "r \<noteq> NULL_ROLE"
  shows "winner g = r \<longleftrightarrow> has_line (rows g) (role_val r)"
  using assms legal_not_both [of h] by (cases r) (auto simp: game_rel_def winner_of_def)

text \<open>A game as the code plays it: a new game, then moves of any kind while it is not over, accepted or not.\<close>

inductive played :: "GAME \<Rightarrow> bool" where
  start: "game_create s = Inr (Some g, s') \<Longrightarrow> played g"
| turn: "played g \<Longrightarrow> is_over g = 0 \<Longrightarrow> 0 \<le> move mv \<Longrightarrow> move mv < 9 \<Longrightarrow> game_apply_move g mv = Inr (r, g') \<Longrightarrow> played g'"

lemma played_rel: "played g \<Longrightarrow> \<exists>h. game_rel h g"
proof (induction rule: played.induct)
  case (start s g s')
  have nl: "\<not> has_line (board_of []) v" if "v \<noteq> 0" for v
    using that has_line_value [of "board_of []" v] by auto
  have "rows g = replicate 9 0" "current_player g = FIRST_PLAYER_ROLE" "winner g = NULL_ROLE" "is_over g = 0" "\<not> g_mutex g"
    using start by (auto simp: game_create_def Let_def split: prod.splits if_splits)
  then have "game_rel [] g" using nl by (simp add: game_rel_def mover_def winner_of_def decided_def)
  then show ?case by blast
next
  case (turn g mv r g')
  then obtain h where h: "game_rel h g" "\<not> decided (board_of h)" using is_over_undecided by blast
  show ?case
  proof (cases "role mv = mover h \<and> nat (move mv) \<notin> set h")
    case True
    then show ?thesis using apply_legal_move [OF h _ turn(3,4)] turn(5) by auto
  next
    case False
    then show ?thesis using apply_illegal_move [OF h(1) turn(3,4)] turn(5) h(1) by auto
  qed
qed

text \<open>
  C28: a game the code has played reports what the rules say. Asking whether the game is over changes
  nothing; the answer is 1 when a player has three cells in a row, column or diagonal or the board is full, and 0
  otherwise; the recorded winner is the one player who has such a line, and is never the player to move.
\<close>

theorem game_is_over_correct:
  assumes "played g"
  shows "game_is_over g = Inr (is_over g, g)
    \<and> is_over g = (if has_line (rows g) 1 \<or> has_line (rows g) 2 \<or> 0 \<notin> set (rows g) then 1 else 0)
    \<and> (\<forall>r. r \<noteq> NULL_ROLE \<longrightarrow> (game_get_winner g = r \<longleftrightarrow> has_line (rows g) (role_val r)))
    \<and> (game_get_winner g \<noteq> NULL_ROLE \<longrightarrow> current_player g = other_role (game_get_winner g))"
proof -
  obtain h where h: "game_rel h g" using played_rel [OF assms] by blast
  have "current_player g = other_role (winner g)" if "winner g \<noteq> NULL_ROLE"
    using winner_is_last_mover [OF h that] h by (auto simp: game_rel_def mover_Cons)
  then show ?thesis using game_is_over_rel [OF h] winner_iff_line [OF h] h
    by (auto simp: game_get_winner_def game_rel_def decided_def)
qed

text \<open>The moves of the game that the first player wins on the top row.\<close>

lemma won_game_played: "played won_game"
proof -
  let ?g0 = "\<lparr>rows = replicate 9 0, g_ref_count = 1, is_over = 0, current_player = FIRST_PLAYER_ROLE, winner = NULL_ROLE, g_mutex = False\<rparr>"
  have "game_create calm_sys = Inr (Some ?g0, snd (pthread_mutex_init (snd (calloc calm_sys))))" by (simp add: game_create_def)
  from played.start [OF this]
  have g0: "played ?g0" .
  have g1: "played (?g0\<lparr>rows := [1, 0, 0, 0, 0, 0, 0, 0, 0], current_player := SECOND_PLAYER_ROLE\<rparr>)"
    by (rule played.turn [OF g0, of "\<lparr>move = 0, role = FIRST_PLAYER_ROLE\<rparr>" 0]) (simp, simp, simp, code_simp)
  have g2: "played (?g0\<lparr>rows := [1, 0, 0, 2, 0, 0, 0, 0, 0]\<rparr>)"
    by (rule played.turn [OF g1, of "\<lparr>move = 3, role = SECOND_PLAYER_ROLE\<rparr>" 0]) (simp, simp, simp, code_simp)
  have g3: "played (?g0\<lparr>rows := [1, 1, 0, 2, 0, 0, 0, 0, 0], current_player := SECOND_PLAYER_ROLE\<rparr>)"
    by (rule played.turn [OF g2, of "\<lparr>move = 1, role = FIRST_PLAYER_ROLE\<rparr>" 0]) (simp, simp, simp, code_simp)
  have g4: "played (?g0\<lparr>rows := [1, 1, 0, 2, 2, 0, 0, 0, 0]\<rparr>)"
    by (rule played.turn [OF g3, of "\<lparr>move = 4, role = SECOND_PLAYER_ROLE\<rparr>" 0]) (simp, simp, simp, code_simp)
  show ?thesis
    by (rule played.turn [OF g4, of "\<lparr>move = 2, role = FIRST_PLAYER_ROLE\<rparr>" 0]) (simp, simp, simp, code_simp)
qed

theorem game_is_over_correct_witness:
  "played won_game \<and> game_is_over won_game = Inr (1, won_game) \<and> game_get_winner won_game = FIRST_PLAYER_ROLE
     \<and> has_line (rows won_game) 1 \<and> \<not> has_line (rows won_game) 2 \<and> current_player won_game = SECOND_PLAYER_ROLE"
proof -
  note c = game_is_over_correct [OF won_game_played]
  have w: "is_over won_game = 1" "game_get_winner won_game = FIRST_PLAYER_ROLE"
    by (simp_all add: won_game_def game_get_winner_def)
  have "game_is_over won_game = Inr (is_over won_game, won_game)"
    using c by (elim conjE)
  moreover have lines: "\<forall>r. r \<noteq> NULL_ROLE \<longrightarrow>
      (game_get_winner won_game = r \<longleftrightarrow> has_line (rows won_game) (role_val r))"
    using c by (elim conjE)
  moreover have "current_player won_game = SECOND_PLAYER_ROLE" using c w(2) by simp
  ultimately show ?thesis
    using w won_game_played spec [OF lines, of FIRST_PLAYER_ROLE] spec [OF lines, of SECOND_PLAYER_ROLE] by simp
qed


section \<open>Length of a game, resignation\<close>

lemma free_cell:
  assumes "game_rel h g" and "is_over g = 0"
  shows "\<exists>c < 9. c \<notin> set h"
proof -
  have "0 \<in> set (board_of h)" using assms by (auto simp: is_over_undecided decided_def)
  then have "\<not> {..<9} \<subseteq> set h" using full_board [of h] by blast
  then show ?thesis by auto
qed

text \<open>
  C29: every game ends. A game in progress has had fewer than nine moves and offers the player whose
  turn it is a move that is accepted; after nine moves it is over.
\<close>

theorem game_progress_and_end:
  assumes "game_rel h g"
  shows "length h \<le> 9 \<and> (length h = 9 \<longrightarrow> is_over g = 1)
    \<and> (is_over g = 0 \<longrightarrow> (\<exists>m g'. 0 \<le> m \<and> m < 9
         \<and> game_apply_move g \<lparr>move = m, role = current_player g\<rparr> = Inr (0, g')
         \<and> game_rel (nat m # h) g'))"
proof (intro conjI impI)
  show "length h \<le> 9" using assms by (simp add: game_rel_def legal_length)
  show "is_over g = 1" if "length h = 9"
    using assms that legal_nine_full [of h] by (simp add: game_rel_def decided_def)
  assume "is_over g = 0"
  with free_cell [OF assms] obtain c where c: "c < 9" "c \<notin> set h" by blast
  let ?mv = "\<lparr>move = int c, role = current_player g\<rparr>"
  have "\<exists>g'. game_apply_move g ?mv = Inr (0, g') \<and> game_rel (nat (move ?mv) # h) g'
          \<and> g_ref_count g' = g_ref_count g"
    by (rule apply_legal_move [OF assms])
      (use c assms \<open>is_over g = 0\<close> in \<open>auto simp: is_over_undecided [OF assms] game_rel_def\<close>)
  with c(1) show "\<exists>m g'. 0 \<le> m \<and> m < 9
         \<and> game_apply_move g \<lparr>move = m, role = current_player g\<rparr> = Inr (0, g')
         \<and> game_rel (nat m # h) g'"
    by (intro exI [of _ "int c"]) auto
qed

theorem game_progress_and_end_witness:
  "is_over (won_game\<lparr>rows := board_of [0], current_player := SECOND_PLAYER_ROLE, winner := NULL_ROLE,
       is_over := 0\<rparr>) = 0
   \<and> (\<exists>m g'. 0 \<le> m \<and> m < 9 \<and> game_apply_move (won_game\<lparr>rows := board_of [0],
         current_player := SECOND_PLAYER_ROLE, winner := NULL_ROLE, is_over := 0\<rparr>)
         \<lparr>move = m, role = SECOND_PLAYER_ROLE\<rparr> = Inr (0, g'))"
proof -
  let ?g = "won_game\<lparr>rows := board_of [0], current_player := SECOND_PLAYER_ROLE, winner := NULL_ROLE,
       is_over := 0\<rparr>"
  have "game_rel [0] ?g" by code_simp
  from game_progress_and_end [OF this] show ?thesis by auto
qed

text \<open>A game that was resigned: what the server's later calls see of it.\<close>

definition resigned :: "GAME_ROLE \<Rightarrow> GAME \<Rightarrow> bool" where
  "resigned r g \<longleftrightarrow> is_over g = 1 \<and> current_player g = NULL_ROLE \<and> winner g = other_role r"

lemma game_resign_open:
  "winner g = NULL_ROLE \<Longrightarrow> r \<noteq> NULL_ROLE \<Longrightarrow>
     fst (game_resign g r) = 0 \<and> resigned r (snd (game_resign g r))"
  by (cases r) (simp_all add: game_resign_def resigned_def)

text \<open>
  C30: resigning a game in progress succeeds, makes the opponent the winner and is final: no player's
  move is accepted afterwards, a second resignation is refused, and asking again whether the game
  is over gives the same answer and the same winner.
\<close>

theorem game_resign_final:
  assumes "game_rel h g" and "is_over g = 0" and "r \<noteq> NULL_ROLE"
  shows "\<exists>g'. game_resign g r = (0, g') \<and> game_get_winner g' = other_role r
    \<and> (\<forall>mv. role mv \<noteq> NULL_ROLE \<longrightarrow> game_apply_move g' mv = Inr (-1, g'))
    \<and> (\<forall>q. game_resign g' q = (-1, g'))
    \<and> game_is_over g' = Inr (1, g')"
proof -
  from assms have g: "legal h" "rows g = board_of h" "\<not> g_mutex g" "winner g = NULL_ROLE"
      "\<not> decided (board_of h)"
    by (auto simp: game_rel_def undecided_no_winner split: if_splits)
  let ?g = "snd (game_resign g r)"
  from g(4) assms(3) have r: "game_resign g r = (0, ?g)" "resigned r ?g"
    using game_resign_open [of g r] by (auto simp: prod_eq_iff)
  have f: "rows ?g = board_of h" "\<not> g_mutex ?g"
    using g by (simp_all add: game_resign_def)
  have "game_is_over ?g = Inr (1, ?g)"
    using game_is_over_board [OF g(1) f] g(5) r(2) by (simp add: resigned_def)
  moreover have "game_apply_move ?g mv = Inr (-1, ?g)" if "role mv \<noteq> NULL_ROLE" for mv
    using r(2) f that by (cases ?g) (auto simp: game_apply_move_def resigned_def Let_def)
  moreover have "game_resign ?g q = (-1, ?g)" for q
    using r(2) assms(3) by (cases r) (auto simp: game_resign_def resigned_def)
  ultimately show ?thesis
    using r by (auto simp: game_get_winner_def resigned_def)
qed

theorem game_resign_final_witness:
  "\<exists>g g'. game_rel [4] g \<and> game_resign g SECOND_PLAYER_ROLE = (0, g')
     \<and> game_get_winner g' = FIRST_PLAYER_ROLE"
proof -
  let ?g = "won_game\<lparr>rows := board_of [4], winner := NULL_ROLE, is_over := 0\<rparr>"
  have g: "game_rel [4] ?g" by code_simp
  have "is_over ?g = 0" by simp
  from game_resign_final [OF g this, of SECOND_PLAYER_ROLE] g show ?thesis by auto
qed

text \<open>
  a drawn game, which is over, can still be resigned, and the resignation turns the draw into a
  win of the other player: the check for a terminated game looks at the winner only.
\<close>

theorem game_resign_after_draw:
  assumes "game_rel h g" and "is_over g = 1" and "game_get_winner g = NULL_ROLE" and "r \<noteq> NULL_ROLE"
  shows "\<exists>g'. game_resign g r = (0, g') \<and> game_get_winner g' = other_role r"
  using assms game_resign_open [of g r]
  by (auto simp: game_get_winner_def resigned_def prod_eq_iff)

definition drawn_game :: GAME where
  "drawn_game = \<lparr>rows = [1, 2, 1, 1, 2, 2, 2, 1, 1], g_ref_count = 1, is_over = 1,
     current_player = SECOND_PLAYER_ROLE, winner = NULL_ROLE, g_mutex = False\<rparr>"

theorem game_resign_after_draw_witness:
  "is_over drawn_game = 1 \<and> game_get_winner drawn_game = NULL_ROLE
   \<and> (\<exists>g'. game_resign drawn_game FIRST_PLAYER_ROLE = (0, g') \<and> game_get_winner g' = SECOND_PLAYER_ROLE)"
proof -
  have rel: "game_rel [8, 6, 7, 5, 3, 4, 2, 1, 0] drawn_game" by code_simp
  have d: "is_over drawn_game = 1" "game_get_winner drawn_game = NULL_ROLE"
    by (simp_all add: drawn_game_def game_get_winner_def)
  from game_resign_after_draw [OF rel d, of FIRST_PLAYER_ROLE] d show ?thesis by simp
qed


section \<open>Printed states and moves\<close>

text \<open>Reading a printed state back: the cells are at the even places of lines 1, 3 and 5.\<close>

definition cell_of_char :: "char \<Rightarrow> int" where
  "cell_of_char c = (if c = CHR '' '' then 0 else if c = CHR ''X'' then 1 else 2)"

definition read_board :: "string \<Rightarrow> int list" where
  "read_board str = map (\<lambda>i. cell_of_char (str ! i)) [0, 2, 4, 12, 14, 16, 24, 26, 28]"

definition read_turn :: "string \<Rightarrow> GAME_ROLE" where
  "read_turn str = (if str ! 30 = CHR ''X'' then FIRST_PLAYER_ROLE else SECOND_PLAYER_ROLE)"

lemma cell_of_cell_char: "c \<in> {0, 1, 2} \<Longrightarrow> cell_of_char (cell_char c) = c"
  by (auto simp: cell_of_char_def cell_char_def)

lemma list9:
  assumes "length b = 9"
  obtains b0 b1 b2 b3 b4 b5 b6 b7 b8 where "b = [b0, b1, b2, b3, b4, b5, b6, b7, b8]"
  using assms by (auto simp: eval_nat_numeral length_Suc_conv)

lemma length_state_string [simp]: "length (state_string g) = 40"
  by (simp add: state_string_def newline_def floor_string_def)

lemma game_unparse_state_ok:
  "\<not> g_mutex g \<Longrightarrow> no_oom s \<Longrightarrow>
     \<exists>s'. game_unparse_state g s = Inr (Some (state_string g), g, s') \<and> s' = s\<lparr>res_n := res_n s + 2\<rparr>"
  by (cases g) (simp add: game_unparse_state_def)

text \<open>
  C31: printing a state writes 40 characters and the final NUL, so the 50 byte buffer never
  overflows, leaves the game as it was, and loses nothing: the board and, while a player is to
  move, whose turn it is can be read back from the text.
\<close>

theorem game_unparse_state_roundtrip:
  assumes "length (rows g) = 9" and "set (rows g) \<subseteq> {0, 1, 2}" and "\<not> g_mutex g" and "no_oom s"
  shows "\<exists>str s'. game_unparse_state g s = Inr (Some str, g, s') \<and> length str = 40
    \<and> read_board str = rows g
    \<and> (current_player g \<noteq> NULL_ROLE \<longrightarrow> read_turn str = current_player g)"
proof -
  from assms(1) obtain b0 b1 b2 b3 b4 b5 b6 b7 b8
    where b: "rows g = [b0, b1, b2, b3, b4, b5, b6, b7, b8]" by (rule list9)
  have "read_board (state_string g) = rows g"
    using assms(2) b
    by (simp add: read_board_def state_string_def newline_def floor_string_def cell_of_cell_char
        nth_Cons_numeral numeral_eq_Suc)
  moreover have "current_player g \<noteq> NULL_ROLE \<longrightarrow> read_turn (state_string g) = current_player g"
    by (cases "current_player g")
      (simp_all add: read_turn_def state_string_def newline_def floor_string_def numeral_eq_Suc)
  ultimately show ?thesis
    using game_unparse_state_ok [OF assms(3,4)] by auto
qed

theorem game_unparse_state_roundtrip_witness:
  "\<exists>str s'. game_unparse_state won_game calm_sys = Inr (Some str, won_game, s') \<and> length str = 40
     \<and> read_board str = [1, 1, 1, 2, 2, 0, 0, 0, 0] \<and> read_turn str = SECOND_PLAYER_ROLE"
  using game_unparse_state_roundtrip [of won_game calm_sys] by (simp add: won_game_def)

text \<open>The character of a digit, and what \<open>atoi\<close> makes of the two forms of a move.\<close>

definition digit_char :: "nat \<Rightarrow> char" where
  "digit_char d = char_of (48 + d)"

lemma of_char_int: "(of_char c :: int) = int (of_char c)"
  by (simp add: of_char_def)

lemma char_of_int_nat: "char_of (int k) = char_of k"
  by (simp add: char_of_def bit_of_nat_iff_bit)

lemma of_digit_char: "d \<le> 9 \<Longrightarrow> (of_char (digit_char d) :: nat) = 48 + d"
  by (simp add: digit_char_def)

lemma digit_char_of: "isdigit c \<Longrightarrow> \<exists>d \<le> 9. c = digit_char d"
proof -
  assume "isdigit c"
  then have b: "48 \<le> (of_char c :: nat)" "(of_char c :: nat) \<le> 57" by (auto simp: isdigit_def)
  then have "c = digit_char (of_char c - 48)" by (simp add: digit_char_def)
  moreover from b have "(of_char c :: nat) - 48 \<le> 9" by linarith
  ultimately show ?thesis by blast
qed

lemma digit_char_inject: "d \<le> 9 \<Longrightarrow> e \<le> 9 \<Longrightarrow> digit_char d = digit_char e \<longleftrightarrow> d = e"
  by (metis add_left_cancel of_digit_char)

lemma isdigit_not_special:
  "isdigit c \<Longrightarrow> \<not> isspace c \<and> c \<noteq> CHR ''-'' \<and> c \<noteq> CHR ''+''"
  by (auto simp: isdigit_def isspace_def)

lemma atoi_digit:
  assumes "d \<le> 9" and "rest = [] \<or> \<not> isdigit (hd rest)"
  shows "atoi (digit_char d # rest) = int d"
proof -
  have "isdigit (digit_char d)" using assms(1) by (simp add: isdigit_def of_digit_char)
  with isdigit_not_special [OF this] assms show ?thesis
    by (cases rest) (auto simp: atoi_def of_char_int of_digit_char)
qed

lemma atoi_no_digit:
  assumes "\<not> isdigit c" and "rest = [] \<or> \<not> isdigit (hd rest) \<and> \<not> isspace (hd rest)
      \<and> hd rest \<noteq> CHR ''-'' \<and> hd rest \<noteq> CHR ''+''"
  shows "atoi (c # rest) = 0"
  using assms by (cases rest) (auto simp: atoi_def)

lemma atoi_cell_iff:
  assumes "rest = [] \<or> \<not> isdigit (hd rest) \<and> \<not> isspace (hd rest)
      \<and> hd rest \<noteq> CHR ''-'' \<and> hd rest \<noteq> CHR ''+''" and "m < 9"
  shows "atoi (c # rest) - 1 = int m \<longleftrightarrow> c = digit_char (Suc m)"
proof (cases "isdigit c")
  case True
  then obtain d where d: "d \<le> 9" "c = digit_char d" by (auto dest: digit_char_of)
  with assms have "atoi (c # rest) = int d" by (auto intro: atoi_digit)
  moreover have "c = digit_char (Suc m) \<longleftrightarrow> d = Suc m"
    using d assms(2) digit_char_inject [of d "Suc m"] by simp
  ultimately show ?thesis by auto
next
  case False
  from atoi_no_digit [OF this assms(1)] have "atoi (c # rest) = 0" .
  moreover have "c \<noteq> digit_char (Suc m)"
    using False assms(2) of_digit_char [of "Suc m"] by (auto simp: isdigit_def)
  ultimately show ?thesis by auto
qed


lemma digits_val_nonneg: "0 \<le> acc \<Longrightarrow> 0 \<le> digits_val acc s"
  by (induction acc s rule: digits_val.induct) (auto simp: isdigit_def of_char_int)

lemma parse_range:
  assumes "rest = [] \<or> \<not> isdigit (hd rest) \<and> \<not> isspace (hd rest)
      \<and> hd rest \<noteq> CHR ''-'' \<and> hd rest \<noteq> CHR ''+''"
  shows "0 \<le> atoi (c # rest) - 1 \<and> atoi (c # rest) - 1 \<le> 8 \<longleftrightarrow> (\<exists>m < 9. c = digit_char (Suc m))"
proof
  assume "0 \<le> atoi (c # rest) - 1 \<and> atoi (c # rest) - 1 \<le> 8"
  then have "atoi (c # rest) - 1 = int (nat (atoi (c # rest) - 1))" "nat (atoi (c # rest) - 1) < 9"
    by auto
  with atoi_cell_iff [OF assms] show "\<exists>m < 9. c = digit_char (Suc m)" by blast
next
  assume "\<exists>m < 9. c = digit_char (Suc m)"
  then obtain m where "m < 9" "atoi (c # rest) - 1 = int m"
    using atoi_cell_iff [OF assms] by blast
  then show "0 \<le> atoi (c # rest) - 1 \<and> atoi (c # rest) - 1 \<le> 8" by simp
qed

text \<open>The two forms of a move that the parser takes.\<close>

definition move_text :: "GAME \<Rightarrow> nat \<Rightarrow> string \<Rightarrow> bool" where
  "move_text g m str \<longleftrightarrow> str = [digit_char (Suc m)]
     \<or> (\<exists>p. str = [digit_char (Suc m), CHR ''<'', CHR ''-'', p]
          \<and> (p = CHR ''X'' \<longrightarrow> current_player g = FIRST_PLAYER_ROLE)
          \<and> (p = CHR ''O'' \<longrightarrow> current_player g = SECOND_PLAYER_ROLE))"

lemma tail_not_numeric:
  "rest = [CHR ''<'', CHR ''-'', p] \<Longrightarrow> rest = [] \<or> \<not> isdigit (hd rest) \<and> \<not> isspace (hd rest)
      \<and> hd rest \<noteq> CHR ''-'' \<and> hd rest \<noteq> CHR ''+''"
  by (simp add: isdigit_def isspace_def)

lemma length4:
  assumes "length str = 4"
  obtains a b c d where "str = [a, b, c, d]"
  using assms by (auto simp: eval_nat_numeral length_Suc_conv)

text \<open>
  C32: exactly which texts are moves: a digit from 1 to 9, alone or followed by \<open><-\<close> and one more
  character; when that character is X or O it must be the player on turn. The cell is the digit
  minus one, always on the board, and the role is the one passed in.
\<close>

theorem game_parse_move_correct:
  assumes "no_oom s"
  shows "\<exists>s'. game_parse_move g r str s =
    (if \<exists>m < 9. move_text g m str
     then Some \<lparr>move = atoi str - 1, role = r\<rparr> else None, s')
    \<and> (\<forall>m < 9. move_text g m str \<longrightarrow> atoi str - 1 = int m)"
proof -
  consider (one) c where "str = [c]" | (four) a b c d where "str = [a, b, c, d]"
    | (oth) "length str \<noteq> 1" "length str \<noteq> 4"
    using length4 by (metis One_nat_def length_0_conv length_Suc_conv)
  then show ?thesis
  proof cases
    case one
    have "atoi [c] - 1 = int m" if "m < 9" "move_text g m [c]" for m
      using that atoi_cell_iff [of "[]" m c] by (simp add: move_text_def)
    with one assms parse_range [of "[]" c] show ?thesis
      by (auto simp: game_parse_move_def move_text_def)
  next
    case four
    have 1: "atoi str - 1 = int m" if "m < 9" "move_text g m str" for m
      using that four atoi_cell_iff [OF tail_not_numeric [OF refl], of m a d]
      by (auto simp: move_text_def)
    show ?thesis
    proof (cases "b = CHR ''<'' \<and> c = CHR ''-''")
      case True
      with parse_range [OF tail_not_numeric [OF refl], of a d] four assms 1 show ?thesis
        by (auto simp: game_parse_move_def move_text_def numeral_eq_Suc)
    next
      case False
      with four assms show ?thesis
        by (auto simp: game_parse_move_def move_text_def numeral_eq_Suc)
    qed
  next
    case oth
    with assms show ?thesis by (auto simp: game_parse_move_def move_text_def)
  qed
qed


theorem game_parse_move_correct_witness:
  "no_oom calm_sys
   \<and> (\<exists>s'. game_parse_move won_game SECOND_PLAYER_ROLE ''6<-O'' calm_sys
        = (Some \<lparr>move = 5, role = SECOND_PLAYER_ROLE\<rparr>, s'))
   \<and> (\<exists>s'. game_parse_move won_game SECOND_PLAYER_ROLE ''6<-X'' calm_sys = (None, s'))"
proof -
  have six: "digit_char 6 = CHR ''6''" by code_simp
  have o: "move_text won_game 5 ''6<-O''" by (simp add: move_text_def six won_game_def)
  have x: "\<not> move_text won_game m ''6<-X''" for m by (simp add: move_text_def won_game_def)
  have "\<exists>m < 9. move_text won_game m ''6<-O''" using o by (intro exI [of _ 5]) simp
  moreover have "atoi ''6<-O'' = 6" by code_simp
  ultimately show ?thesis
    using game_parse_move_correct [of calm_sys won_game SECOND_PLAYER_ROLE "''6<-O''"]
      game_parse_move_correct [of calm_sys won_game SECOND_PLAYER_ROLE "''6<-X''"] x
    by auto
qed

text \<open>
  The text printed for a move parses back to that move, in every state of the game.
\<close>

theorem game_move_roundtrip:
  assumes "0 \<le> move mv" and "move mv < 9" and "no_oom s" and "no_oom s2"
  shows "\<exists>str s' s2'. game_unparse_move mv s = (Some str, s')
    \<and> game_parse_move g (role mv) str s2 = (Some mv, s2')"
proof -
  define m where "m = nat (move mv)"
  with assms have m: "m < 9" "move mv = int m" by auto
  have dc: "char_of (int m + 1 + of_char (CHR ''0'')) = digit_char (Suc m)"
    using char_of_int_nat [of "49 + m"] by (simp add: digit_char_def)
  have "(of_char (digit_char (Suc m)) :: nat) \<noteq> of_char NUL"
    using m(1) of_digit_char [of "Suc m"] by (simp add: NUL_def)
  then have nn: "digit_char (Suc m) \<noteq> NUL" by metis
  have u: "game_unparse_move mv s = (Some [digit_char (Suc m)], s\<lparr>res_n := Suc (res_n s)\<rparr>)"
    using assms(3) m dc nn by (simp add: game_unparse_move_def cstr_def)
  have "atoi [digit_char (Suc m)] - 1 = int m"
    using m(1) atoi_cell_iff [of "[]" m "digit_char (Suc m)"] by simp
  then have "game_parse_move g (role mv) [digit_char (Suc m)] s2 = (Some mv, s2\<lparr>res_n := Suc (res_n s2)\<rparr>)"
    using assms(4) m by (simp add: game_parse_move_def)
  with u show ?thesis by blast
qed

theorem game_move_roundtrip_witness:
  "no_oom calm_sys \<and> (\<exists>str s' s2'. game_unparse_move \<lparr>move = 8, role = FIRST_PLAYER_ROLE\<rparr> calm_sys = (Some str, s')
    \<and> game_parse_move won_game FIRST_PLAYER_ROLE str calm_sys
        = (Some \<lparr>move = 8, role = FIRST_PLAYER_ROLE\<rparr>, s2'))"
  using game_move_roundtrip [of "\<lparr>move = 8, role = FIRST_PLAYER_ROLE\<rparr>" calm_sys calm_sys won_game] by simp

text \<open>
  A game with \<open>n\<close> references survives the first \<open>n - 1\<close> calls that drop one, with its board,
  turn and result unchanged, and is freed by the last call, not before.
\<close>

theorem game_freed_by_last_unref:
  assumes "\<not> g_mutex g" and "g_ref_count g = int (Suc n)"
  shows "unref_times game_unref (Suc n) g = Inr None
    \<and> (\<forall>k \<le> n. \<exists>g'. unref_times game_unref k g = Inr (Some g') \<and> game_body g' = game_body g)"
  using game_rc.freed_by_last [OF assms] game_rc.alive_before_last [OF assms(1)] assms(2) by force

theorem game_freed_by_last_unref_witness:
  "unref_times game_unref 3 (won_game\<lparr>g_ref_count := 3\<rparr>) = Inr None
   \<and> (\<exists>g'. unref_times game_unref 2 (won_game\<lparr>g_ref_count := 3\<rparr>) = Inr (Some g')
        \<and> game_body g' = game_body won_game)"
proof -
  have "\<not> g_mutex (won_game\<lparr>g_ref_count := 3\<rparr>)" "g_ref_count (won_game\<lparr>g_ref_count := 3\<rparr>) = int (Suc 2)"
    by (simp_all add: won_game_def)
  from game_freed_by_last_unref [OF this] have
    "unref_times game_unref (Suc 2) (won_game\<lparr>g_ref_count := 3\<rparr>) = Inr None"
    "\<exists>g'. unref_times game_unref 2 (won_game\<lparr>g_ref_count := 3\<rparr>) = Inr (Some g')
        \<and> game_body g' = game_body (won_game\<lparr>g_ref_count := 3\<rparr>)"
    by blast+
  then show ?thesis by (simp add: game_body_def del: unref_times.simps flip: numeral_3_eq_3)
qed

end
