(* ===== verification/Player.thy ===== *)
theory Player
  imports Complex_Main Runtime
begin

text \<open>
  The player component (\<^verbatim>\<open>src/player.c\<close>, \<^verbatim>\<open>include/player.h\<close>): a user name, a rating and a reference
  count. Every function of the file is a definition here. The rating update is done in \<open>double\<close>
  arithmetic; a double is modelled as a real number, with the rounding of each operation and the
  library function \<open>pow\<close> as parameters, about which only documented facts are assumed.
\<close>

section \<open>Data and reference counting\<close>

definition PLAYER_INITIAL_RATING :: int where
  "PLAYER_INITIAL_RATING = 1500"

record PLAYER =
  p_name :: "string option"    \<comment> \<open>\<open>char *name\<close>: NULL when the copy could not be allocated\<close>
  p_ref_count :: int
  rating :: int
  p_mutex :: mutex

definition player_ref :: "PLAYER \<Rightarrow> PLAYER result" where
  "player_ref player =
     and_then (pthread_mutex_lock (p_mutex player)) (\<lambda>m.
     Inr (player\<lparr>p_ref_count := p_ref_count player + 1, p_mutex := pthread_mutex_unlock m\<rparr>))"

text \<open>The results of \<open>pthread_mutex_init\<close> and \<open>strdup\<close> are not checked.\<close>

definition player_create :: "string \<Rightarrow> sys \<Rightarrow> (PLAYER option \<times> sys) result" where
  "player_create name s =
     (let (ok, s) = calloc s in
      if \<not> ok then Inr (None, s)
      else
        let (_, s) = pthread_mutex_init s; (dup, s) = request s in
        and_then (player_ref \<lparr>p_name = (if dup then Some name else None), p_ref_count = 0,
                    rating = PLAYER_INITIAL_RATING, p_mutex = False\<rparr>)
          (\<lambda>player. Inr (Some player, s)))"

definition player_unref :: "PLAYER \<Rightarrow> PLAYER option result" where
  "player_unref player =
     and_then (pthread_mutex_lock (p_mutex player)) (\<lambda>m.
     let player = player\<lparr>p_mutex := m, p_ref_count := p_ref_count player - 1\<rparr> in
     if p_ref_count player = 0 then Inr None
     else Inr (Some (player\<lparr>p_mutex := pthread_mutex_unlock m\<rparr>)))"

definition player_get_name :: "PLAYER \<Rightarrow> string option" where
  "player_get_name player = p_name player"

definition player_get_rating :: "PLAYER \<Rightarrow> int" where
  "player_get_rating player = rating player"

text \<open>\<open>strcmp(a, b) == 0\<close>, which reads through both pointers.\<close>

definition strcmp_eq :: "string option \<Rightarrow> string option \<Rightarrow> bool result" where
  "strcmp_eq a b = (case (a, b) of (Some x, Some y) \<Rightarrow> Inr (x = y) | _ \<Rightarrow> Inl NullDeref)"

lemma strcmp_eq_Some [simp]: "strcmp_eq (Some x) (Some y) = Inr (x = y)"
  by (simp add: strcmp_eq_def)

lemma player_ref_unlocked [simp]:
  "\<not> p_mutex p \<Longrightarrow> player_ref p = Inr (p\<lparr>p_ref_count := p_ref_count p + 1\<rparr>)"
  by (cases p) (simp add: player_ref_def)

lemma player_unref_unlocked [simp]:
  "\<not> p_mutex p \<Longrightarrow> player_unref p =
     Inr (if p_ref_count p = 1 then None else Some (p\<lparr>p_ref_count := p_ref_count p - 1\<rparr>))"
  by (cases p) (simp add: player_unref_def)

definition player_body :: "PLAYER \<Rightarrow> string option \<times> int" where
  "player_body p = (p_name p, rating p)"

interpretation player_rc: refcounted p_ref_count "\<lambda>p. \<not> p_mutex p" player_body player_ref player_unref
  by unfold_locales (simp_all add: player_body_def)

section \<open>Posting a result\<close>

text \<open>
  \<open>rnd\<close> rounds an exact result to a double, \<open>pow10 y\<close> is \<open>pow(10.0, y)\<close>.
\<close>

record fp =
  rnd :: "real \<Rightarrow> real"
  pow10 :: "real \<Rightarrow> real"

text \<open>
  Conversion of a double to \<open>int\<close> drops the fraction. Out of the range of \<open>int\<close> the value is not defined
  in C; that of the conversion instruction is the smallest \<open>int\<close>.
\<close>

definition trunc :: "real \<Rightarrow> int" where
  "trunc x = (if 0 \<le> x then \<lfloor>x\<rfloor> else \<lceil>x\<rceil>)"

definition double_to_int :: "real \<Rightarrow> int" where
  "double_to_int x = (let n = trunc x in if - (2 ^ 31) \<le> n \<and> n < 2 ^ 31 then n else - (2 ^ 31))"

lemma double_to_int_range [simp]: "- (2 ^ 31) \<le> trunc x \<Longrightarrow> trunc x < 2 ^ 31 \<Longrightarrow> double_to_int x = trunc x"
  by (simp add: double_to_int_def)

definition score1 :: "int \<Rightarrow> real" where
  "score1 result = (if result = 0 then 1 / 2 else if result = 1 then 1 else 0)"

text \<open>\<open>E1\<close> and \<open>RP1\<close> of the code, from the two ratings.\<close>

definition expected1 :: "fp \<Rightarrow> int \<Rightarrow> int \<Rightarrow> real" where
  "expected1 F r1 r2 =
     rnd F (1 / rnd F (1 + pow10 F (rnd F (of_int (to_int32 (r2 - r1)) / 400))))"

definition new_rating1 :: "fp \<Rightarrow> int \<Rightarrow> int \<Rightarrow> int \<Rightarrow> real" where
  "new_rating1 F r1 r2 result =
     rnd F (of_int r1 + rnd F (32 * rnd F (score1 result - expected1 F r1 r2)))"

definition player_post_result ::
  "fp \<Rightarrow> PLAYER heap \<Rightarrow> ptr \<Rightarrow> ptr \<Rightarrow> int \<Rightarrow> PLAYER heap result" where
  "player_post_result F h player1 player2 result =
     (case (player1, player2) of
        (Some a1, Some a2) \<Rightarrow>
          if a1 = a2 then Inr h
          else if result < 0 \<or> result > 2 then Inr h
          else
            and_then (load h a1) (\<lambda>p1.
            and_then (pthread_mutex_lock (p_mutex p1)) (\<lambda>m1.
            and_then (load h a2) (\<lambda>p2.
            and_then (pthread_mutex_lock (p_mutex p2)) (\<lambda>m2.
            let R3 = to_int32 (rating p1 + rating p2);
                RP1 = new_rating1 F (rating p1) (rating p2) result in
            Inr (h(a1 \<mapsto> p1\<lparr>rating := double_to_int RP1, p_mutex := pthread_mutex_unlock m1\<rparr>,
                   a2 \<mapsto> p2\<lparr>rating := double_to_int (rnd F (of_int R3 - RP1)),
                            p_mutex := pthread_mutex_unlock m2\<rparr>))))))
      | _ \<Rightarrow> Inr h)"

text \<open>
  What IEEE 754 and the C library promise of the operations used: rounding is monotone and leaves
  the small integers and halves alone, and a power of ten is not negative.
\<close>

definition ieee_ops :: "fp \<Rightarrow> bool" where
  "ieee_ops F \<longleftrightarrow> mono (rnd F) \<and> (\<forall>n::int. \<bar>n\<bar> \<le> 2 ^ 52 \<longrightarrow> rnd F (of_int n / 2) = of_int n / 2)
     \<and> (\<forall>y. 0 \<le> pow10 F y)"

lemma rnd_between:
  assumes "ieee_ops F" and "\<bar>a\<bar> \<le> 2 ^ 52" and "\<bar>b\<bar> \<le> 2 ^ 52"
    and "of_int a / 2 \<le> x" and "x \<le> of_int b / 2"
  shows "of_int a / 2 \<le> rnd F x \<and> rnd F x \<le> of_int b / 2"
proof -
  have "rnd F (of_int a / 2) = of_int a / 2" "rnd F (of_int b / 2) = of_int b / 2"
    using assms(1-3) by (auto simp: ieee_ops_def)
  moreover have "rnd F (of_int a / 2) \<le> rnd F x" "rnd F x \<le> rnd F (of_int b / 2)"
    using assms(1,4,5) by (auto simp: ieee_ops_def intro: monoD)
  ultimately show ?thesis by simp
qed

lemma rnd_between_int:
  assumes "ieee_ops F" and "\<bar>a\<bar> \<le> 2 ^ 51" and "\<bar>b\<bar> \<le> 2 ^ 51" and "of_int a \<le> x" and "x \<le> of_int b"
  shows "of_int a \<le> rnd F x \<and> rnd F x \<le> of_int b"
  using rnd_between [of F "2 * a" "2 * b" x] assms by simp

lemma expected1_bounds:
  assumes "ieee_ops F"
  shows "0 \<le> expected1 F r1 r2 \<and> expected1 F r1 r2 \<le> 1"
proof -
  define q where "q = rnd F (1 + pow10 F (rnd F (of_int (to_int32 (r2 - r1)) / 400)))"
  have "mono (rnd F)" "0 \<le> pow10 F (rnd F (of_int (to_int32 (r2 - r1)) / 400))"
    using assms by (auto simp: ieee_ops_def)
  then have "rnd F 1 \<le> q" by (auto simp: q_def intro: monoD)
  moreover have "rnd F 1 = 1" using rnd_between_int [OF assms, of 1 1 1] by simp
  ultimately have "1 \<le> q" by simp
  then have "of_int 0 \<le> 1 / q \<and> 1 / q \<le> of_int 1" by simp
  then show ?thesis
    using rnd_between_int [OF assms, of 0 1 "1 / q"] by (simp add: expected1_def q_def)
qed

text \<open>Half points of the first player: two for a win, one for a draw.\<close>

definition half_points :: "int \<Rightarrow> int" where
  "half_points result = (if result = 0 then 1 else if result = 1 then 2 else 0)"

lemma score1_half_points: "score1 result = of_int (half_points result) / 2"
  by (simp add: score1_def half_points_def)

lemma new_rating1_bounds:
  assumes F: "ieee_ops F" and r: "\<bar>r1\<bar> \<le> 2 ^ 32"
  shows "of_int (r1 + 16 * (half_points result - 2)) \<le> new_rating1 F r1 r2 result
    \<and> new_rating1 F r1 r2 result \<le> of_int (r1 + 16 * half_points result)"
proof -
  define k where "k = half_points result"
  have k: "0 \<le> k" "k \<le> 2" by (simp_all add: k_def half_points_def)
  define t where "t = rnd F (score1 result - expected1 F r1 r2)"
  have "of_int (k - 2) / 2 \<le> t \<and> t \<le> of_int k / 2"
    unfolding t_def by (rule rnd_between [OF F])
      (use k expected1_bounds [OF F, of r1 r2] in \<open>auto simp: score1_half_points k_def [symmetric]\<close>)
  then have "of_int (16 * (k - 2)) \<le> 32 * t" "32 * t \<le> of_int (16 * k)" by simp_all
  then have u: "of_int (16 * (k - 2)) \<le> rnd F (32 * t) \<and> rnd F (32 * t) \<le> of_int (16 * k)"
    by (intro rnd_between_int [OF F]) (use k in auto)
  show ?thesis
    unfolding new_rating1_def t_def [symmetric] k_def [symmetric]
    by (rule rnd_between_int [OF F]) (use k r u in auto)
qed

lemma trunc_mono:
  assumes "x \<le> y"
  shows "trunc x \<le> trunc y"
proof -
  consider "0 \<le> x" | "y < 0" | "x < 0" "0 \<le> y" by linarith
  then show ?thesis
  proof cases
    case 3
    then have "\<lceil>x\<rceil> \<le> 0" and "0 \<le> \<lfloor>y\<rfloor>" by (simp_all add: ceiling_le_zero)
    then have "\<lceil>x\<rceil> \<le> \<lfloor>y\<rfloor>" by (rule order_trans)
    with 3 show ?thesis by (simp add: trunc_def)
  qed (use assms in \<open>simp_all add: trunc_def floor_mono ceiling_mono\<close>)
qed

lemma trunc_of_int [simp]: "trunc (of_int n) = n"
  by (simp add: trunc_def)

lemma trunc_between: "of_int a \<le> x \<Longrightarrow> x \<le> of_int b \<Longrightarrow> a \<le> trunc x \<and> trunc x \<le> b"
  using trunc_mono [of "of_int a" x] trunc_mono [of x "of_int b"] by simp

text \<open>What is stored when nothing overflows.\<close>

lemma post_result_eq:
  assumes "h a1 = Some p1" "h a2 = Some p2" "a1 \<noteq> a2" "\<not> p_mutex p1" "\<not> p_mutex p2" "0 \<le> result" "result \<le> 2"
    and "- (2 ^ 31) \<le> rating p1 + rating p2" "rating p1 + rating p2 < 2 ^ 31"
    and "- (2 ^ 31) \<le> trunc (new_rating1 F (rating p1) (rating p2) result)"
    and "trunc (new_rating1 F (rating p1) (rating p2) result) < 2 ^ 31"
    and "- (2 ^ 31) \<le> trunc (rnd F (of_int (rating p1 + rating p2) - new_rating1 F (rating p1) (rating p2) result))"
    and "trunc (rnd F (of_int (rating p1 + rating p2) - new_rating1 F (rating p1) (rating p2) result)) < 2 ^ 31"
  shows "player_post_result F h (Some a1) (Some a2) result
    = Inr (h(a1 \<mapsto> p1\<lparr>rating := trunc (new_rating1 F (rating p1) (rating p2) result)\<rparr>,
             a2 \<mapsto> p2\<lparr>rating := trunc (rnd F (of_int (rating p1 + rating p2) - new_rating1 F (rating p1) (rating p2) result))\<rparr>))"
  using assms(1-7) to_int32_id [OF assms(8,9)] double_to_int_range [OF assms(10,11)] double_to_int_range [OF assms(12,13)]
  by (cases p1; cases p2) (simp add: player_post_result_def Let_def)

text \<open>
  C27: posting a result moves the ratings the right way and by at most 32 points, if the ratings are
  small enough that neither their sum and difference nor the new ratings overflow an \<open>int\<close>. A winner never
  loses points and a loser never gains any; a draw moves each player by at most 16 points. The
  result is posted to the two players only, and nothing but their ratings changes.
\<close>

theorem player_post_result_bounds:
  assumes "ieee_ops F" and "h a1 = Some p1" and "h a2 = Some p2" and "a1 \<noteq> a2"
    and "\<not> p_mutex p1" and "\<not> p_mutex p2" and "\<bar>rating p1\<bar> + \<bar>rating p2\<bar> + 32 < 2 ^ 31"
    and "0 \<le> result" and "result \<le> 2"
  shows "\<exists>n1 n2. player_post_result F h (Some a1) (Some a2) result
           = Inr (h(a1 \<mapsto> p1\<lparr>rating := n1\<rparr>, a2 \<mapsto> p2\<lparr>rating := n2\<rparr>))
    \<and> rating p1 + 16 * (half_points result - 2) \<le> n1 \<and> n1 \<le> rating p1 + 16 * half_points result
    \<and> rating p2 - 16 * half_points result \<le> n2 \<and> n2 \<le> rating p2 + 16 * (2 - half_points result)"
proof -
  let ?k = "half_points result" and ?x = "new_rating1 F (rating p1) (rating p2) result"
  have k: "0 \<le> ?k" "?k \<le> 2" by (simp_all add: half_points_def)
  have x: "of_int (rating p1 + 16 * (?k - 2)) \<le> ?x \<and> ?x \<le> of_int (rating p1 + 16 * ?k)"
    by (rule new_rating1_bounds [OF assms(1)]) (use assms(7) in auto)
  let ?y = "rnd F (of_int (rating p1 + rating p2) - ?x)"
  have y: "of_int (rating p2 - 16 * ?k) \<le> ?y \<and> ?y \<le> of_int (rating p2 + 16 * (2 - ?k))"
    by (rule rnd_between_int [OF assms(1)]) (use x k assms(7) in auto)
  have tx: "rating p1 + 16 * (?k - 2) \<le> trunc ?x" "trunc ?x \<le> rating p1 + 16 * ?k" using trunc_between x by blast+
  have ty: "rating p2 - 16 * ?k \<le> trunc ?y" "trunc ?y \<le> rating p2 + 16 * (2 - ?k)" using trunc_between y by blast+
  have "player_post_result F h (Some a1) (Some a2) result
      = Inr (h(a1 \<mapsto> p1\<lparr>rating := trunc ?x\<rparr>, a2 \<mapsto> p2\<lparr>rating := trunc ?y\<rparr>))"
    by (rule post_result_eq) (use assms k tx ty in auto)
  with tx ty show ?thesis by blast
qed

text \<open>Exact real arithmetic satisfies what is assumed of doubles.\<close>

definition exact_fp :: fp where
  "exact_fp = \<lparr>rnd = (\<lambda>x. x), pow10 = (\<lambda>y. 10 powr y)\<rparr>"

lemma exact_fp_ieee: "ieee_ops exact_fp"
  by (simp add: ieee_ops_def exact_fp_def mono_def)

definition new_player :: "string \<Rightarrow> PLAYER" where
  "new_player n = \<lparr>p_name = Some n, p_ref_count = 1, rating = PLAYER_INITIAL_RATING, p_mutex = False\<rparr>"

theorem player_post_result_bounds_witness:
  "\<exists>n1 n2. player_post_result exact_fp [0 \<mapsto> new_player ''a'', 1 \<mapsto> new_player ''b''] (Some 0) (Some 1) 1
     = Inr ([0 \<mapsto> new_player ''a'', 1 \<mapsto> new_player ''b'', 0 \<mapsto> (new_player ''a'')\<lparr>rating := n1\<rparr>,
            1 \<mapsto> (new_player ''b'')\<lparr>rating := n2\<rparr>])
     \<and> 1500 \<le> n1 \<and> n1 \<le> 1532 \<and> 1468 \<le> n2 \<and> n2 \<le> 1500"
  using player_post_result_bounds [OF exact_fp_ieee, of "[0 \<mapsto> new_player ''a'', 1 \<mapsto> new_player ''b'']"
      0 "new_player ''a''" 1 "new_player ''b''" 1]
  by (simp add: new_player_def PLAYER_INITIAL_RATING_def half_points_def)

text \<open>
  C34: the sum of the two ratings never grows, and drops by at most one point per game: the code
  computes the second rating from the sum and truncates both. (The ratings are at least 32, so that
  no rating becomes negative.)
\<close>

theorem player_post_result_sum:
  assumes "ieee_ops F" and "h a1 = Some p1" and "h a2 = Some p2" and "a1 \<noteq> a2"
    and "\<not> p_mutex p1" and "\<not> p_mutex p2"
    and "32 \<le> rating p1" and "32 \<le> rating p2" and "rating p1 + rating p2 < 2 ^ 31"
    and "0 \<le> result" and "result \<le> 2"
  shows "\<exists>h' q1 q2. player_post_result F h (Some a1) (Some a2) result = Inr h'
    \<and> h' a1 = Some q1 \<and> h' a2 = Some q2
    \<and> rating p1 + rating p2 - 1 \<le> rating q1 + rating q2
    \<and> rating q1 + rating q2 \<le> rating p1 + rating p2"
proof -
  let ?N = "rating p1 + rating p2"
  let ?x = "new_rating1 F (rating p1) (rating p2) result"
  have x: "of_int (rating p1 + 16 * (half_points result - 2)) \<le> ?x
      \<and> ?x \<le> of_int (rating p1 + 16 * half_points result)"
    by (rule new_rating1_bounds [OF assms(1)]) (use assms(7-9) in auto)
  have hp: "0 \<le> half_points result" "half_points result \<le> 2" by (simp_all add: half_points_def)
  have "(0::real) \<le> of_int (rating p1 + 16 * (half_points result - 2))" using hp assms(7) by simp
  with x have x0: "0 \<le> ?x" by linarith
  have "of_int (rating p1 + 16 * half_points result) \<le> (of_int ?N :: real)" using hp assms(8) by simp
  with x have xN: "?x \<le> of_int ?N" by linarith
  define k where "k = \<lfloor>?x\<rfloor>"
  have k: "of_int k \<le> ?x" "?x \<le> of_int (k + 1)" by (simp_all add: k_def)
  have k0: "0 \<le> k" using x0 by (simp add: k_def)
  have kN: "k \<le> ?N" using xN k(1) by linarith
  let ?y = "rnd F (of_int ?N - ?x)"
  have "of_int (?N - k - 1) \<le> ?y \<and> ?y \<le> of_int (?N - k)"
    by (rule rnd_between_int [OF assms(1)]) (use k k0 kN assms(9) in auto)
  then have ty: "?N - k - 1 \<le> trunc ?y" "trunc ?y \<le> ?N - k"
    using trunc_between by blast+
  have tx: "trunc ?x = k" using x0 by (simp add: trunc_def k_def)
  have "player_post_result F h (Some a1) (Some a2) result
      = Inr (h(a1 \<mapsto> p1\<lparr>rating := trunc ?x\<rparr>, a2 \<mapsto> p2\<lparr>rating := trunc ?y\<rparr>))"
    by (rule post_result_eq) (use assms k0 kN tx ty in auto)
  with ty tx assms(4) show ?thesis by simp
qed

theorem player_post_result_sum_witness:
  "\<exists>h' q1 q2. player_post_result exact_fp [0 \<mapsto> new_player ''a'', 1 \<mapsto> new_player ''b''] (Some 0) (Some 1) 0
       = Inr h' \<and> h' 0 = Some q1 \<and> h' 1 = Some q2
     \<and> 2999 \<le> rating q1 + rating q2 \<and> rating q1 + rating q2 \<le> 3000"
  using player_post_result_sum [OF exact_fp_ieee, of "[0 \<mapsto> new_player ''a'', 1 \<mapsto> new_player ''b'']"
      0 "new_player ''a''" 1 "new_player ''b''" 0]
  by (simp add: new_player_def PLAYER_INITIAL_RATING_def)

end
