(* ===== verification/Protocol.thy ===== *)
theory Protocol
  imports Runtime
begin

text \<open>
  The packet layer (\<^verbatim>\<open>src/protocol.c\<close>, \<^verbatim>\<open>include/protocol.h\<close>) and the header constructor
  (\<^verbatim>\<open>src/includeme.c\<close>): packet types, the 16 byte header as it lies in memory and on the wire,
  sending and receiving in chunks. The host is little-endian, as the platform of the server is;
  \<open>htons\<close> and \<open>htonl\<close> swap bytes.
\<close>

unbundle bit_operations_syntax

section \<open>Packets\<close>

datatype JEUX_PACKET_TYPE =
    JEUX_NO_PKT
  | JEUX_LOGIN_PKT | JEUX_USERS_PKT | JEUX_INVITE_PKT | JEUX_REVOKE_PKT | JEUX_ACCEPT_PKT
  | JEUX_DECLINE_PKT | JEUX_MOVE_PKT | JEUX_RESIGN_PKT
  | JEUX_ACK_PKT | JEUX_NACK_PKT
  | JEUX_INVITED_PKT | JEUX_REVOKED_PKT | JEUX_ACCEPTED_PKT | JEUX_DECLINED_PKT | JEUX_MOVED_PKT
  | JEUX_RESIGNED_PKT | JEUX_ENDED_PKT

fun pkt_val :: "JEUX_PACKET_TYPE \<Rightarrow> int" where
  "pkt_val JEUX_NO_PKT = 0"
| "pkt_val JEUX_LOGIN_PKT = 1"
| "pkt_val JEUX_USERS_PKT = 2"
| "pkt_val JEUX_INVITE_PKT = 3"
| "pkt_val JEUX_REVOKE_PKT = 4"
| "pkt_val JEUX_ACCEPT_PKT = 5"
| "pkt_val JEUX_DECLINE_PKT = 6"
| "pkt_val JEUX_MOVE_PKT = 7"
| "pkt_val JEUX_RESIGN_PKT = 8"
| "pkt_val JEUX_ACK_PKT = 9"
| "pkt_val JEUX_NACK_PKT = 10"
| "pkt_val JEUX_INVITED_PKT = 11"
| "pkt_val JEUX_REVOKED_PKT = 12"
| "pkt_val JEUX_ACCEPTED_PKT = 13"
| "pkt_val JEUX_DECLINED_PKT = 14"
| "pkt_val JEUX_MOVED_PKT = 15"
| "pkt_val JEUX_RESIGNED_PKT = 16"
| "pkt_val JEUX_ENDED_PKT = 17"

text \<open>The multi-byte fields hold values in network byte order.\<close>

record JEUX_PACKET_HEADER =
  h_type :: "8 word"
  h_id :: "8 word"
  h_role :: "8 word"
  h_size :: "16 word"
  h_timestamp_sec :: "32 word"
  h_timestamp_nsec :: "32 word"

definition zero_header :: JEUX_PACKET_HEADER where
  "zero_header = \<lparr>h_type = 0, h_id = 0, h_role = 0, h_size = 0, h_timestamp_sec = 0, h_timestamp_nsec = 0\<rparr>"

section \<open>Byte order and memory layout\<close>

definition mk16 :: "byte \<Rightarrow> byte \<Rightarrow> 16 word" where
  "mk16 a b = ucast a OR push_bit 8 (ucast b)"

definition mk32 :: "byte \<Rightarrow> byte \<Rightarrow> byte \<Rightarrow> byte \<Rightarrow> 32 word" where
  "mk32 a b c d = ucast a OR push_bit 8 (ucast b) OR push_bit 16 (ucast c) OR push_bit 24 (ucast d)"

definition le16 :: "16 word \<Rightarrow> byte list" where
  "le16 x = [ucast x, ucast (drop_bit 8 x)]"

definition le32 :: "32 word \<Rightarrow> byte list" where
  "le32 x = [ucast x, ucast (drop_bit 8 x), ucast (drop_bit 16 x), ucast (drop_bit 24 x)]"

definition htons :: "16 word \<Rightarrow> 16 word" where
  "htons x = mk16 (ucast (drop_bit 8 x)) (ucast x)"

definition ntohs :: "16 word \<Rightarrow> 16 word" where
  "ntohs = htons"

definition htonl :: "32 word \<Rightarrow> 32 word" where
  "htonl x = mk32 (ucast (drop_bit 24 x)) (ucast (drop_bit 16 x)) (ucast (drop_bit 8 x)) (ucast x)"

text \<open>
  The structure in memory: three bytes, one byte of padding, the size, two bytes of padding, the
  two timestamps. Padding is zero, since every header is allocated zeroed.
\<close>

definition HEADER_SIZE :: nat where "HEADER_SIZE = 16"

definition header_bytes :: "JEUX_PACKET_HEADER \<Rightarrow> byte list" where
  "header_bytes h = [h_type h, h_id h, h_role h, 0] @ le16 (h_size h) @ [0, 0]
     @ le32 (h_timestamp_sec h) @ le32 (h_timestamp_nsec h)"

definition header_of :: "byte list \<Rightarrow> JEUX_PACKET_HEADER" where
  "header_of bs = \<lparr>h_type = bs ! 0, h_id = bs ! 1, h_role = bs ! 2, h_size = mk16 (bs ! 4) (bs ! 5),
     h_timestamp_sec = mk32 (bs ! 8) (bs ! 9) (bs ! 10) (bs ! 11),
     h_timestamp_nsec = mk32 (bs ! 12) (bs ! 13) (bs ! 14) (bs ! 15)\<rparr>"

definition payload_size :: "JEUX_PACKET_HEADER \<Rightarrow> nat" where
  "payload_size h = unat (ntohs (h_size h))"

text \<open>
  The arguments are \<open>int\<close>s, cut to the width of the field they go to. The allocation is not checked.
\<close>

definition create_header ::
  "int \<Rightarrow> int \<Rightarrow> int \<Rightarrow> int \<Rightarrow> sys \<Rightarrow> (JEUX_PACKET_HEADER \<times> sys) result" where
  "create_header type i role sz s =
     (let (ok, s) = calloc s in
      and_then (assert_c ok NullDeref) (\<lambda>_.
      let ((sec, nsec), s) = clock_gettime s in
      Inr (\<lparr>h_type = word_of_int type, h_id = word_of_int i, h_role = word_of_int role,
            h_size = htons (word_of_int sz),
            h_timestamp_sec = htonl (word_of_int sec), h_timestamp_nsec = htonl (word_of_int nsec)\<rparr>, s)))"

section \<open>Sending and receiving\<close>

text \<open>The loop that writes a buffer: 0 when everything was written, -1 when a write took nothing.\<close>

function send_all :: "int \<Rightarrow> byte list \<Rightarrow> sys \<Rightarrow> int \<times> sys" where
  "send_all fd bs s =
     (if bs = [] then (0, s)
      else let (k, s') = write_fd fd bs s in
        if k \<le> 0 then (-1, s') else send_all fd (drop (nat k) bs) s')"
  by pat_completeness auto
termination
  by (relation "measure (\<lambda>(fd, bs, s). length bs)") auto

declare send_all.simps [simp del]

definition proto_send_packet ::
  "int \<Rightarrow> JEUX_PACKET_HEADER \<Rightarrow> byte list option \<Rightarrow> sys \<Rightarrow> (int \<times> sys) result" where
  "proto_send_packet fd hdr data s =
     (let (r, s) = send_all fd (header_bytes hdr) s in
      if r = -1 then Inr (-1, s)
      else
        let bytes_size = payload_size hdr in
        case data of
          None \<Rightarrow> if bytes_size = 0 then Inr (0, s) else Inr (-1, s)
        | Some d \<Rightarrow>
            if bytes_size = 0 then Inr (-1, s)
            else
              and_then (assert_c (bytes_size \<le> length d) OutOfBounds) (\<lambda>_.
              Inr (send_all fd (take bytes_size d) s)))"

text \<open>The loop that reads \<open>n\<close> bytes; the bytes that arrived before an error or the end are kept.\<close>

function recv_all :: "int \<Rightarrow> nat \<Rightarrow> sys \<Rightarrow> (int \<times> byte list) \<times> sys" where
  "recv_all fd n s =
     (if n = 0 then ((0, []), s)
      else let ((k, bs), s') = read_fd fd n s in
        if k \<le> 0 then ((-1, []), s')
        else let ((r, rest), s'') = recv_all fd (n - nat k) s' in ((r, bs @ rest), s''))"
  by pat_completeness auto
termination
  by (relation "measure (\<lambda>(fd, n, s). n)") auto

declare recv_all.simps [simp del]

text \<open>
  The header argument is the caller's storage, which the bytes that arrive overwrite from the
  start; \<open>payloadp\<close> says whether the caller passed a place for the payload. The payload is only
  meaningful when the result is 0.
\<close>

definition proto_recv_packet ::
  "int \<Rightarrow> JEUX_PACKET_HEADER \<Rightarrow> bool \<Rightarrow> sys
     \<Rightarrow> ((int \<times> JEUX_PACKET_HEADER \<times> byte list option) \<times> sys) result" where
  "proto_recv_packet fd hdr payloadp s =
     (let ((r, bs), s) = recv_all fd HEADER_SIZE s;
          hdr = header_of (bs @ drop (length bs) (header_bytes hdr)) in
      if r = -1 then Inr ((-1, hdr, None), s)
      else
        let bytes_size = payload_size hdr in
        if bytes_size = 0 then
          and_then (assert_c payloadp NullDeref) (\<lambda>_. Inr ((0, hdr, None), s))
        else if \<not> payloadp then Inr ((-1, hdr, None), s)
        else
          let (ok, s) = calloc s in
          if \<not> ok then Inr ((-1, hdr, None), s)
          else
            let ((r, bs), s) = recv_all fd bytes_size s in
            if r = -1 then Inr ((-1, hdr, None), s)
            else Inr ((0, hdr, Some bs), s))"


section \<open>The codec\<close>

lemma mk16_le16 [simp]: "mk16 (ucast x) (ucast (drop_bit 8 x)) = x"
  by (rule bit_word_eqI) (auto simp: mk16_def bit_simps)

lemma mk32_le32 [simp]:
  "mk32 (ucast x) (ucast (drop_bit 8 x)) (ucast (drop_bit 16 x)) (ucast (drop_bit 24 x)) = x"
proof (rule bit_word_eqI)
  fix n
  assume "n < LENGTH(32)"
  then consider "n < 8" | "8 \<le> n" "n < 16" | "16 \<le> n" "n < 24" | "24 \<le> n" "n < 32" by fastforce
  then show "bit (mk32 (ucast x) (ucast (drop_bit 8 x)) (ucast (drop_bit 16 x)) (ucast (drop_bit 24 x))) n
      = bit x n"
    by cases (auto simp: mk32_def bit_simps)
qed

lemma mk16_bytes [simp]: "ucast (mk16 a b) = a" "ucast (drop_bit 8 (mk16 a b)) = b"
  by (rule bit_word_eqI; auto simp: mk16_def bit_simps dest: bit_imp_le_length)+

lemma htons_htons [simp]: "htons (htons x) = x"
  by (simp add: htons_def)

lemma ntohs_htons [simp]: "ntohs (htons x) = x"
  by (simp add: ntohs_def)

lemma length_header_bytes [simp]: "length (header_bytes h) = 16"
  by (simp add: header_bytes_def le16_def le32_def)

lemma header_of_header_bytes [simp]: "header_of (header_bytes h) = h"
  by (cases h) (simp add: header_of_def header_bytes_def le16_def le32_def nth_Cons_numeral)

lemma le16_htons: "le16 (htons x) = [ucast (drop_bit 8 x), ucast x]"
  by (simp add: le16_def htons_def)

lemma payload_size_htons: "payload_size h = unat n \<longleftrightarrow> h_size h = htons n"
proof -
  have "payload_size h = unat n \<longleftrightarrow> htons (h_size h) = n" by (simp add: payload_size_def ntohs_def word_unat_eq_iff)
  also have "\<dots> \<longleftrightarrow> h_size h = htons n" by auto
  finally show ?thesis .
qed

lemma unat_of_int_16: "unat (word_of_int n :: 16 word) = nat (n mod 65536)"
  by (simp add: unat_eq_nat_uint uint_word_of_int)

lemma create_header_eq:
  "no_oom s \<Longrightarrow> create_header t i r n s =
     Inr (\<lparr>h_type = word_of_int t, h_id = word_of_int i, h_role = word_of_int r,
           h_size = htons (word_of_int n),
           h_timestamp_sec = htonl (word_of_int (fst (clock s (clock_n s)))),
           h_timestamp_nsec = htonl (word_of_int (snd (clock s (clock_n s))))\<rparr>,
          s\<lparr>res_n := Suc (res_n s), clock_n := Suc (clock_n s)\<rparr>)"
  by (simp add: create_header_def clock_gettime_def case_prod_unfold)

text \<open>What the rest of the server needs to know of a header it built.\<close>

definition header_for :: "int \<Rightarrow> int \<Rightarrow> int \<Rightarrow> int \<Rightarrow> JEUX_PACKET_HEADER \<Rightarrow> bool" where
  "header_for t i r n h \<longleftrightarrow> h_type h = word_of_int t \<and> h_id h = word_of_int i
     \<and> h_role h = word_of_int r \<and> payload_size h = nat (n mod 65536)"

lemma create_header_ok:
  assumes "no_oom s"
  shows "\<exists>h s'. create_header t i r n s = Inr (h, s') \<and> env_same s s' \<and> outp s' = outp s
    \<and> header_for t i r n h"
  unfolding create_header_eq [OF assms]
  by (intro exI conjI, rule refl) (simp_all add: header_for_def payload_size_def unat_of_int_16)

section \<open>The transfer loops\<close>

lemma write_fd_spec:
  "\<exists>k \<le> length bs. \<exists>r s'. write_fd fd bs s = (r, s') \<and> env_same s s'
     \<and> outp s' = (outp s)(fd := outp s fd @ take k bs)
     \<and> (r = int k \<or> r = -1 \<and> k = 0)
     \<and> (net_up s \<and> bs \<noteq> [] \<longrightarrow> r = int k \<and> 0 < k)"
proof (cases "wr_ans s (wr_n s) < 0")
  case True
  then have "\<not> 0 < wr_ans s (wr_n s)" by simp
  then have "\<not> net_up s" unfolding net_up_def by blast
  with True show ?thesis by (intro exI [of _ 0]) (simp add: write_fd_def)
next
  case False
  let ?k = "min (nat (wr_ans s (wr_n s))) (length bs)"
  have "0 < ?k" if "net_up s" "bs \<noteq> []" using that by (simp add: net_up_def)
  with False show ?thesis
    by (intro exI [of _ ?k]) (auto simp: write_fd_def Let_def)
qed

lemma send_all_spec:
  "\<exists>k \<le> length bs. \<exists>r s'. send_all fd bs s = (r, s') \<and> env_same s s'
     \<and> outp s' = (outp s)(fd := outp s fd @ take k bs)
     \<and> (if k = length bs then r = 0 else r = -1)
     \<and> (net_up s \<longrightarrow> k = length bs)"
proof (induction fd bs s rule: send_all.induct)
  case (1 fd bs s)
  show ?case
  proof (cases "bs = []")
    case True
    then show ?thesis by (simp add: send_all.simps)
  next
    case False
    obtain k r s' where w: "k \<le> length bs" "write_fd fd bs s = (r, s')" "env_same s s'"
        "outp s' = (outp s)(fd := outp s fd @ take k bs)" "r = int k \<or> r = -1 \<and> k = 0"
        "net_up s \<longrightarrow> r = int k \<and> 0 < k"
      using write_fd_spec [of bs fd s] False by blast
    show ?thesis
    proof (cases "r \<le> 0")
      case True
      with w have "k = 0" "\<not> net_up s" by auto
      with True w False show ?thesis
        by (intro exI [of _ 0]) (simp add: send_all.simps)
    next
      case pos: False
      with w(5) have rk: "nat r = k" "0 < k" by auto
      from 1 [OF False w(2) [symmetric] refl pos] obtain k2 r2 s2 where
        ih: "k2 \<le> length (drop k bs)" "send_all fd (drop k bs) s' = (r2, s2)" "env_same s' s2"
        "outp s2 = (outp s')(fd := outp s' fd @ take k2 (drop k bs))"
        "if k2 = length (drop k bs) then r2 = 0 else r2 = -1"
        "net_up s' \<longrightarrow> k2 = length (drop k bs)"
        unfolding rk(1) by blast
      have "send_all fd bs s = (r2, s2)"
        using False pos w(2) rk ih(2) by (simp add: send_all.simps [of fd bs s])
      moreover have "env_same s s2" using w(3) ih(3) by (rule env_same_trans)
      moreover have "outp s2 = (outp s)(fd := outp s fd @ take (k + k2) bs)"
        using ih(4) w(4) by (simp add: take_add)
      moreover have "k + k2 \<le> length bs" using ih(1) w(1) by simp
      moreover have iff: "k2 = length (drop k bs) \<longleftrightarrow> k + k2 = length bs" using w(1) by auto
      moreover have "if k + k2 = length bs then r2 = 0 else r2 = -1" "net_up s \<longrightarrow> k + k2 = length bs"
        using ih(5,6) env_same_net_up [OF w(3)] unfolding iff by simp_all
      ultimately show ?thesis by blast
    qed
  qed
qed


text \<open>Reading takes bytes from the front of what the peer sent and changes nothing else.\<close>

definition in_step :: "int \<Rightarrow> nat \<Rightarrow> sys \<Rightarrow> sys \<Rightarrow> bool" where
  "in_step fd k s t \<longleftrightarrow> inp t = (inp s)(fd := drop k (inp s fd)) \<and> rd_shut t = rd_shut s
     \<and> rd_ans t = rd_ans s \<and> res_ok t = res_ok s \<and> wr_ans t = wr_ans s \<and> outp t = outp s
     \<and> clock t = clock s"

lemma in_step_0: "in_step fd 0 s s"
  by (simp add: in_step_def)

lemma in_step_add: "in_step fd j s t \<Longrightarrow> in_step fd k t u \<Longrightarrow> in_step fd (j + k) s u"
  by (simp add: in_step_def add.commute)

lemma in_step_rd: "in_step fd k s t \<Longrightarrow> rd_up t = rd_up s \<and> rd_shut t = rd_shut s
    \<and> inp t fd = drop k (inp s fd) \<and> no_oom t = no_oom s"
  by (simp add: in_step_def rd_up_def no_oom_def)

lemma read_fd_spec:
  assumes "0 < n"
  shows "\<exists>k r s'. read_fd fd n s = ((r, take k (inp s fd)), s') \<and> in_step fd k s s'
     \<and> k \<le> n \<and> k \<le> length (inp s fd)
     \<and> (r = int k \<or> r = -1 \<and> k = 0)
     \<and> (rd_up s \<and> \<not> rd_shut s fd \<and> inp s fd \<noteq> [] \<longrightarrow> r = int k \<and> 0 < k)"
proof -
  let ?a = "rd_ans s (rd_n s)"
  consider "?a < 0" | "\<not> ?a < 0" "rd_shut s fd" | "\<not> ?a < 0" "\<not> rd_shut s fd" by blast
  then show ?thesis
  proof cases
    case 1
    then have "\<not> rd_up s" unfolding rd_up_def by (auto intro!: exI [of _ "rd_n s"])
    with 1 show ?thesis by (intro exI [of _ "0 :: nat"]) (simp add: read_fd_def in_step_def)
  next
    case 2
    then show ?thesis by (intro exI [of _ "0 :: nat"]) (simp add: read_fd_def in_step_def)
  next
    case 3
    let ?k = "min (max 1 (nat ?a)) (min n (length (inp s fd)))"
    have pos: "inp s fd \<noteq> [] \<Longrightarrow> 0 < ?k" using assms by (auto simp: min_def max_def)
    with 3 show ?thesis
      by (intro exI [of _ ?k]) (auto simp: read_fd_def in_step_def Let_def)
  qed
qed

lemma recv_all_spec:
  "\<exists>k r s'. recv_all fd n s = ((r, take k (inp s fd)), s') \<and> in_step fd k s s'
     \<and> k \<le> length (inp s fd) \<and> k \<le> n
     \<and> (if k = n then r = 0 else r = -1)
     \<and> (rd_up s \<and> \<not> rd_shut s fd \<and> n \<le> length (inp s fd) \<longrightarrow> k = n)"
proof (induction fd n s rule: recv_all.induct)
  case (1 fd n s)
  show ?case
  proof (cases "n = 0")
    case True
    then show ?thesis by (intro exI [of _ "0 :: nat"]) (simp add: recv_all.simps in_step_0)
  next
    case False
    then have "0 < n" by simp
    from read_fd_spec [OF this] obtain k r s' where
      w: "read_fd fd n s = ((r, take k (inp s fd)), s')" "in_step fd k s s'"
      "k \<le> n" "k \<le> length (inp s fd)" "r = int k \<or> r = -1 \<and> k = 0"
      "rd_up s \<and> \<not> rd_shut s fd \<and> inp s fd \<noteq> [] \<longrightarrow> r = int k \<and> 0 < k"
      by blast
    show ?thesis
    proof (cases "r \<le> 0")
      case True
      with w have k: "k = 0" by auto
      have "\<not> (rd_up s \<and> \<not> rd_shut s fd \<and> n \<le> length (inp s fd))" using w(6) k False by auto
      with True w k False show ?thesis
        by (intro exI [of _ "0 :: nat"]) (simp add: recv_all.simps)
    next
      case pos: False
      with w(5) have rk: "nat r = k" "0 < k" by auto
      from 1 [OF False w(1) [symmetric] refl refl pos] obtain k2 r2 s2 where
        ih: "recv_all fd (n - k) s' = ((r2, take k2 (inp s' fd)), s2)" "in_step fd k2 s' s2"
        "k2 \<le> length (inp s' fd)" "k2 \<le> n - k" "if k2 = n - k then r2 = 0 else r2 = -1"
        "rd_up s' \<and> \<not> rd_shut s' fd \<and> n - k \<le> length (inp s' fd) \<longrightarrow> k2 = n - k"
        unfolding rk(1) by blast
      note st = in_step_rd [OF w(2)]
      have "recv_all fd n s = ((r2, take (k + k2) (inp s fd)), s2)"
        using False pos w(1) rk ih(1) st by (simp add: recv_all.simps [of fd n s] take_add)
      moreover have "in_step fd (k + k2) s s2" using w(2) ih(2) by (rule in_step_add)
      moreover have "k + k2 \<le> length (inp s fd)" "k + k2 \<le> n" using ih(3,4) st w(3,4) by auto
      moreover have "if k + k2 = n then r2 = 0 else r2 = -1" using ih(4,5) w(3) by (auto split: if_splits)
      moreover have "rd_up s \<and> \<not> rd_shut s fd \<and> n \<le> length (inp s fd) \<longrightarrow> k + k2 = n"
        using ih(6) st w(3) by auto
      ultimately show ?thesis by blast
    qed
  qed
qed

section \<open>Packets over a stream\<close>

text \<open>The bytes of a packet on the wire.\<close>

definition wire :: "JEUX_PACKET_HEADER \<Rightarrow> byte list option \<Rightarrow> byte list" where
  "wire hdr data = header_bytes hdr @ (case data of None \<Rightarrow> [] | Some d \<Rightarrow> take (payload_size hdr) d)"

text \<open>The size field agrees with the payload.\<close>

definition sized :: "JEUX_PACKET_HEADER \<Rightarrow> byte list option \<Rightarrow> bool" where
  "sized hdr data \<longleftrightarrow> (case data of None \<Rightarrow> payload_size hdr = 0
     | Some d \<Rightarrow> payload_size hdr = length d \<and> d \<noteq> [])"

text \<open>The size field does not exceed the payload, so that no byte behind it is read.\<close>

definition readable :: "JEUX_PACKET_HEADER \<Rightarrow> byte list option \<Rightarrow> bool" where
  "readable hdr data \<longleftrightarrow> (case data of None \<Rightarrow> True | Some d \<Rightarrow> payload_size hdr \<le> length d)"

lemma sized_readable: "sized hdr data \<Longrightarrow> readable hdr data"
  by (auto simp: sized_def readable_def split: option.splits)

lemma proto_send_packet_spec:
  assumes "readable hdr data"
  shows "\<exists>k r s'. proto_send_packet fd hdr data s = Inr (r, s') \<and> env_same s s'
     \<and> k \<le> length (wire hdr data) \<and> (r = 0 \<or> r = -1)
     \<and> outp s' = (outp s)(fd := outp s fd @ take k (wire hdr data))
     \<and> (r = 0 \<longrightarrow> k = length (wire hdr data))
     \<and> (net_up s \<longrightarrow> k = length (wire hdr data)) \<and> (net_up s \<and> sized hdr data \<longrightarrow> r = 0)"
proof -
  obtain k r s' where h: "k \<le> 16" "send_all fd (header_bytes hdr) s = (r, s')" "env_same s s'"
      "outp s' = (outp s)(fd := outp s fd @ take k (header_bytes hdr))"
      "if k = 16 then r = 0 else r = -1" "net_up s \<longrightarrow> k = 16"
    using send_all_spec [of "header_bytes hdr" fd s] by auto
  show ?thesis
  proof (cases "k = 16")
    case False
    then have "take k (wire hdr data) = take k (header_bytes hdr)" using h(1) by (simp add: wire_def)
    with False h show ?thesis
      by (intro exI [of _ k]) (auto simp: proto_send_packet_def wire_def)
  next
    case True
    with h have r: "r = 0" "outp s' = (outp s)(fd := outp s fd @ header_bytes hdr)" by auto
    show ?thesis
    proof (cases "data = None \<or> payload_size hdr = 0")
      case True
      then have "wire hdr data = header_bytes hdr" by (auto simp: wire_def split: option.splits)
      with True h r show ?thesis
        by (intro exI [of _ "16 :: nat"]) (auto simp: proto_send_packet_def sized_def split: option.splits)
    next
      case False
      then obtain d where d: "data = Some d" "0 < payload_size hdr" "payload_size hdr \<le> length d"
        using assms by (auto simp: readable_def)
      have ld: "length (take (payload_size hdr) d) = payload_size hdr" using d(3) by simp
      obtain k2 r2 s2 where p: "k2 \<le> payload_size hdr"
          "send_all fd (take (payload_size hdr) d) s' = (r2, s2)" "env_same s' s2"
          "outp s2 = (outp s')(fd := outp s' fd @ take k2 (take (payload_size hdr) d))"
          "if k2 = payload_size hdr then r2 = 0 else r2 = -1" "net_up s' \<longrightarrow> k2 = payload_size hdr"
        using send_all_spec [of "take (payload_size hdr) d" fd s'] unfolding ld by blast
      have lw: "length (wire hdr data) = 16 + payload_size hdr" using d by (simp add: wire_def)
      have "proto_send_packet fd hdr data s = Inr (r2, s2)"
        using h(2) r d p(2) by (simp add: proto_send_packet_def)
      moreover have "env_same s s2" using h(3) p(3) by (rule env_same_trans)
      moreover have "outp s2 = (outp s)(fd := outp s fd @ take (16 + k2) (wire hdr data))"
        using p(4) r(2) d by (simp add: wire_def)
      moreover have "r2 = 0 \<or> r2 = -1" using p(5) by (auto split: if_splits)
      moreover have "net_up s \<longrightarrow> 16 + k2 = length (wire hdr data)" "net_up s \<longrightarrow> r2 = 0"
          "r2 = 0 \<longrightarrow> 16 + k2 = length (wire hdr data)"
        using p(5,6) env_same_net_up [OF h(3)] lw by (auto split: if_splits)
      moreover have "16 + k2 \<le> length (wire hdr data)" using p(1) lw by simp
      ultimately show ?thesis by blast
    qed
  qed
qed


lemma recv_complete:
  assumes "rd_up s" and "\<not> rd_shut s fd" and "inp s fd = bs @ rest"
  shows "\<exists>s'. recv_all fd (length bs) s = ((0, bs), s') \<and> in_step fd (length bs) s s'"
proof -
  obtain k r s' where k: "recv_all fd (length bs) s = ((r, take k (inp s fd)), s')" "in_step fd k s s'"
      "if k = length bs then r = 0 else r = -1"
      "rd_up s \<and> \<not> rd_shut s fd \<and> length bs \<le> length (inp s fd) \<longrightarrow> k = length bs"
    using recv_all_spec [of fd "length bs" s] by blast
  from k(4) assms have "k = length bs" by simp
  with k assms(3) show ?thesis by simp
qed

lemma proto_recv_packet_wire:
  assumes "sized hdr data" and "inp t fd = wire hdr data @ rest" and "rd_up t" and "\<not> rd_shut t fd"
    and "no_oom t"
  shows "\<exists>t'. proto_recv_packet fd h0 True t = Inr ((0, hdr, data), t') \<and> inp t' fd = rest"
proof -
  from assms(2) have i: "inp t fd = header_bytes hdr @ (case data of None \<Rightarrow> [] | Some d \<Rightarrow> d) @ rest"
    using assms(1) by (auto simp: wire_def sized_def split: option.splits)
  from recv_complete [OF assms(3,4) i] obtain t1 where
    t1: "recv_all fd 16 t = ((0, header_bytes hdr), t1)" "in_step fd 16 t t1" by auto
  note s1 = in_step_rd [OF t1(2)]
  show ?thesis
  proof (cases data)
    case None
    then have "payload_size hdr = 0" using assms(1) by (simp add: sized_def)
    with None t1 s1 i show ?thesis by (simp add: proto_recv_packet_def HEADER_SIZE_def)
  next
    case (Some d)
    then have d: "payload_size hdr = length d" "d \<noteq> []" using assms(1) by (simp_all add: sized_def)
    let ?t = "t1\<lparr>res_n := Suc (res_n t1)\<rparr>"
    have "rd_up ?t" "\<not> rd_shut ?t fd" "inp ?t fd = d @ rest"
      using s1 assms(3,4) i Some by (simp_all add: rd_up_def)
    from recv_complete [OF this] obtain t2 where
      t2: "recv_all fd (length d) ?t = ((0, d), t2)" "in_step fd (length d) ?t t2" by auto
    have "no_oom t1" using s1 assms(5) by simp
    with t1 t2 d Some have "proto_recv_packet fd h0 True t = Inr ((0, hdr, data), t2)"
      by (simp add: proto_recv_packet_def HEADER_SIZE_def)
    moreover have "inp t2 fd = rest"
      using in_step_rd [OF t2(2)] s1 i Some by simp
    ultimately show ?thesis by blast
  qed
qed

text \<open>
  C4: what one side sends the other receives, whatever the chunks in which the network takes and
  gives the bytes: sending a packet whose size field fits its payload appends exactly the packet to
  the stream, and a receiver whose stream continues with those bytes gets the same header and
  payload and is left at the byte behind the packet.
\<close>

theorem proto_roundtrip:
  assumes "sized hdr data" and "net_up s" and "rd_up t" and "\<not> rd_shut t fd2" and "no_oom t"
  shows "\<exists>s' bs. proto_send_packet fd hdr data s = Inr (0, s') \<and> outp s' fd = outp s fd @ bs
    \<and> (\<forall>rest. inp t fd2 = bs @ rest \<longrightarrow>
        (\<exists>t'. proto_recv_packet fd2 h0 True t = Inr ((0, hdr, data), t') \<and> inp t' fd2 = rest))"
proof -
  obtain s' where "proto_send_packet fd hdr data s = Inr (0, s')"
      "outp s' = (outp s)(fd := outp s fd @ wire hdr data)"
    using proto_send_packet_spec [OF sized_readable [OF assms(1)], of fd s] assms(1,2) by auto
  then show ?thesis
    using proto_recv_packet_wire [OF assms(1) _ assms(3-5)] by (intro exI [of _ s'] exI [of _ "wire hdr data"]) auto
qed

definition sample_header :: JEUX_PACKET_HEADER where
  "sample_header = \<lparr>h_type = 1, h_id = 0, h_role = 0, h_size = htons 3, h_timestamp_sec = 5, h_timestamp_nsec = 7\<rparr>"

theorem proto_roundtrip_witness:
  "\<exists>s' bs. proto_send_packet 4 sample_header (Some [97, 98, 99]) calm_sys = Inr (0, s')
     \<and> outp s' 4 = outp calm_sys 4 @ bs
     \<and> (\<exists>t'. proto_recv_packet 5 zero_header True (calm_sys\<lparr>inp := (\<lambda>_. bs @ [1])\<rparr>)
          = Inr ((0, sample_header, Some [97, 98, 99]), t') \<and> inp t' 5 = [1])"
proof -
  let ?d = "Some [97, 98, 99] :: byte list option"
  have sz: "sized sample_header ?d"
    by (simp add: sized_def sample_header_def payload_size_def)
  let ?t = "calm_sys\<lparr>inp := (\<lambda>_. wire sample_header ?d @ [1])\<rparr>"
  have t: "rd_up ?t" "\<not> rd_shut ?t 5" "no_oom ?t" by (simp_all add: calm_sys_def rd_up_def no_oom_def)
  from proto_roundtrip [OF sz calm_sys_ok(2) t, of 4 zero_header] obtain s' bs where
    r: "proto_send_packet 4 sample_header ?d calm_sys = Inr (0, s')" "outp s' 4 = outp calm_sys 4 @ bs"
      "\<forall>rest. inp ?t 5 = bs @ rest \<longrightarrow>
        (\<exists>t'. proto_recv_packet 5 zero_header True ?t = Inr ((0, sample_header, ?d), t') \<and> inp t' 5 = rest)"
    by blast
  have "bs = wire sample_header ?d"
    using proto_send_packet_spec [OF sized_readable [OF sz], of 4 calm_sys] sz r(1,2) by auto
  with r show ?thesis by (intro exI [of _ s'] exI [of _ bs]) auto
qed

text \<open>
  C33: a send never corrupts a stream. As long as the size field does not exceed the payload, the
  call returns 0 or -1, what it appends is a prefix of the packet and goes to this descriptor only,
  and 0 means that the whole packet was written.
\<close>

theorem proto_send_prefix:
  assumes "readable hdr data"
  shows "\<exists>k r s'. proto_send_packet fd hdr data s = Inr (r, s') \<and> (r = 0 \<or> r = -1)
    \<and> outp s' fd = outp s fd @ take k (wire hdr data) \<and> (\<forall>fd'. fd' \<noteq> fd \<longrightarrow> outp s' fd' = outp s fd')
    \<and> (r = 0 \<longrightarrow> outp s' fd = outp s fd @ wire hdr data)"
proof -
  obtain k r s' where "proto_send_packet fd hdr data s = Inr (r, s')" "r = 0 \<or> r = -1"
      "outp s' = (outp s)(fd := outp s fd @ take k (wire hdr data))"
      "r = 0 \<longrightarrow> k = length (wire hdr data)"
    using proto_send_packet_spec [OF assms, of fd s] by blast
  then show ?thesis by (intro exI [of _ k] exI [of _ r] exI [of _ s']) auto
qed

theorem proto_send_prefix_witness:
  "\<exists>k r s'. proto_send_packet 4 sample_header (Some [97, 98, 99]) (calm_sys\<lparr>wr_ans := (\<lambda>n. 5 - int n)\<rparr>) = Inr (r, s')
    \<and> (r = 0 \<or> r = -1) \<and> outp s' 4 = take k (wire sample_header (Some [97, 98, 99]))"
proof -
  have "readable sample_header (Some [97, 98, 99])"
    by (simp add: readable_def sample_header_def payload_size_def)
  from proto_send_prefix [OF this, of 4 "calm_sys\<lparr>wr_ans := (\<lambda>n. 5 - int n)\<rparr>"]
  show ?thesis by (auto simp: calm_sys_def)
qed

end
