(* ===== verification/World.thy ===== *)
theory World
  imports Game Player Protocol
begin

text \<open>
  The state of the running server: the objects of each C type in a heap of their own, the two
  registries (\<^verbatim>\<open>client_registry\<close>, \<^verbatim>\<open>player_registry\<close> of \<^verbatim>\<open>include/jeux_globals.h\<close>), the semaphores
  that \<^verbatim>\<open>src/client.c\<close> declares, and the operating system. The structures are those of
  \<^verbatim>\<open>src/client.c\<close>, \<^verbatim>\<open>src/invitation.c\<close>, \<^verbatim>\<open>src/client_registry.c\<close> and \<^verbatim>\<open>src/player_registry.c\<close>; a linked list is
  the list of its nodes. There is one client registry, so the back pointer \<open>cr\<close> of a client is not
  represented. Addresses are never reused, so that a use of a freed object is always noticed.
\<close>

section \<open>Structures\<close>

datatype INVITATION_STATE = INV_OPEN_STATE | INV_ACCEPTED_STATE | INV_CLOSED_STATE

text \<open>The states in the order in which an invitation goes through them.\<close>

fun state_rank :: "INVITATION_STATE \<Rightarrow> nat" where
  "state_rank INV_OPEN_STATE = 0"
| "state_rank INV_ACCEPTED_STATE = 1"
| "state_rank INV_CLOSED_STATE = 2"

lemma state_rank_inject: "state_rank x = state_rank y \<Longrightarrow> x = y"
  by (cases x; cases y) simp_all

instantiation INVITATION_STATE :: linorder
begin

definition less_eq_INVITATION_STATE :: "INVITATION_STATE \<Rightarrow> INVITATION_STATE \<Rightarrow> bool" where
  "less_eq_INVITATION_STATE x y \<longleftrightarrow> state_rank x \<le> state_rank y"

definition less_INVITATION_STATE :: "INVITATION_STATE \<Rightarrow> INVITATION_STATE \<Rightarrow> bool" where
  "less_INVITATION_STATE x y \<longleftrightarrow> state_rank x < state_rank y"

instance
  by standard
    (use state_rank_inject in \<open>auto simp only: less_eq_INVITATION_STATE_def less_INVITATION_STATE_def
        less_le_not_le order_refl nle_le dest: order.trans order.antisym\<close>)

end

lemma state_order [simp]: "INV_OPEN_STATE \<le> x" "x \<le> INV_CLOSED_STATE"
  by (cases x; simp add: less_eq_INVITATION_STATE_def)+

record INVITATION =
  i_state :: INVITATION_STATE
  i_ref_count :: int
  i_source :: addr
  i_target :: addr
  i_game :: ptr
  i_source_role :: GAME_ROLE
  i_target_role :: GAME_ROLE
  i_lock :: mutex

record INVITATION_NODE =
  n_id :: int
  n_inv :: addr

datatype CLIENT_STATE = CLIENT_LOGGED_OUT | CLIENT_LOGGED_IN

record CLIENT =
  c_lock :: mutex
  c_fd :: int
  c_ref_count :: int
  c_player :: ptr
  logged_in :: CLIENT_STATE
  available_ids :: "int list"
  id_usage :: int
  current_id_size :: int
  invite_list :: "INVITATION_NODE list"

record PLAYER_REGISTRY =
  pr_mutex :: mutex
  pr_list :: "addr list"
  pr_length :: int

definition MAX_CLIENTS :: nat where "MAX_CLIENTS = 64"

record CLIENT_REGISTRY =
  cr_mutex :: mutex
  cr_sem :: sem
  cr_length :: int
  cr_no :: int
  cr_clients :: "ptr list"
  cr_login_queue :: sem

text \<open>The indices into the array of semaphores, and its size.\<close>

definition CLIENT_SEM_FUNCTIONS :: nat where "CLIENT_SEM_FUNCTIONS = 10"
definition CLIENT_LOGIN_SEM :: nat where "CLIENT_LOGIN_SEM = 0"
definition CLIENT_LOGOUT_SEM :: nat where "CLIENT_LOGOUT_SEM = 1"
definition CLIENT_INVITE_SEM :: nat where "CLIENT_INVITE_SEM = 2"
definition CLIENT_INVITE_OP_SEM :: nat where "CLIENT_INVITE_OP_SEM = 6"
definition CLIENT_UPDATE_ELO :: nat where "CLIENT_UPDATE_ELO = 8"

lemmas sem_ids = CLIENT_LOGIN_SEM_def CLIENT_LOGOUT_SEM_def CLIENT_INVITE_SEM_def
  CLIENT_INVITE_OP_SEM_def CLIENT_UPDATE_ELO_def

lemma sem_ids_distinct [simp]:
  "CLIENT_LOGIN_SEM \<noteq> CLIENT_LOGOUT_SEM" "CLIENT_LOGIN_SEM \<noteq> CLIENT_INVITE_SEM"
  "CLIENT_LOGIN_SEM \<noteq> CLIENT_INVITE_OP_SEM" "CLIENT_LOGIN_SEM \<noteq> CLIENT_UPDATE_ELO"
  "CLIENT_LOGOUT_SEM \<noteq> CLIENT_LOGIN_SEM" "CLIENT_LOGOUT_SEM \<noteq> CLIENT_INVITE_SEM"
  "CLIENT_LOGOUT_SEM \<noteq> CLIENT_INVITE_OP_SEM" "CLIENT_LOGOUT_SEM \<noteq> CLIENT_UPDATE_ELO"
  "CLIENT_INVITE_SEM \<noteq> CLIENT_LOGIN_SEM" "CLIENT_INVITE_SEM \<noteq> CLIENT_LOGOUT_SEM"
  "CLIENT_INVITE_SEM \<noteq> CLIENT_INVITE_OP_SEM" "CLIENT_INVITE_SEM \<noteq> CLIENT_UPDATE_ELO"
  "CLIENT_INVITE_OP_SEM \<noteq> CLIENT_LOGIN_SEM" "CLIENT_INVITE_OP_SEM \<noteq> CLIENT_LOGOUT_SEM"
  "CLIENT_INVITE_OP_SEM \<noteq> CLIENT_INVITE_SEM" "CLIENT_INVITE_OP_SEM \<noteq> CLIENT_UPDATE_ELO"
  "CLIENT_UPDATE_ELO \<noteq> CLIENT_LOGIN_SEM" "CLIENT_UPDATE_ELO \<noteq> CLIENT_LOGOUT_SEM"
  "CLIENT_UPDATE_ELO \<noteq> CLIENT_INVITE_SEM" "CLIENT_UPDATE_ELO \<noteq> CLIENT_INVITE_OP_SEM"
  by (simp_all add: sem_ids)

record world =
  sy :: sys
  players :: "PLAYER heap"
  clients :: "CLIENT heap"
  invs :: "INVITATION heap"
  games :: "GAME heap"
  next_addr :: addr
  sems :: "nat \<Rightarrow> sem"
  is_sem_init :: int
  preg :: "PLAYER_REGISTRY option"
  creg :: "CLIENT_REGISTRY option"

type_synonym 'a act = "world \<Rightarrow> ('a \<times> world) result"

section \<open>Access to the state\<close>

definition set_player :: "addr \<Rightarrow> PLAYER \<Rightarrow> world \<Rightarrow> world" where
  "set_player a p w = w\<lparr>players := (players w)(a \<mapsto> p)\<rparr>"

definition set_client :: "addr \<Rightarrow> CLIENT \<Rightarrow> world \<Rightarrow> world" where
  "set_client a c w = w\<lparr>clients := (clients w)(a \<mapsto> c)\<rparr>"

definition set_inv :: "addr \<Rightarrow> INVITATION \<Rightarrow> world \<Rightarrow> world" where
  "set_inv a i w = w\<lparr>invs := (invs w)(a \<mapsto> i)\<rparr>"

definition set_game :: "addr \<Rightarrow> GAME \<Rightarrow> world \<Rightarrow> world" where
  "set_game a g w = w\<lparr>games := (games w)(a \<mapsto> g)\<rparr>"

lemmas set_defs = set_player_def set_client_def set_inv_def set_game_def

definition sem_wait_w :: "nat \<Rightarrow> world \<Rightarrow> world result" where
  "sem_wait_w i w = and_then (sem_wait (sems w i)) (\<lambda>v. Inr (w\<lparr>sems := (sems w)(i := v)\<rparr>))"

definition sem_post_w :: "nat \<Rightarrow> world \<Rightarrow> world" where
  "sem_post_w i w = w\<lparr>sems := (sems w)(i := sem_post (sems w i))\<rparr>"

lemma sem_wait_w_1: "sems w i = 1 \<Longrightarrow> sem_wait_w i w = Inr (w\<lparr>sems := (sems w)(i := 0)\<rparr>)"
  by (simp add: sem_wait_w_def)

lemma sem_wait_w_0: "sems w i = 0 \<Longrightarrow> sem_wait_w i w = Inl Deadlock"
  by (simp add: sem_wait_w_def)

lemma sem_post_after_wait: "sems w i = 0 \<Longrightarrow> sem_post_w i w = w\<lparr>sems := (sems w)(i := 1)\<rparr>"
  by (simp add: sem_post_w_def)

text \<open>A reference taken or dropped through a pointer to a player.\<close>

definition player_ref_w :: "addr \<Rightarrow> world \<Rightarrow> world result" where
  "player_ref_w a w = and_then (load (players w) a) (\<lambda>p.
     and_then (player_ref p) (\<lambda>p. Inr (set_player a p w)))"

definition player_unref_w :: "addr \<Rightarrow> world \<Rightarrow> world result" where
  "player_unref_w a w = and_then (load (players w) a) (\<lambda>p.
     and_then (player_unref p) (\<lambda>r. Inr (w\<lparr>players := (players w)(a := r)\<rparr>)))"

text \<open>\<open>sys\<close> functions on the world, and an allocation that the code does not check.\<close>

definition request_w :: "world \<Rightarrow> bool \<times> world" where
  "request_w w = (let (ok, s) = request (sy w) in (ok, w\<lparr>sy := s\<rparr>))"

definition must_alloc :: "world \<Rightarrow> world result" where
  "must_alloc w = (let (ok, w) = request_w w in and_then (assert_c ok NullDeref) (\<lambda>_. Inr w))"

lemma request_w_ok:
  "no_oom (sy w) \<Longrightarrow> request_w w = (True, w\<lparr>sy := (sy w)\<lparr>res_n := Suc (res_n (sy w))\<rparr>\<rparr>)"
  by (simp add: request_w_def)

lemma must_alloc_ok:
  "no_oom (sy w) \<Longrightarrow> must_alloc w = Inr (w\<lparr>sy := (sy w)\<lparr>res_n := Suc (res_n (sy w))\<rparr>\<rparr>)"
  by (simp add: must_alloc_def request_w_ok)

text \<open>The server at program start, before the registries are set up.\<close>

definition blank_world :: "sys \<Rightarrow> world" where
  "blank_world s = \<lparr>sy = s, players = Map.empty, clients = Map.empty, invs = Map.empty, games = Map.empty,
     next_addr = 1, sems = (\<lambda>_. 0), is_sem_init = 0, preg = None, creg = None\<rparr>"

end
