(* ===== verification/Client.thy ===== *)
theory Client
  imports World
begin

text \<open>
  The first part of \<^verbatim>\<open>src/client.c\<close>: creating a client, its reference count, the identifiers it gives
  to invitations, the lookups in its list of invitations, and sending packets to it. The handlers
  for invitations, login and logout are in the theories that follow the components they call.
\<close>

section \<open>Creation and references\<close>

definition with_client :: "addr \<Rightarrow> (CLIENT \<Rightarrow> CLIENT) \<Rightarrow> world \<Rightarrow> world result" where
  "with_client c f w = and_then (load (clients w) c) (\<lambda>cl. Inr (set_client c (f cl) w))"

definition client_ref :: "addr \<Rightarrow> world \<Rightarrow> world result" where
  "client_ref c w =
     and_then (load (clients w) c) (\<lambda>cl.
     and_then (pthread_mutex_lock (c_lock cl)) (\<lambda>m.
     Inr (set_client c (cl\<lparr>c_ref_count := c_ref_count cl + 1, c_lock := pthread_mutex_unlock m\<rparr>) w)))"

text \<open>\<open>sem_init(&semaphores[i], 0, 1)\<close> for the indices in the list, until one is refused.\<close>

fun init_sems :: "nat list \<Rightarrow> world \<Rightarrow> bool \<times> world" where
  "init_sems [] w = (True, w)"
| "init_sems (i # is) w =
     (let (ok, w) = request_w w in
      if \<not> ok then (False, w) else init_sems is (w\<lparr>sems := (sems w)(i := 1)\<rparr>))"

text \<open>
  The flag \<open>is_sem_init\<close> is tested but never set, so the semaphores are initialised each time.
\<close>

definition client_create :: "int \<Rightarrow> ptr act" where
  "client_create fd w =
     (let (ok, w) = (if is_sem_init w = 0 then init_sems [0..<CLIENT_SEM_FUNCTIONS] w else (True, w)) in
      if \<not> ok then Inr (None, w)
      else
        let (ok, w) = request_w w in
        if \<not> ok then Inr (None, w)
        else
          let (ok, w) = request_w w in
          if \<not> ok then Inr (None, w)
          else
            let (ok, w) = request_w w in
            if \<not> ok then Inr (None, w)
            else
              let c = next_addr w;
                  w = set_client c
                    \<lparr>c_lock = False, c_fd = fd, c_ref_count = 0, c_player = None,
                     logged_in = CLIENT_LOGGED_OUT, available_ids = map int [0..<100], id_usage = 0,
                     current_id_size = 100, invite_list = []\<rparr> (w\<lparr>next_addr := Suc c\<rparr>) in
              and_then (client_ref c w) (\<lambda>w. Inr (Some c, w)))"

definition client_get_player :: "ptr \<Rightarrow> world \<Rightarrow> ptr result" where
  "client_get_player client w =
     (case client of None \<Rightarrow> Inr None | Some c \<Rightarrow> and_then (load (clients w) c) (\<lambda>cl. Inr (c_player cl)))"

definition client_get_fd :: "addr \<Rightarrow> world \<Rightarrow> int result" where
  "client_get_fd c w = and_then (load (clients w) c) (\<lambda>cl. Inr (c_fd cl))"

section \<open>Identifiers of invitations\<close>

text \<open>The scan for the first entry that is not -1: the identifier there, and the array with -1 in its place.\<close>

fun take_first_id :: "int list \<Rightarrow> int option \<times> int list" where
  "take_first_id [] = (None, [])"
| "take_first_id (x # xs) =
     (if x = -1 then (let (r, ys) = take_first_id xs in (r, x # ys)) else (Some x, -1 # xs))"

text \<open>
  The array is doubled when all identifiers are in use. When it cannot be enlarged the function
  returns with the client still locked and the array lost.
\<close>

definition get_available_id :: "addr \<Rightarrow> int act" where
  "get_available_id c w =
     and_then (load (clients w) c) (\<lambda>cl.
     and_then (pthread_mutex_lock (c_lock cl)) (\<lambda>m.
     let cl = cl\<lparr>c_lock := m\<rparr>;
         grow = (id_usage cl \<ge> current_id_size cl);
         (ok, w) = (if grow then request_w w else (True, w));
         n = current_id_size cl in
     if \<not> ok then
       Inr (-1, set_client c (cl\<lparr>current_id_size := 2 * n, available_ids := []\<rparr>) w)
     else
       let cl = (if grow then cl\<lparr>current_id_size := 2 * n,
                     available_ids := available_ids cl @ map int [nat n..<nat (2 * n)]\<rparr> else cl) in
       and_then (assert_c (int (length (available_ids cl)) = current_id_size cl) OutOfBounds) (\<lambda>_.
       case take_first_id (available_ids cl) of
         (None, ids) \<Rightarrow> Inr (-1, set_client c (cl\<lparr>c_lock := pthread_mutex_unlock m\<rparr>) w)
       | (Some i, ids) \<Rightarrow>
           Inr (i, set_client c (cl\<lparr>available_ids := ids, id_usage := id_usage cl + 1,
                                    c_lock := pthread_mutex_unlock m\<rparr>) w))))"

text \<open>An identifier that is too large leaves the client locked.\<close>

definition purge_id :: "addr \<Rightarrow> int \<Rightarrow> world \<Rightarrow> world result" where
  "purge_id c i w =
     and_then (load (clients w) c) (\<lambda>cl.
     and_then (pthread_mutex_lock (c_lock cl)) (\<lambda>m.
     let cl = cl\<lparr>c_lock := m\<rparr> in
     if i \<ge> current_id_size cl then Inr (set_client c cl w)
     else
       and_then (arr_set (available_ids cl) i i) (\<lambda>ids.
       Inr (set_client c (cl\<lparr>available_ids := ids, id_usage := id_usage cl - 1,
                            c_lock := pthread_mutex_unlock m\<rparr>) w))))"

section \<open>Lookups\<close>

text \<open>Both take and release the client's lock on every path, and change nothing.\<close>

fun id_of_inv :: "INVITATION_NODE list \<Rightarrow> addr \<Rightarrow> int" where
  "id_of_inv [] i = -1"
| "id_of_inv (n # ns) i = (if n_inv n = i then n_id n else id_of_inv ns i)"

fun inv_of_id :: "INVITATION_NODE list \<Rightarrow> int \<Rightarrow> ptr" where
  "inv_of_id [] i = None"
| "inv_of_id (n # ns) i = (if n_id n = i then Some (n_inv n) else inv_of_id ns i)"

definition client_get_invitation_id :: "addr \<Rightarrow> addr \<Rightarrow> world \<Rightarrow> int result" where
  "client_get_invitation_id c i w =
     and_then (load (clients w) c) (\<lambda>cl.
     and_then (pthread_mutex_lock (c_lock cl)) (\<lambda>_. Inr (id_of_inv (invite_list cl) i)))"

definition client_get_invitation :: "addr \<Rightarrow> int \<Rightarrow> world \<Rightarrow> ptr result" where
  "client_get_invitation c i w =
     and_then (load (clients w) c) (\<lambda>cl.
     and_then (pthread_mutex_lock (c_lock cl)) (\<lambda>_. Inr (inv_of_id (invite_list cl) i)))"

section \<open>Sending\<close>

text \<open>The bytes of a string, without the final NUL.\<close>

definition bytes_of :: "string \<Rightarrow> byte list" where
  "bytes_of str = map of_char str"

text \<open>The client is locked while the packet is written, and not otherwise changed.\<close>

definition client_send_packet :: "addr \<Rightarrow> JEUX_PACKET_HEADER \<Rightarrow> byte list option \<Rightarrow> int act" where
  "client_send_packet c pkt data w =
     and_then (load (clients w) c) (\<lambda>cl.
     and_then (pthread_mutex_lock (c_lock cl)) (\<lambda>_.
     and_then (proto_send_packet (c_fd cl) pkt data (sy w)) (\<lambda>(ret, s). Inr (ret, w\<lparr>sy := s\<rparr>))))"

definition create_header_w ::
  "JEUX_PACKET_TYPE \<Rightarrow> int \<Rightarrow> int \<Rightarrow> int \<Rightarrow> JEUX_PACKET_HEADER act" where
  "create_header_w t i r n w =
     and_then (create_header (pkt_val t) i r n (sy w)) (\<lambda>(h, s). Inr (h, w\<lparr>sy := s\<rparr>))"

definition client_send_ack :: "addr \<Rightarrow> byte list option \<Rightarrow> int \<Rightarrow> int act" where
  "client_send_ack c data datalen w =
     and_then (load (clients w) c) (\<lambda>cl.
     and_then (pthread_mutex_lock (c_lock cl)) (\<lambda>_.
     and_then (create_header_w JEUX_ACK_PKT 0 0 datalen w) (\<lambda>(pkt, w).
     and_then (proto_send_packet (c_fd cl) pkt data (sy w)) (\<lambda>(ret, s). Inr (ret, w\<lparr>sy := s\<rparr>)))))"

definition client_send_nack :: "addr \<Rightarrow> int act" where
  "client_send_nack c w =
     and_then (load (clients w) c) (\<lambda>cl.
     and_then (pthread_mutex_lock (c_lock cl)) (\<lambda>_.
     and_then (create_header_w JEUX_NACK_PKT 0 0 0 w) (\<lambda>(pkt, w).
     and_then (proto_send_packet (c_fd cl) pkt None (sy w)) (\<lambda>(ret, s). Inr (ret, w\<lparr>sy := s\<rparr>)))))"

section \<open>Posting results\<close>

text \<open>The floating-point operations are the first argument.\<close>

definition post_player_results :: "fp \<Rightarrow> addr \<Rightarrow> addr \<Rightarrow> GAME_ROLE \<Rightarrow> GAME_ROLE \<Rightarrow> int act" where
  "post_player_results F client opponent client_role win w =
     and_then (sem_wait_w CLIENT_UPDATE_ELO w) (\<lambda>w.
     let (c1, c2) = (if client_role = FIRST_PLAYER_ROLE then (client, opponent) else (opponent, client)) in
     and_then (client_get_player (Some c1) w) (\<lambda>player1.
     and_then (client_get_player (Some c2) w) (\<lambda>player2.
     if player1 = None \<or> player2 = None then Inr (-1, sem_post_w CLIENT_UPDATE_ELO w)
     else
       and_then (player_post_result F (players w) player1 player2 (role_val win)) (\<lambda>h.
       Inr (0, sem_post_w CLIENT_UPDATE_ELO (w\<lparr>players := h\<rparr>))))))"


section \<open>The pool of identifiers\<close>

text \<open>
  A client's array of identifiers agrees with its list: an identifier is marked as taken exactly
  when a node of the list has it, each node has an identifier and an invitation of its own.
\<close>

definition pool_of :: "INVITATION_NODE list \<Rightarrow> int list \<Rightarrow> bool" where
  "pool_of ns ids \<longleftrightarrow> (\<forall>k < length ids. ids ! k = (if int k \<in> n_id ` set ns then -1 else int k))"

definition ids_ok :: "CLIENT \<Rightarrow> bool" where
  "ids_ok cl \<longleftrightarrow> pool_of (invite_list cl) (available_ids cl)
     \<and> current_id_size cl = int (length (available_ids cl)) \<and> 0 < length (available_ids cl)
     \<and> id_usage cl = int (length (invite_list cl))
     \<and> (\<forall>n \<in> set (invite_list cl). 0 \<le> n_id n \<and> n_id n < int (length (available_ids cl)))
     \<and> distinct (map n_id (invite_list cl)) \<and> distinct (map n_inv (invite_list cl))"

text \<open>The lowest identifier that is not in use.\<close>

definition free_id :: "INVITATION_NODE list \<Rightarrow> nat" where
  "free_id ns = (LEAST k. int k \<notin> n_id ` set ns)"

lemma free_id_le: "free_id ns \<le> length ns"
proof -
  have "card (n_id ` set ns) < card (int ` {..length ns})"
    using card_image_le [of "set ns" n_id] card_length [of ns] by (simp add: card_image)
  then have "\<not> int ` {..length ns} \<subseteq> n_id ` set ns"
    using card_mono [of "n_id ` set ns" "int ` {..length ns}"] by fastforce
  then obtain k where "k \<le> length ns" "int k \<notin> n_id ` set ns" by auto
  then show ?thesis unfolding free_id_def using Least_le [of "\<lambda>k. int k \<notin> n_id ` set ns" k] by linarith
qed

lemma free_id_free: "int (free_id ns) \<notin> n_id ` set ns"
proof -
  have "finite (nat ` n_id ` set ns)" by simp
  then obtain k where "k \<notin> nat ` n_id ` set ns" using ex_new_if_finite infinite_UNIV_nat by blast
  then have "int k \<notin> n_id ` set ns" by (metis image_eqI nat_int)
  then show ?thesis unfolding free_id_def by (rule LeastI)
qed

lemma below_free_id: "k < free_id ns \<Longrightarrow> int k \<in> n_id ` set ns"
  unfolding free_id_def using not_less_Least by blast

lemma take_first_id_at:
  "k < length xs \<Longrightarrow> \<forall>j < k. xs ! j = -1 \<Longrightarrow> xs ! k \<noteq> -1 \<Longrightarrow> take_first_id xs = (Some (xs ! k), xs[k := -1])"
proof (induction xs arbitrary: k)
  case Nil
  then show ?case by simp
next
  case (Cons x xs)
  show ?case
  proof (cases k)
    case 0
    with Cons.prems show ?thesis by simp
  next
    case (Suc m)
    have "x = -1" using Cons.prems(2) Suc by auto
    moreover have "take_first_id xs = (Some (xs ! m), xs[m := -1])"
      using Cons.prems Suc by (intro Cons.IH) auto
    ultimately show ?thesis using Suc by simp
  qed
qed

lemma take_first_id_pool:
  assumes "pool_of ns ids" and "free_id ns < length ids"
  shows "take_first_id ids = (Some (int (free_id ns)), ids[free_id ns := -1])"
proof -
  have "ids ! free_id ns = int (free_id ns)" using assms free_id_free by (simp add: pool_of_def)
  moreover have "\<forall>j < free_id ns. ids ! j = -1" using assms below_free_id by (auto simp: pool_of_def)
  ultimately show ?thesis using take_first_id_at [of "free_id ns" ids] assms(2) by simp
qed

lemma pool_of_take: "pool_of ns ids \<Longrightarrow> pool_of (\<lparr>n_id = int k, n_inv = i\<rparr> # ns) (ids[k := -1])"
  by (auto simp: pool_of_def nth_update_iff)

lemma pool_of_grow:
  assumes "pool_of ns ids" and "\<forall>n \<in> set ns. n_id n < int (length ids)"
  shows "pool_of ns (ids @ map int [length ids..<m])"
  using assms by (force simp: pool_of_def nth_append)

text \<open>The state in which an identifier was taken but its node is not yet in the list.\<close>

definition reserve :: "CLIENT \<Rightarrow> CLIENT" where
  "reserve cl =
     (let ids = (if id_usage cl \<ge> current_id_size cl
                 then available_ids cl @ map int [length (available_ids cl)..<2 * length (available_ids cl)]
                 else available_ids cl) in
      cl\<lparr>available_ids := ids[free_id (invite_list cl) := -1], id_usage := id_usage cl + 1,
         current_id_size := int (length ids)\<rparr>)"

lemma reserve_fields [simp]:
  "c_lock (reserve cl) = c_lock cl" "c_fd (reserve cl) = c_fd cl"
  "c_ref_count (reserve cl) = c_ref_count cl" "c_player (reserve cl) = c_player cl"
  "logged_in (reserve cl) = logged_in cl" "invite_list (reserve cl) = invite_list cl"
  by (simp_all add: reserve_def Let_def)

lemma length_le_pool:
  assumes "ids_ok cl"
  shows "length (invite_list cl) \<le> length (available_ids cl)"
proof -
  have "card (n_id ` set (invite_list cl)) \<le> card (int ` {..<length (available_ids cl)})"
  proof (rule card_mono)
    show "n_id ` set (invite_list cl) \<subseteq> int ` {..<length (available_ids cl)}"
    proof
      fix x
      assume "x \<in> n_id ` set (invite_list cl)"
      then have "0 \<le> x \<and> x < int (length (available_ids cl))" using assms by (auto simp: ids_ok_def)
      then show "x \<in> int ` {..<length (available_ids cl)}" by (intro image_eqI [of _ _ "nat x"]) auto
    qed
  qed simp
  moreover have "card (n_id ` set (invite_list cl)) = length (invite_list cl)"
    using assms distinct_card [of "map n_id (invite_list cl)"] by (simp add: ids_ok_def)
  ultimately show ?thesis by (simp add: card_image)
qed

lemma free_id_grown:
  assumes "ids_ok cl"
  shows "free_id (invite_list cl) < length (available_ids cl) + length (available_ids cl)"
proof -
  have "0 < length (available_ids cl)" using assms by (simp add: ids_ok_def)
  then show ?thesis using free_id_le [of "invite_list cl"] length_le_pool [OF assms] by linarith
qed

lemma ids_ok_reserve:
  assumes "ids_ok cl" and "i \<notin> n_inv ` set (invite_list cl)"
  shows "ids_ok ((reserve cl)\<lparr>invite_list := \<lparr>n_id = int (free_id (invite_list cl)), n_inv = i\<rparr> # invite_list cl\<rparr>)"
proof -
  let ?ns = "invite_list cl"
  let ?ids = "if id_usage cl \<ge> current_id_size cl
    then available_ids cl @ map int [length (available_ids cl)..<2 * length (available_ids cl)]
    else available_ids cl"
  note ok = assms(1) [unfolded ids_ok_def]
  have pool: "pool_of ?ns ?ids" using ok pool_of_grow [of ?ns "available_ids cl"] by auto
  have "free_id ?ns < length ?ids"
    using ok free_id_le [of ?ns] free_id_grown [OF assms(1)] by (cases "id_usage cl \<ge> current_id_size cl") auto
  moreover have "\<forall>n \<in> set ?ns. n_id n < int (length ?ids)" using ok by force
  moreover have "0 < length ?ids" using ok by auto
  ultimately show ?thesis
    using ok pool_of_take [OF pool, of "free_id ?ns" i] free_id_free [of ?ns] assms(2)
    by (auto simp: ids_ok_def reserve_def Let_def)
qed

lemma get_available_id_ok:
  assumes "clients w c = Some cl" and "\<not> c_lock cl" and "ids_ok cl" and "no_oom (sy w)"
  shows "\<exists>s. env_same (sy w) s \<and> outp s = outp (sy w) \<and>
    get_available_id c w = Inr (int (free_id (invite_list cl)), (set_client c (reserve cl) w)\<lparr>sy := s\<rparr>)"
proof (cases "id_usage cl \<ge> current_id_size cl")
  case True
  let ?m = "length (available_ids cl)"
  let ?ids = "available_ids cl @ map int [?m..<2 * ?m]"
  note ok = assms(3) [unfolded ids_ok_def]
  have f: "free_id (invite_list cl) < length ?ids"
    using free_id_grown [OF assms(3)] by simp
  have "pool_of (invite_list cl) ?ids" using ok by (intro pool_of_grow) auto
  note t = take_first_id_pool [OF this f]
  have "nat (2 * int ?m) = 2 * ?m" by simp
  with True t ok assms show ?thesis
    by (intro exI [of _ "(sy w)\<lparr>res_n := Suc (res_n (sy w))\<rparr>"])
      (cases cl; simp add: get_available_id_def reserve_def Let_def request_w_ok set_client_def)
next
  case False
  note ok = assms(3) [unfolded ids_ok_def]
  have f: "free_id (invite_list cl) < length (available_ids cl)"
    using False ok free_id_le [of "invite_list cl"] by simp
  note t = take_first_id_pool [OF conjunct1 [OF ok] f]
  from False t ok assms show ?thesis
    by (intro exI [of _ "sy w"])
      (cases cl; simp add: get_available_id_def reserve_def Let_def set_client_def)
qed

end
