(* ===== verification/Invitation.thy ===== *)
theory Invitation
  imports Client
begin

text \<open>
  The invitation component (\<^verbatim>\<open>src/invitation.c\<close>): an offer of one client to another to play, and the
  game once it is accepted. Every function of the file is a definition here. Dropping the last
  reference of an invitation drops its references to the two clients; that function of the client
  component is a parameter of \<open>inv_unref\<close>, because the two call each other.
\<close>

section \<open>Operations\<close>

definition inv_ref :: "addr \<Rightarrow> world \<Rightarrow> world result" where
  "inv_ref i w =
     and_then (load (invs w) i) (\<lambda>inv.
     and_then (pthread_mutex_lock (i_lock inv)) (\<lambda>m.
     Inr (set_inv i (inv\<lparr>i_ref_count := i_ref_count inv + 1, i_lock := pthread_mutex_unlock m\<rparr>) w)))"

definition inv_create :: "addr \<Rightarrow> addr \<Rightarrow> GAME_ROLE \<Rightarrow> GAME_ROLE \<Rightarrow> ptr act" where
  "inv_create src tgt source_role target_role w =
     (let (ok, w) = request_w w in
      if \<not> ok then Inr (None, w)
      else
        let i = next_addr w;
            w = set_inv i \<lparr>i_state = INV_OPEN_STATE, i_ref_count = 0, i_source = src, i_target = tgt,
                  i_game = None, i_source_role = source_role, i_target_role = target_role,
                  i_lock = False\<rparr> (w\<lparr>next_addr := Suc i\<rparr>) in
        and_then (inv_ref i w) (\<lambda>w.
        and_then (client_ref src w) (\<lambda>w.
        and_then (client_ref tgt w) (\<lambda>w.
        let (ok, w) = request_w w in
        if \<not> ok then Inr (None, w\<lparr>invs := (invs w)(i := None)\<rparr>) else Inr (Some i, w)))))"

definition game_unref_w :: "addr \<Rightarrow> world \<Rightarrow> world result" where
  "game_unref_w g w = and_then (load (games w) g) (\<lambda>x.
     and_then (game_unref x) (\<lambda>r. Inr (w\<lparr>games := (games w)(g := r)\<rparr>)))"

definition inv_unref :: "(addr \<Rightarrow> world \<Rightarrow> world result) \<Rightarrow> addr \<Rightarrow> world \<Rightarrow> world result" where
  "inv_unref client_unref i w =
     and_then (load (invs w) i) (\<lambda>inv.
     and_then (pthread_mutex_lock (i_lock inv)) (\<lambda>m.
     let inv = inv\<lparr>i_ref_count := i_ref_count inv - 1, i_lock := pthread_mutex_unlock m\<rparr>;
         w = set_inv i inv w in
     if i_ref_count inv = 0 then
       and_then (case i_game inv of None \<Rightarrow> Inr w | Some g \<Rightarrow> game_unref_w g w) (\<lambda>w.
       and_then (client_unref (i_source inv) w) (\<lambda>w.
       and_then (client_unref (i_target inv) w) (\<lambda>w.
       Inr (w\<lparr>invs := (invs w)(i := None)\<rparr>))))
     else Inr w))"

text \<open>The first three accessors accept NULL, the last two do not.\<close>

definition inv_get_source :: "ptr \<Rightarrow> world \<Rightarrow> ptr result" where
  "inv_get_source p w = (case p of None \<Rightarrow> Inr None
     | Some i \<Rightarrow> and_then (load (invs w) i) (\<lambda>inv. Inr (Some (i_source inv))))"

definition inv_get_target :: "ptr \<Rightarrow> world \<Rightarrow> ptr result" where
  "inv_get_target p w = (case p of None \<Rightarrow> Inr None
     | Some i \<Rightarrow> and_then (load (invs w) i) (\<lambda>inv. Inr (Some (i_target inv))))"

definition inv_get_game :: "ptr \<Rightarrow> world \<Rightarrow> ptr result" where
  "inv_get_game p w = (case p of None \<Rightarrow> Inr None
     | Some i \<Rightarrow> and_then (load (invs w) i) (\<lambda>inv. Inr (i_game inv)))"

definition inv_get_source_role :: "ptr \<Rightarrow> world \<Rightarrow> GAME_ROLE result" where
  "inv_get_source_role p w = and_then (deref (invs w) p) (\<lambda>inv. Inr (i_source_role inv))"

definition inv_get_target_role :: "ptr \<Rightarrow> world \<Rightarrow> GAME_ROLE result" where
  "inv_get_target_role p w = and_then (deref (invs w) p) (\<lambda>inv. Inr (i_target_role inv))"

definition inv_accept :: "ptr \<Rightarrow> int act" where
  "inv_accept p w =
     (case p of
        None \<Rightarrow> Inr (-1, w)
      | Some i \<Rightarrow>
          and_then (load (invs w) i) (\<lambda>inv.
          if i_state inv \<noteq> INV_OPEN_STATE then Inr (-1, w)
          else
            let inv = inv\<lparr>i_state := INV_ACCEPTED_STATE\<rparr> in
            and_then (game_create (sy w)) (\<lambda>(r, s).
            let w = w\<lparr>sy := s\<rparr> in
            case r of
              None \<Rightarrow> Inr (-1, set_inv i (inv\<lparr>i_game := None\<rparr>) w)
            | Some gm \<Rightarrow>
                let g = next_addr w; w = set_game g gm (w\<lparr>next_addr := Suc g\<rparr>) in
                Inr (0, set_inv i (inv\<lparr>i_game := Some g\<rparr>) w))))"

definition inv_close :: "ptr \<Rightarrow> GAME_ROLE \<Rightarrow> int act" where
  "inv_close p r w =
     (case p of
        None \<Rightarrow> Inr (-1, w)
      | Some i \<Rightarrow>
          and_then (load (invs w) i) (\<lambda>inv.
          if i_state inv \<noteq> INV_OPEN_STATE \<and> i_state inv \<noteq> INV_ACCEPTED_STATE then Inr (-1, w)
          else if i_state inv = INV_ACCEPTED_STATE then
            (case i_game inv of
               None \<Rightarrow> Inr (-1, w)
             | Some g \<Rightarrow>
                 if r = NULL_ROLE then Inr (-1, w)
                 else
                   and_then (load (games w) g) (\<lambda>gm.
                   let (_, gm) = game_resign gm r in
                   Inr (0, set_inv i (inv\<lparr>i_state := INV_CLOSED_STATE\<rparr>) (set_game g gm w))))
          else if r \<noteq> NULL_ROLE then Inr (-1, w)
          else if i_game inv \<noteq> None then Inr (-1, w)
          else Inr (0, set_inv i (inv\<lparr>i_state := INV_CLOSED_STATE\<rparr>) w)))"

end
