(* ===== verification/Client_Invitations.thy ===== *)
theory Client_Invitations
  imports Invitation
begin

text \<open>
  The second part of \<^verbatim>\<open>src/client.c\<close>: the list of a client's invitations, the handlers that make,
  revoke, decline and accept invitations, resign games and make moves, logging out, and dropping a
  reference to a client. Logging a client out can drop invitations, which drop references to
  clients, which can log a client out: the function that drops a reference to a client is a
  parameter of the others, and is closed by recursion on a bound on the depth of the calls. The
  invariant of the server theory shows that this recursion never goes deeper than one call.
\<close>

section \<open>The list of invitations\<close>

definition client_add_invitation :: "addr \<Rightarrow> addr \<Rightarrow> int act" where
  "client_add_invitation c i w =
     and_then (sem_wait_w CLIENT_INVITE_SEM w) (\<lambda>w.
     and_then (must_alloc w) (\<lambda>w.
     and_then (get_available_id c w) (\<lambda>(n, w).
     and_then (inv_ref i w) (\<lambda>w.
     and_then (load (clients w) c) (\<lambda>cl.
     and_then (pthread_mutex_lock (c_lock cl)) (\<lambda>m.
     let w = set_client c (cl\<lparr>invite_list := \<lparr>n_id = n, n_inv = i\<rparr> # invite_list cl,
                             c_lock := pthread_mutex_unlock m\<rparr>) w in
     Inr (n, sem_post_w CLIENT_INVITE_SEM w)))))))"

text \<open>Unlinking the first node of an invitation: its identifier and the list without it.\<close>

fun unlink_inv :: "INVITATION_NODE list \<Rightarrow> addr \<Rightarrow> (int \<times> INVITATION_NODE list) option" where
  "unlink_inv [] i = None"
| "unlink_inv (n # ns) i =
     (if n_inv n = i then Some (n_id n, ns)
      else map_option (\<lambda>(k, ms). (k, n # ms)) (unlink_inv ns i))"

definition client_remove_invitation ::
  "(addr \<Rightarrow> world \<Rightarrow> world result) \<Rightarrow> addr \<Rightarrow> addr \<Rightarrow> int act" where
  "client_remove_invitation client_unref c i w =
     and_then (sem_wait_w CLIENT_INVITE_SEM w) (\<lambda>w.
     and_then (load (clients w) c) (\<lambda>cl.
     case unlink_inv (invite_list cl) i of
       None \<Rightarrow> Inr (-1, sem_post_w CLIENT_INVITE_SEM w)
     | Some (n, rest) \<Rightarrow>
         and_then (inv_unref client_unref i (set_client c (cl\<lparr>invite_list := rest\<rparr>) w)) (\<lambda>w.
         and_then (purge_id c n w) (\<lambda>w.
         Inr (n, sem_post_w CLIENT_INVITE_SEM w)))))"

section \<open>Making, revoking, declining\<close>

definition client_make_invitation ::
  "(addr \<Rightarrow> world \<Rightarrow> world result) \<Rightarrow> addr \<Rightarrow> addr \<Rightarrow> GAME_ROLE \<Rightarrow> GAME_ROLE \<Rightarrow> int act" where
  "client_make_invitation client_unref src tgt source_role target_role w =
     and_then (sem_wait_w CLIENT_INVITE_OP_SEM w) (\<lambda>w.
     and_then (inv_create src tgt source_role target_role w) (\<lambda>(r, w).
     case r of
       None \<Rightarrow> Inr (-1, sem_post_w CLIENT_INVITE_OP_SEM w)
     | Some i \<Rightarrow>
         and_then (client_add_invitation src i w) (\<lambda>(source_id, w).
         if source_id = -1 then
           and_then (inv_unref client_unref i w) (\<lambda>w. Inr (-1, sem_post_w CLIENT_INVITE_OP_SEM w))
         else
           and_then (client_add_invitation tgt i w) (\<lambda>(target_id, w).
           if target_id = -1 then Inr (-1, sem_post_w CLIENT_INVITE_OP_SEM w)
           else
             and_then (load (clients w) src) (\<lambda>cl.
             and_then (deref (players w) (c_player cl)) (\<lambda>pl.
             case player_get_name pl of
               None \<Rightarrow> Inl NullDeref
             | Some playername \<Rightarrow>
                 and_then (create_header_w JEUX_INVITED_PKT target_id (role_val target_role)
                     (int (length playername)) w) (\<lambda>(pkt, w).
                 and_then (client_send_packet tgt pkt (Some (bytes_of playername)) w) (\<lambda>(_, w).
                 and_then (inv_unref client_unref i w) (\<lambda>w.
                 Inr (source_id, sem_post_w CLIENT_INVITE_OP_SEM w))))))))))"

text \<open>Whoever has the invitation in its list under this identifier can revoke it.\<close>

definition client_revoke_invitation :: "(addr \<Rightarrow> world \<Rightarrow> world result) \<Rightarrow> addr \<Rightarrow> int \<Rightarrow> int act" where
  "client_revoke_invitation client_unref c n w =
     and_then (sem_wait_w CLIENT_INVITE_OP_SEM w) (\<lambda>w.
     and_then (client_get_invitation c n w) (\<lambda>p.
     and_then (inv_close p NULL_ROLE w) (\<lambda>(r, w).
     if r = -1 then Inr (-1, sem_post_w CLIENT_INVITE_OP_SEM w)
     else
       and_then (assert_c (p \<noteq> None) NullDeref) (\<lambda>_.
       let i = the p in
       and_then (inv_get_target p w) (\<lambda>t.
       and_then (assert_c (t \<noteq> None) NullDeref) (\<lambda>_.
       let tgt = the t in
       and_then (client_get_invitation_id tgt i w) (\<lambda>target_id.
       and_then (create_header_w JEUX_REVOKED_PKT target_id 0 0 w) (\<lambda>(pkt, w).
       and_then (client_send_packet tgt pkt None w) (\<lambda>(r, w).
       if r = -1 then Inr (-1, sem_post_w CLIENT_INVITE_OP_SEM w)
       else
         and_then (client_remove_invitation client_unref c i w) (\<lambda>(r, w).
         if r = -1 then Inr (-1, sem_post_w CLIENT_INVITE_OP_SEM w)
         else
           and_then (client_remove_invitation client_unref tgt i w) (\<lambda>(r, w).
           if r = -1 then Inr (-1, sem_post_w CLIENT_INVITE_OP_SEM w)
           else Inr (0, sem_post_w CLIENT_INVITE_OP_SEM w))))))))))))"

text \<open>The results of sending and of the two removals are only reported, not acted upon.\<close>

definition client_decline_invitation :: "(addr \<Rightarrow> world \<Rightarrow> world result) \<Rightarrow> addr \<Rightarrow> int \<Rightarrow> int act" where
  "client_decline_invitation client_unref c n w =
     and_then (sem_wait_w CLIENT_INVITE_OP_SEM w) (\<lambda>w.
     and_then (client_get_invitation c n w) (\<lambda>p.
     and_then (inv_close p NULL_ROLE w) (\<lambda>(r, w).
     if r = -1 then Inr (-1, sem_post_w CLIENT_INVITE_OP_SEM w)
     else
       and_then (assert_c (p \<noteq> None) NullDeref) (\<lambda>_.
       let i = the p in
       and_then (inv_get_source p w) (\<lambda>t.
       and_then (assert_c (t \<noteq> None) NullDeref) (\<lambda>_.
       let src = the t in
       and_then (client_get_invitation_id src i w) (\<lambda>source_id.
       and_then (create_header_w JEUX_DECLINED_PKT source_id 0 0 w) (\<lambda>(pkt, w).
       and_then (client_send_packet src pkt None w) (\<lambda>(_, w).
       and_then (client_remove_invitation client_unref c i w) (\<lambda>(_, w).
       and_then (client_remove_invitation client_unref src i w) (\<lambda>(_, w).
       Inr (0, sem_post_w CLIENT_INVITE_OP_SEM w))))))))))))"


section \<open>Accepting, resigning, moving\<close>

text \<open>
  The result is the return value and the string stored through \<open>strp\<close> (\<open>None\<close> for NULL): the
  initial state of the game when the accepting client moves first.
\<close>

definition client_accept_invitation :: "addr \<Rightarrow> int \<Rightarrow> (int \<times> string option) act" where
  "client_accept_invitation c n w =
     and_then (sem_wait_w CLIENT_INVITE_OP_SEM w) (\<lambda>w.
     and_then (client_get_invitation c n w) (\<lambda>p.
     and_then (inv_get_target p w) (\<lambda>t.
     if t \<noteq> Some c then Inr ((-1, None), sem_post_w CLIENT_INVITE_OP_SEM w)
     else
       and_then (inv_accept p w) (\<lambda>(r, w).
       if r = -1 then Inr ((-1, None), sem_post_w CLIENT_INVITE_OP_SEM w)
       else
         and_then (inv_get_game p w) (\<lambda>game.
         and_then (inv_get_source p w) (\<lambda>src.
         and_then (assert_c (p \<noteq> None \<and> src \<noteq> None \<and> game \<noteq> None) NullDeref) (\<lambda>_.
         and_then (client_get_invitation_id (the src) (the p) w) (\<lambda>source_id.
         and_then (inv_get_target_role p w) (\<lambda>role.
         and_then (load (games w) (the game)) (\<lambda>gm.
         and_then (game_unparse_state gm (sy w)) (\<lambda>(str, gm, s).
         let w = set_game (the game) gm (w\<lparr>sy := s\<rparr>);
             (strp, source_state) = (if role \<noteq> FIRST_PLAYER_ROLE then (None, str) else (str, None)) in
         and_then (assert_c (role = FIRST_PLAYER_ROLE \<or> str \<noteq> None) NullDeref) (\<lambda>_.
         let source_length = (if role \<noteq> FIRST_PLAYER_ROLE then int (length (the str)) else 0) in
         and_then (create_header_w JEUX_ACCEPTED_PKT source_id 0 source_length w) (\<lambda>(pkt, w).
         and_then (client_send_packet (the src) pkt (map_option bytes_of source_state) w) (\<lambda>(r, w).
         if r = -1 then Inr ((-1, None), sem_post_w CLIENT_INVITE_OP_SEM w)
         else Inr ((0, strp), sem_post_w CLIENT_INVITE_OP_SEM w)))))))))))))))"

text \<open>
  The role and opponent of a client in an invitation; \<open>None\<close> when it is neither source nor target,
  as it is when there is no invitation.
\<close>

definition parties :: "addr \<Rightarrow> ptr \<Rightarrow> world \<Rightarrow> (GAME_ROLE \<times> addr \<times> GAME_ROLE) option result" where
  "parties c p w =
     and_then (inv_get_source p w) (\<lambda>src.
     and_then (inv_get_target p w) (\<lambda>tgt.
     if Some c = src then
       and_then (inv_get_source_role p w) (\<lambda>r.
       and_then (inv_get_target_role p w) (\<lambda>opp. Inr (Some (r, the tgt, opp))))
     else if Some c = tgt then
       and_then (inv_get_target_role p w) (\<lambda>r.
       and_then (inv_get_source_role p w) (\<lambda>opp. Inr (Some (r, the src, opp))))
     else Inr None))"

definition client_resign_game :: "fp \<Rightarrow> (addr \<Rightarrow> world \<Rightarrow> world result) \<Rightarrow> addr \<Rightarrow> int \<Rightarrow> int act" where
  "client_resign_game F client_unref c n w =
     and_then (sem_wait_w CLIENT_INVITE_OP_SEM w) (\<lambda>w.
     and_then (client_get_invitation c n w) (\<lambda>p.
     and_then (parties c p w) (\<lambda>q.
     case q of
       None \<Rightarrow> Inr (-1, sem_post_w CLIENT_INVITE_OP_SEM w)
     | Some (my_role, opponent, opp_role) \<Rightarrow>
         and_then (inv_close p my_role w) (\<lambda>(r, w).
         if r = -1 then Inr (-1, sem_post_w CLIENT_INVITE_OP_SEM w)
         else
           let i = the p in
           and_then (client_get_invitation_id opponent i w) (\<lambda>opponent_id.
           and_then (create_header_w JEUX_RESIGNED_PKT opponent_id 0 0 w) (\<lambda>(pkt, w).
           and_then (client_send_packet opponent pkt None w) (\<lambda>(r, w).
           if r \<noteq> 0 then Inr (-1, sem_post_w CLIENT_INVITE_OP_SEM w)
           else
             and_then (post_player_results F c opponent my_role opp_role w) (\<lambda>(r, w).
             if r = -1 then Inr (-1, sem_post_w CLIENT_INVITE_OP_SEM w)
             else
               and_then (client_remove_invitation client_unref c i w) (\<lambda>(r, w).
               if r = -1 then Inr (-1, sem_post_w CLIENT_INVITE_OP_SEM w)
               else
                 and_then (client_remove_invitation client_unref opponent i w) (\<lambda>(r, w).
                 if r = -1 then Inr (-1, sem_post_w CLIENT_INVITE_OP_SEM w)
                 else Inr (0, sem_post_w CLIENT_INVITE_OP_SEM w)))))))))))"

text \<open>
  The last part of a move, when the game is over: both players are told, the result is posted,
  and the invitation is removed from both lists.
\<close>

definition finish_game ::
  "fp \<Rightarrow> (addr \<Rightarrow> world \<Rightarrow> world result) \<Rightarrow> addr \<Rightarrow> int \<Rightarrow> addr \<Rightarrow> int \<Rightarrow> GAME_ROLE \<Rightarrow> addr \<Rightarrow> GAME_ROLE
     \<Rightarrow> int act" where
  "finish_game F client_unref c n opponent opponent_id my_role i win w =
     and_then (create_header_w JEUX_ENDED_PKT opponent_id (role_val win) 0 w) (\<lambda>(pkt, w).
     and_then (client_send_packet opponent pkt None w) (\<lambda>(r, w).
     if r = -1 then Inr (-1, sem_post_w CLIENT_INVITE_OP_SEM w)
     else
       and_then (client_send_packet c (pkt\<lparr>h_id := word_of_int n\<rparr>) None w) (\<lambda>(r, w).
       if r = -1 then Inr (-1, sem_post_w CLIENT_INVITE_OP_SEM w)
       else
         and_then (post_player_results F c opponent my_role win w) (\<lambda>(_, w).
         and_then (client_remove_invitation client_unref c i w) (\<lambda>(r, w).
         if r = -1 then Inr (-1, sem_post_w CLIENT_INVITE_OP_SEM w)
         else
           and_then (client_remove_invitation client_unref opponent i w) (\<lambda>(r, w).
           if r = -1 then Inr (-1, sem_post_w CLIENT_INVITE_OP_SEM w)
           else Inr (0, sem_post_w CLIENT_INVITE_OP_SEM w)))))))"

text \<open>The part of a move after it was applied: the opponent is told, and the end of the game noticed.\<close>

definition announce_move ::
  "fp \<Rightarrow> (addr \<Rightarrow> world \<Rightarrow> world result) \<Rightarrow> addr \<Rightarrow> int \<Rightarrow> addr \<Rightarrow> GAME_ROLE \<Rightarrow> addr \<Rightarrow> addr \<Rightarrow> int act" where
  "announce_move F client_unref c n opponent my_role i g w =
     and_then (load (games w) g) (\<lambda>gm.
     and_then (game_unparse_state gm (sy w)) (\<lambda>(state, gm, s).
     let w = set_game g gm (w\<lparr>sy := s\<rparr>) in
     and_then (client_get_invitation_id opponent i w) (\<lambda>opponent_id.
     and_then (assert_c (state \<noteq> None) NullDeref) (\<lambda>_.
     and_then (create_header_w JEUX_MOVED_PKT opponent_id 0 (int (length (the state))) w) (\<lambda>(pkt, w).
     and_then (client_send_packet opponent pkt (map_option bytes_of state) w) (\<lambda>(r, w).
     if r = -1 then Inr (-1, sem_post_w CLIENT_INVITE_OP_SEM w)
     else
       and_then (load (games w) g) (\<lambda>gm.
       and_then (game_is_over gm) (\<lambda>(over, gm).
       let w = set_game g gm w in
       if over = 0 then Inr (0, sem_post_w CLIENT_INVITE_OP_SEM w)
       else
         finish_game F client_unref c n opponent opponent_id my_role i (game_get_winner gm) w))))))))"

definition client_make_move :: "fp \<Rightarrow> (addr \<Rightarrow> world \<Rightarrow> world result) \<Rightarrow> addr \<Rightarrow> int \<Rightarrow> string \<Rightarrow> int act" where
  "client_make_move F client_unref c n str w =
     and_then (sem_wait_w CLIENT_INVITE_OP_SEM w) (\<lambda>w.
     and_then (client_get_invitation c n w) (\<lambda>p.
     and_then (inv_get_game p w) (\<lambda>game.
     case game of
       None \<Rightarrow> Inr (-1, sem_post_w CLIENT_INVITE_OP_SEM w)
     | Some g \<Rightarrow>
         and_then (parties c p w) (\<lambda>q.
         case q of
           None \<Rightarrow> Inr (-1, sem_post_w CLIENT_INVITE_OP_SEM w)
         | Some (my_role, opponent, _) \<Rightarrow>
             and_then (load (games w) g) (\<lambda>gm.
             let (mv, s) = game_parse_move gm my_role str (sy w); w = w\<lparr>sy := s\<rparr> in
             case mv of
               None \<Rightarrow> Inr (-1, sem_post_w CLIENT_INVITE_OP_SEM w)
             | Some mv \<Rightarrow>
                 and_then (game_apply_move gm mv) (\<lambda>(r, gm).
                 let w = set_game g gm w in
                 if r = -1 then Inr (-1, sem_post_w CLIENT_INVITE_OP_SEM w)
                 else announce_move F client_unref c n opponent my_role (the p) g w))))))"

section \<open>Logging out and dropping references\<close>

text \<open>
  The loop over the client's invitations. The pointer to the next node is read before the node is
  processed; a node that is no longer linked when it is visited has been freed.
\<close>

fun logout_loop ::
  "fp \<Rightarrow> (addr \<Rightarrow> world \<Rightarrow> world result) \<Rightarrow> addr \<Rightarrow> INVITATION_NODE list \<Rightarrow> world \<Rightarrow> world result" where
  "logout_loop F client_unref c [] w = Inr w"
| "logout_loop F client_unref c (node # rest) w =
     and_then (load (clients w) c) (\<lambda>cl.
     and_then (assert_c (node \<in> set (invite_list cl)) UseAfterFree) (\<lambda>_.
     and_then (inv_get_game (Some (n_inv node)) w) (\<lambda>game.
     and_then (inv_get_source (Some (n_inv node)) w) (\<lambda>src.
     and_then (if game \<noteq> None then client_resign_game F client_unref c (n_id node) w
               else if src = Some c then client_revoke_invitation client_unref c (n_id node) w
               else client_decline_invitation client_unref c (n_id node) w) (\<lambda>(_, w).
     logout_loop F client_unref c rest w)))))"

definition client_logout :: "fp \<Rightarrow> (addr \<Rightarrow> world \<Rightarrow> world result) \<Rightarrow> addr \<Rightarrow> int act" where
  "client_logout F client_unref c w =
     and_then (load (clients w) c) (\<lambda>cl.
     if logged_in cl \<noteq> CLIENT_LOGGED_IN then Inr (-1, w)
     else
       and_then (sem_wait_w CLIENT_LOGOUT_SEM w) (\<lambda>w.
       and_then (logout_loop F client_unref c (invite_list cl) w) (\<lambda>w.
       and_then (load (clients w) c) (\<lambda>cl.
       and_then (assert_c (c_player cl \<noteq> None) NullDeref) (\<lambda>_.
       and_then (player_unref_w (the (c_player cl)) w) (\<lambda>w.
       and_then (with_client c (\<lambda>cl. cl\<lparr>logged_in := CLIENT_LOGGED_OUT\<rparr>) w) (\<lambda>w.
       Inr (0, sem_post_w CLIENT_LOGOUT_SEM w))))))))"

fun client_unref_n :: "fp \<Rightarrow> nat \<Rightarrow> addr \<Rightarrow> world \<Rightarrow> world result" where
  "client_unref_n F 0 c w = Inl OutOfFuel"
| "client_unref_n F (Suc n) c w =
     and_then (load (clients w) c) (\<lambda>cl.
     and_then (pthread_mutex_lock (c_lock cl)) (\<lambda>m.
     let cl = cl\<lparr>c_ref_count := c_ref_count cl - 1, c_lock := pthread_mutex_unlock m\<rparr>;
         w = set_client c cl w in
     if c_ref_count cl = 0 then
       and_then (if logged_in cl = CLIENT_LOGGED_IN then client_logout F (client_unref_n F n) c w
                 else Inr (0, w)) (\<lambda>(_, w).
       Inr (w\<lparr>clients := (clients w)(c := None)\<rparr>))
     else Inr w))"

text \<open>The bound on the depth of the mutual recursion; the server invariant needs a depth of one.\<close>

definition call_depth :: nat where "call_depth = 3"

definition client_unref :: "fp \<Rightarrow> addr \<Rightarrow> world \<Rightarrow> world result" where
  "client_unref F = client_unref_n F call_depth"

end
