(* ===== verification/Player_Registry.thy ===== *)
theory Player_Registry
  imports World
begin

text \<open>
  The player registry (\<^verbatim>\<open>src/player_registry.c\<close>): the players known to the server, in the order of
  their registration. Every function of the file is a definition here. The registry is shown to
  implement a map from user names to players whose entries persist.
\<close>

section \<open>Operations\<close>

definition preg_init :: "sys \<Rightarrow> PLAYER_REGISTRY option \<times> sys" where
  "preg_init s =
     (let (ok, s) = calloc s in
      if \<not> ok then (None, s)
      else let (_, s) = pthread_mutex_init s in
        (Some \<lparr>pr_mutex = False, pr_list = [], pr_length = 0\<rparr>, s))"

fun preg_fini_loop :: "addr list \<Rightarrow> world \<Rightarrow> world result" where
  "preg_fini_loop [] w = Inr w"
| "preg_fini_loop (a # as) w = and_then (player_unref_w a w) (preg_fini_loop as)"

definition preg_fini :: "world \<Rightarrow> world result" where
  "preg_fini w =
     (case preg w of
        None \<Rightarrow> Inl NullDeref
      | Some pr \<Rightarrow>
          and_then (pthread_mutex_lock (pr_mutex pr)) (\<lambda>_.
          and_then (preg_fini_loop (pr_list pr) w) (\<lambda>w. Inr (w\<lparr>preg := None\<rparr>))))"

text \<open>The search of \<open>preg_register\<close>: the first player whose name is equal.\<close>

fun preg_search :: "PLAYER heap \<Rightarrow> addr list \<Rightarrow> string \<Rightarrow> ptr result" where
  "preg_search h [] name = Inr None"
| "preg_search h (a # as) name =
     and_then (load h a) (\<lambda>p.
     and_then (strcmp_eq (player_get_name p) (Some name)) (\<lambda>eq.
     if eq then Inr (Some a) else preg_search h as name))"

definition preg_register :: "string \<Rightarrow> ptr act" where
  "preg_register name w =
     (case preg w of
        None \<Rightarrow> Inl NullDeref
      | Some pr \<Rightarrow>
          and_then (pthread_mutex_lock (pr_mutex pr)) (\<lambda>m.
          and_then (preg_search (players w) (pr_list pr) name) (\<lambda>found.
          case found of
            Some a \<Rightarrow>
              let w = w\<lparr>preg := Some (pr\<lparr>pr_mutex := pthread_mutex_unlock m\<rparr>)\<rparr> in
              and_then (player_ref_w a w) (\<lambda>w. Inr (Some a, w))
          | None \<Rightarrow>
              and_then (player_create name (sy w)) (\<lambda>(r, s).
              let w = w\<lparr>sy := s\<rparr> in
              case r of
                None \<Rightarrow> Inr (None, w\<lparr>preg := Some (pr\<lparr>pr_mutex := pthread_mutex_unlock m\<rparr>)\<rparr>)
              | Some p \<Rightarrow>
                  let a = next_addr w;
                      w = set_player a p (w\<lparr>next_addr := Suc a\<rparr>);
                      (ok, w) = request_w w in
                  if \<not> ok then
                    Inr (None, w\<lparr>preg := Some (pr\<lparr>pr_mutex := pthread_mutex_unlock m\<rparr>)\<rparr>)
                  else
                    let w = w\<lparr>preg := Some (pr\<lparr>pr_list := pr_list pr @ [a],
                               pr_length := pr_length pr + 1, pr_mutex := pthread_mutex_unlock m\<rparr>)\<rparr> in
                    and_then (player_ref_w a w) (\<lambda>w. Inr (Some a, w))))))"

section \<open>The registry as a map from names to players\<close>

definition name_of :: "PLAYER heap \<Rightarrow> addr \<Rightarrow> string" where
  "name_of h a = the (p_name (the (h a)))"

text \<open>
  The registry is usable: it is unlocked, its players are alive, unlocked and named, no two have
  the same name, and the length is right.
\<close>

definition player_live :: "world \<Rightarrow> addr \<Rightarrow> bool" where
  "player_live w a \<longleftrightarrow> a < next_addr w \<and> (case players w a of None \<Rightarrow> False
     | Some p \<Rightarrow> p_name p \<noteq> None \<and> \<not> p_mutex p \<and> 0 < p_ref_count p)"

definition preg_ok :: "world \<Rightarrow> bool" where
  "preg_ok w \<longleftrightarrow> (case preg w of None \<Rightarrow> False | Some pr \<Rightarrow>
     \<not> pr_mutex pr \<and> pr_length pr = int (length (pr_list pr))
     \<and> (\<forall>a \<in> set (pr_list pr). player_live w a)
     \<and> distinct (map (name_of (players w)) (pr_list pr)))"

definition preg_names :: "world \<Rightarrow> (string \<rightharpoonup> addr)" where
  "preg_names w = map_of (map (\<lambda>a. (name_of (players w) a, a)) (case preg w of None \<Rightarrow> [] | Some pr \<Rightarrow> pr_list pr))"

lemma preg_search_map:
  assumes "\<forall>a \<in> set as. \<exists>p n. h a = Some p \<and> p_name p = Some n"
  shows "preg_search h as name = Inr (map_of (map (\<lambda>a. (name_of h a, a)) as) name)"
  using assms
proof (induction as)
  case Nil
  then show ?case by simp
next
  case (Cons a as)
  then obtain p n where "h a = Some p" "p_name p = Some n" by auto
  with Cons show ?case by (auto simp: player_get_name_def name_of_def)
qed

lemma name_of_upd: "b \<noteq> a \<Longrightarrow> name_of (h(a := x)) b = name_of h b"
  by (simp add: name_of_def)

lemma map_name_of_upd: "a \<notin> set as \<Longrightarrow> map (name_of (h(a := x))) as = map (name_of h) as"
  by (induction as) (auto simp: name_of_upd)

lemma name_of_same: "h a = Some p \<Longrightarrow> p_name q = p_name p \<Longrightarrow> name_of (h(a \<mapsto> q)) = name_of h"
  by (auto simp: name_of_def)

lemma map_of_snoc_new: "m n = None \<Longrightarrow> [n \<mapsto> a] ++ m = m(n \<mapsto> a)"
  by (auto simp: fun_eq_iff map_add_def split: option.splits)

lemma player_create_ok:
  "no_oom s \<Longrightarrow> player_create name s = Inr (Some (new_player name), s\<lparr>res_n := res_n s + 3\<rparr>)"
  by (simp add: player_create_def new_player_def)


lemma preg_okD:
  assumes "preg_ok w" and "preg w = Some pr"
  shows "\<not> pr_mutex pr" "pr_length pr = int (length (pr_list pr))"
    "\<forall>a \<in> set (pr_list pr). player_live w a"
    "distinct (map (name_of (players w)) (pr_list pr))"
    "preg_names w = map_of (map (\<lambda>a. (name_of (players w) a, a)) (pr_list pr))"
  using assms by (simp_all add: preg_ok_def preg_names_def)

lemma preg_ok_Some: "preg_ok w \<Longrightarrow> \<exists>pr. preg w = Some pr"
  by (auto simp: preg_ok_def split: option.splits)

lemma player_liveD: "player_live w a \<Longrightarrow> \<exists>p. players w a = Some p \<and> p_name p = Some (name_of (players w) a)
    \<and> \<not> p_mutex p \<and> 0 < p_ref_count p \<and> a < next_addr w"
  by (auto simp: player_live_def name_of_def split: option.splits)

lemma preg_names_Some:
  assumes "preg_ok w" and "preg_names w n = Some a"
  shows "player_live w a" and "name_of (players w) a = n"
proof -
  from preg_ok_Some [OF assms(1)] obtain pr where "preg w = Some pr" ..
  note d = preg_okD [OF assms(1) this]
  from assms(2) d(5) have "a \<in> set (pr_list pr)" "name_of (players w) a = n"
    by (auto dest!: map_of_SomeD)
  with d(3) show "player_live w a" "name_of (players w) a = n" by auto
qed

lemma preg_names_inj: "preg_ok w \<Longrightarrow> preg_names w m = Some a \<Longrightarrow> preg_names w n = Some a \<Longrightarrow> m = n"
  using preg_names_Some(2) by metis

lemma pr_unlock: "\<not> pr_mutex pr \<Longrightarrow> pr\<lparr>pr_mutex := False\<rparr> = pr"
  by (cases pr) simp

lemma preg_search_names:
  assumes "preg_ok w" and "preg w = Some pr"
  shows "preg_search (players w) (pr_list pr) n = Inr (preg_names w n)"
proof -
  note d = preg_okD [OF assms]
  have "\<forall>a \<in> set (pr_list pr). \<exists>p n. players w a = Some p \<and> p_name p = Some n"
    using d(3) player_liveD by blast
  from preg_search_map [OF this] show ?thesis by (simp add: d(5))
qed

lemma preg_register_found:
  assumes "preg_ok w" and "preg_names w n = Some a" and "players w a = Some p"
  shows "preg_register n w = Inr (Some a, set_player a (p\<lparr>p_ref_count := p_ref_count p + 1\<rparr>) w)"
proof -
  from preg_ok_Some [OF assms(1)] obtain pr where pr: "preg w = Some pr" ..
  have e: "w\<lparr>preg := Some pr\<rparr> = w" using pr by (cases w) simp
  have "\<not> p_mutex p" using player_liveD [OF preg_names_Some(1) [OF assms(1,2)]] assms(3) by auto
  then show ?thesis
    using pr assms preg_search_names [OF assms(1) pr, of n] preg_okD(1) [OF assms(1) pr]
    by (simp add: preg_register_def pr_unlock player_ref_w_def e)
qed

lemma preg_register_new:
  assumes "preg_ok w" and "preg_names w n = None" and "no_oom (sy w)" and "preg w = Some pr"
  shows "preg_register n w = Inr (Some (next_addr w),
    w\<lparr>sy := (sy w)\<lparr>res_n := res_n (sy w) + 4\<rparr>,
      players := (players w)(next_addr w \<mapsto> (new_player n)\<lparr>p_ref_count := 2\<rparr>),
      next_addr := Suc (next_addr w),
      preg := Some (pr\<lparr>pr_list := pr_list pr @ [next_addr w], pr_length := pr_length pr + 1\<rparr>)\<rparr>)"
  using preg_search_names [OF assms(1,4), of n] preg_okD(1) [OF assms(1,4)] assms(2-4)
  by (cases pr)
    (simp add: preg_register_def player_create_ok request_w_ok player_ref_w_def set_player_def
      new_player_def Let_def)

lemma preg_ok_ref:
  assumes "preg_ok w" and "players w a = Some p" and "0 < k" and "\<not> p_mutex p"
  shows "preg_ok (set_player a (p\<lparr>p_ref_count := k\<rparr>) w)
    \<and> preg_names (set_player a (p\<lparr>p_ref_count := k\<rparr>) w) = preg_names w"
proof -
  have n: "name_of ((players w)(a \<mapsto> p\<lparr>p_ref_count := k\<rparr>)) = name_of (players w)"
    using assms(2) by (auto simp: name_of_def)
  have "player_live (set_player a (p\<lparr>p_ref_count := k\<rparr>) w) b" if "player_live w b" for b
    using that assms(2-4) by (auto simp: player_live_def set_player_def)
  with n assms(1) show ?thesis
    by (auto simp: preg_ok_def preg_names_def set_player_def split: option.splits)
qed

lemma preg_ok_new:
  fixes s :: sys
  assumes "preg_ok w" and "preg_names w n = None" and "preg w = Some pr"
  defines "w' \<equiv> w\<lparr>sy := s, players := (players w)(next_addr w \<mapsto> (new_player n)\<lparr>p_ref_count := 2\<rparr>),
      next_addr := Suc (next_addr w),
      preg := Some (pr\<lparr>pr_list := pr_list pr @ [next_addr w], pr_length := pr_length pr + 1\<rparr>)\<rparr>"
  shows "preg_ok w' \<and> preg_names w' = (preg_names w)(n \<mapsto> next_addr w)"
proof -
  let ?a = "next_addr w" and ?h = "(players w)(next_addr w \<mapsto> (new_player n)\<lparr>p_ref_count := 2\<rparr>)"
  note d = preg_okD [OF assms(1,3)]
  have lt: "b < ?a" if "b \<in> set (pr_list pr)" for b using d(3) that by (auto simp: player_live_def)
  then have fresh: "?a \<notin> set (pr_list pr)" by blast
  have ns: "map (name_of ?h) (pr_list pr) = map (name_of (players w)) (pr_list pr)"
    using fresh by (rule map_name_of_upd)
  have ms: "map (\<lambda>b. (name_of ?h b, b)) (pr_list pr) = map (\<lambda>b. (name_of (players w) b, b)) (pr_list pr)"
    using lt by (auto simp: name_of_def)
  have new: "name_of ?h ?a = n" by (simp add: name_of_def new_player_def)
  have nin: "n \<notin> name_of (players w) ` set (pr_list pr)"
    using assms(2) d(5) by (force simp: map_of_eq_None_iff image_iff)
  have al: "player_live w' b" if "b \<in> set (pr_list pr @ [?a])" for b
    using that d(3) by (auto simp: player_live_def w'_def new_player_def less_SucI)
  have "preg_ok w'"
    using al d(1,2,4) nin by (auto simp: preg_ok_def w'_def ns new)
  moreover have "preg_names w' = (preg_names w)(n \<mapsto> ?a)"
    using assms(2) d(5) by (simp add: preg_names_def w'_def ms new map_of_snoc_new)
  ultimately show ?thesis ..
qed

section \<open>The interface of a name registry\<close>

text \<open>Registering a sequence of names, one after the other.\<close>

fun reg_all :: "('n \<Rightarrow> 's \<Rightarrow> ('a option \<times> 's) result) \<Rightarrow> 'n list \<Rightarrow> 's \<Rightarrow> ('a option list \<times> 's) result" where
  "reg_all reg [] s = Inr ([], s)"
| "reg_all reg (n # ns) s =
     and_then (reg n s) (\<lambda>(a, s). and_then (reg_all reg ns s) (\<lambda>(as, s). Inr (a # as, s)))"

text \<open>
  What the users of the registry rely on: registering always succeeds, binds the name, returns the
  object that is already bound to it if there is one, and never gives one object to two names.
\<close>

locale name_registry =
  fixes ok :: "'s \<Rightarrow> bool" and names :: "'s \<Rightarrow> ('n \<rightharpoonup> 'a)"
    and reg :: "'n \<Rightarrow> 's \<Rightarrow> ('a option \<times> 's) result"
  assumes reg_ok: "ok s \<Longrightarrow> \<exists>a s'. reg n s = Inr (Some a, s') \<and> ok s' \<and> names s' = (names s)(n \<mapsto> a)
      \<and> (names s n = Some b \<longrightarrow> a = b)"
    and names_inj: "ok s \<Longrightarrow> names s m = Some a \<Longrightarrow> names s n = Some a \<Longrightarrow> m = n"
begin

lemma reg_all_names:
  "ok s \<Longrightarrow> \<exists>as s'. reg_all reg ns s = Inr (as, s') \<and> ok s' \<and> as = map (names s') ns
     \<and> None \<notin> set as \<and> names s \<subseteq>\<^sub>m names s'"
proof (induction ns arbitrary: s)
  case Nil
  then show ?case by simp
next
  case (Cons n ns)
  from reg_ok [OF Cons.prems, of n] obtain a s1 where
    a: "reg n s = Inr (Some a, s1)" "ok s1" "names s1 = (names s)(n \<mapsto> a)" by blast
  have le: "names s \<subseteq>\<^sub>m names s1"
  proof (cases "names s n")
    case None
    then show ?thesis using a(3) by (auto simp: map_le_def)
  next
    case (Some b)
    then have "a = b" using reg_ok [OF Cons.prems, of n b] a(1) by auto
    with Some show ?thesis using a(3) by (auto simp: map_le_def)
  qed
  from Cons.IH [OF a(2)] obtain as s2 where
    r: "reg_all reg ns s1 = Inr (as, s2)" "ok s2" "as = map (names s2) ns" "None \<notin> set as"
      "names s1 \<subseteq>\<^sub>m names s2" by blast
  have "names s2 n = Some a" using r(5) a(3) by (force simp: map_le_def)
  moreover have "names s \<subseteq>\<^sub>m names s2" using le r(5) by (rule map_le_trans)
  ultimately show ?case using a r by (intro exI [of _ "Some a # as"] exI [of _ s2]) auto
qed

lemma same_object_iff_same_name:
  assumes "ok s"
  shows "\<exists>as s'. reg_all reg ns s = Inr (as, s') \<and> length as = length ns \<and> None \<notin> set as
    \<and> names s \<subseteq>\<^sub>m names s'
    \<and> (\<forall>i < length ns. \<forall>j < length ns. as ! i = as ! j \<longleftrightarrow> ns ! i = ns ! j)"
proof -
  from reg_all_names [OF assms, of ns] obtain as s' where
    r: "reg_all reg ns s = Inr (as, s')" "ok s'" "as = map (names s') ns" "None \<notin> set as"
      "names s \<subseteq>\<^sub>m names s'" by blast
  have "as ! i = as ! j \<longleftrightarrow> ns ! i = ns ! j" if "i < length ns" "j < length ns" for i j
  proof
    assume e: "as ! i = as ! j"
    from r(3,4) that obtain a where "names s' (ns ! i) = Some a" by (metis nth_map nth_mem length_map not_None_eq)
    moreover from this e r(3) that have "names s' (ns ! j) = Some a" by simp
    ultimately show "ns ! i = ns ! j" by (rule names_inj [OF r(2)])
  qed (use r(3) that in simp)
  with r show ?thesis by (intro exI [of _ as] exI [of _ s']) simp
qed

end

definition preg_ready :: "world \<Rightarrow> bool" where
  "preg_ready w \<longleftrightarrow> preg_ok w \<and> no_oom (sy w)"

lemma preg_register_step:
  assumes "preg_ready w"
  shows "\<exists>a w'. preg_register n w = Inr (Some a, w') \<and> preg_ready w'
    \<and> preg_names w' = (preg_names w)(n \<mapsto> a) \<and> (preg_names w n = Some b \<longrightarrow> a = b)"
proof (cases "preg_names w n")
  case None
  obtain pr where "preg w = Some pr" using assms preg_ok_Some by (auto simp: preg_ready_def)
  with None assms show ?thesis
    using preg_register_new [of w n pr] preg_ok_new [of w n pr] by (auto simp: preg_ready_def)
next
  case (Some a)
  from assms have w: "preg_ok w" "no_oom (sy w)" by (auto simp: preg_ready_def)
  from player_liveD [OF preg_names_Some(1) [OF w(1) Some]] obtain p where
    p: "players w a = Some p" "\<not> p_mutex p" "0 < p_ref_count p" by blast
  from preg_ok_ref [OF w(1) p(1), of "p_ref_count p + 1"] p preg_register_found [OF w(1) Some p(1)]
    w(2) Some show ?thesis
    by (auto simp: preg_ready_def set_player_def)
qed

interpretation preg_map: name_registry preg_ready preg_names preg_register
  by unfold_locales (blast intro: preg_register_step, auto simp: preg_ready_def intro: preg_names_inj)

text \<open>
  C8: the player registry is a map from user names to players whose entries persist. Registering any
  sequence of names succeeds; two registrations give the same player exactly when the names are
  equal; and the players registered before keep their names.
\<close>

theorem preg_register_by_name:
  assumes "preg_ready w"
  shows "\<exists>as w'. reg_all preg_register ns w = Inr (as, w') \<and> length as = length ns \<and> None \<notin> set as
    \<and> preg_names w \<subseteq>\<^sub>m preg_names w'
    \<and> (\<forall>i < length ns. \<forall>j < length ns. as ! i = as ! j \<longleftrightarrow> ns ! i = ns ! j)"
  by (rule preg_map.same_object_iff_same_name [OF assms])

definition fresh_preg_world :: world where
  "fresh_preg_world = (blank_world calm_sys)\<lparr>preg := fst (preg_init calm_sys)\<rparr>"

theorem preg_register_by_name_witness:
  "\<exists>as w'. reg_all preg_register [''ann'', ''bob'', ''ann''] fresh_preg_world = Inr (as, w')
     \<and> as ! 0 = as ! 2 \<and> as ! 0 \<noteq> as ! 1"
proof -
  have "preg_ready fresh_preg_world"
    by (simp add: preg_ready_def preg_ok_def fresh_preg_world_def preg_init_def blank_world_def)
  from preg_register_by_name [OF this, of "[''ann'', ''bob'', ''ann'']"] obtain as w' where
    r: "reg_all preg_register [''ann'', ''bob'', ''ann''] fresh_preg_world = Inr (as, w')"
      "\<forall>i < 3. \<forall>j < 3. as ! i = as ! j \<longleftrightarrow> [''ann'', ''bob'', ''ann''] ! i = [''ann'', ''bob'', ''ann''] ! j"
    by auto
  have "as ! 0 = as ! 2" "as ! 0 \<noteq> as ! 1"
    using r(2) [rule_format, of 0 2] r(2) [rule_format, of 0 1] by simp_all
  with r(1) show ?thesis by blast
qed

text \<open>
  a player that is registered for the first time has the initial rating and two references, one
  of the registry and one of the caller; a player registered again keeps rating and name and gains
  one reference for the caller.
\<close>

theorem preg_register_refs:
  assumes "preg_ready w"
  shows "\<exists>a w' q. preg_register n w = Inr (Some a, w') \<and> players w' a = Some q \<and> p_name q = Some n
    \<and> (case preg_names w n of
         None \<Rightarrow> rating q = PLAYER_INITIAL_RATING \<and> p_ref_count q = 2
       | Some b \<Rightarrow> a = b \<and> rating q = rating (the (players w a))
           \<and> p_ref_count q = p_ref_count (the (players w a)) + 1)"
proof (cases "preg_names w n")
  case None
  obtain pr where "preg w = Some pr" using assms preg_ok_Some by (auto simp: preg_ready_def)
  with None assms preg_register_new [of w n pr] show ?thesis
    by (simp add: preg_ready_def new_player_def)
next
  case (Some a)
  from assms have w: "preg_ok w" by (simp add: preg_ready_def)
  from player_liveD [OF preg_names_Some(1) [OF w Some]] obtain p where
    p: "players w a = Some p" "p_name p = Some n" unfolding preg_names_Some(2) [OF w Some] by blast
  with preg_register_found [OF w Some p(1)] Some show ?thesis
    by (simp add: set_player_def)
qed

theorem preg_register_refs_witness:
  "\<exists>a w' q. preg_register ''ann'' fresh_preg_world = Inr (Some a, w') \<and> players w' a = Some q
     \<and> rating q = 1500 \<and> p_ref_count q = 2"
proof -
  have "preg_ready fresh_preg_world"
    by (simp add: preg_ready_def preg_ok_def fresh_preg_world_def preg_init_def blank_world_def)
  moreover have "preg_names fresh_preg_world ''ann'' = None"
    by (simp add: preg_names_def fresh_preg_world_def preg_init_def)
  ultimately show ?thesis
    using preg_register_refs [of fresh_preg_world "''ann''"] by (auto simp: PLAYER_INITIAL_RATING_def)
qed

end
