(* ===== verification/Ownership.thy ===== *)
theory Ownership
  imports Client_Invitations Player_Registry
begin

text \<open>
  Who owns what in the running server: the reference count of a client is one for its
  registration and one for every invitation it is a party of, that of an invitation is the number
  of lists it is in, and a game belongs to one invitation. The theory defines this invariant and
  shows what sending, adding and removing an invitation, and dropping references do to it.
\<close>

section \<open>Sending\<close>

definition fits :: "byte list option \<Rightarrow> int \<Rightarrow> bool" where
  "fits data n \<longleftrightarrow> (case data of None \<Rightarrow> n = 0 | Some d \<Rightarrow> n = int (length d))"

lemma fits_simps [simp]: "fits None n \<longleftrightarrow> n = 0" "fits (Some d) n \<longleftrightarrow> n = int (length d)"
  by (simp_all add: fits_def)

lemma fits_readable: "fits data n \<Longrightarrow> header_for t i r n pkt \<Longrightarrow> readable pkt data"
  by (auto simp: readable_def header_for_def nat_mod_distrib split: option.splits)

lemma fits_sized:
  "fits data n \<Longrightarrow> header_for t i r n pkt \<Longrightarrow> data \<noteq> Some [] \<Longrightarrow> n < 65536 \<Longrightarrow> sized pkt data"
  by (auto simp: sized_def header_for_def split: option.splits)

lemma send_packet_ok:
  assumes "clients w c = Some cl" and "\<not> c_lock cl" and "readable pkt data"
  shows "\<exists>k r s. client_send_packet c pkt data w = Inr (r, w\<lparr>sy := s\<rparr>) \<and> env_same (sy w) s
    \<and> (r = 0 \<or> r = -1)
    \<and> outp s = (outp (sy w))(c_fd cl := outp (sy w) (c_fd cl) @ take k (wire pkt data))
    \<and> (net_up (sy w) \<longrightarrow> k = length (wire pkt data)) \<and> (net_up (sy w) \<and> sized pkt data \<longrightarrow> r = 0)"
proof -
  obtain k r s where "proto_send_packet (c_fd cl) pkt data (sy w) = Inr (r, s)" "env_same (sy w) s"
      "r = 0 \<or> r = -1"
      "outp s = (outp (sy w))(c_fd cl := outp (sy w) (c_fd cl) @ take k (wire pkt data))"
      "net_up (sy w) \<longrightarrow> k = length (wire pkt data)" "net_up (sy w) \<and> sized pkt data \<longrightarrow> r = 0"
    using proto_send_packet_spec [OF assms(3), of "c_fd cl" "sy w"] by blast
  with assms(1,2) show ?thesis
    by (intro exI [of _ k] exI [of _ r] exI [of _ s]) (simp add: client_send_packet_def)
qed

lemma create_header_w_ok:
  assumes "no_oom (sy w)"
  shows "\<exists>h s. create_header_w t i r n w = Inr (h, w\<lparr>sy := s\<rparr>) \<and> env_same (sy w) s
    \<and> outp s = outp (sy w) \<and> header_for (pkt_val t) i r n h"
  using create_header_ok [OF assms, of "pkt_val t" i r n] by (auto simp: create_header_w_def)

text \<open>A header is made and the packet sent: the bytes written are a prefix of it.\<close>

lemma notify_ok:
  assumes "no_oom (sy w)" and "clients w c = Some cl" and "\<not> c_lock cl" and "fits data n"
  shows "\<exists>pkt s1 k r s. create_header_w t i ro n w = Inr (pkt, w\<lparr>sy := s1\<rparr>)
    \<and> client_send_packet c pkt data (w\<lparr>sy := s1\<rparr>) = Inr (r, w\<lparr>sy := s\<rparr>)
    \<and> env_same (sy w) s \<and> (r = 0 \<or> r = -1) \<and> header_for (pkt_val t) i ro n pkt
    \<and> outp s = (outp (sy w))(c_fd cl := outp (sy w) (c_fd cl) @ take k (wire pkt data))
    \<and> (net_up (sy w) \<longrightarrow> k = length (wire pkt data))
    \<and> (net_up (sy w) \<and> data \<noteq> Some [] \<and> n < 65536 \<longrightarrow> r = 0)"
proof -
  obtain pkt s1 where h: "create_header_w t i ro n w = Inr (pkt, w\<lparr>sy := s1\<rparr>)" "env_same (sy w) s1"
      "outp s1 = outp (sy w)" "header_for (pkt_val t) i ro n pkt"
    using create_header_w_ok [OF assms(1)] by blast
  have "clients (w\<lparr>sy := s1\<rparr>) c = Some cl" using assms(2) by simp
  from send_packet_ok [OF this assms(3) fits_readable [OF assms(4) h(4)]]
  obtain k r s where p: "client_send_packet c pkt data (w\<lparr>sy := s1\<rparr>) = Inr (r, w\<lparr>sy := s\<rparr>)"
      "env_same s1 s" "r = 0 \<or> r = -1"
      "outp s = (outp s1)(c_fd cl := outp s1 (c_fd cl) @ take k (wire pkt data))"
      "net_up s1 \<longrightarrow> k = length (wire pkt data)" "net_up s1 \<and> sized pkt data \<longrightarrow> r = 0"
    by auto
  have "net_up (sy w) \<and> data \<noteq> Some [] \<and> n < 65536 \<longrightarrow> r = 0"
    using p(6) fits_sized [OF assms(4) h(4)] env_same_net_up [OF h(2)] by blast
  then show ?thesis
    using h p env_same_trans [OF h(2) p(2)] env_same_net_up [OF h(2)]
    by (intro exI [of _ pkt] exI [of _ s1] exI [of _ k] exI [of _ r] exI [of _ s]) simp
qed

text \<open>
  The packet \<open>pkt\<close> was made and sent to \<open>c\<close>, with result \<open>r\<close>; on a working network it is in the output.
\<close>

definition told :: "JEUX_PACKET_TYPE \<Rightarrow> int \<Rightarrow> int \<Rightarrow> int \<Rightarrow> byte list option \<Rightarrow> addr \<Rightarrow> world
    \<Rightarrow> JEUX_PACKET_HEADER \<Rightarrow> int \<Rightarrow> sys \<Rightarrow> bool" where
  "told t i ro n data c w pkt r s \<longleftrightarrow>
     (\<exists>s1. create_header_w t i ro n w = Inr (pkt, w\<lparr>sy := s1\<rparr>)
        \<and> client_send_packet c pkt data (w\<lparr>sy := s1\<rparr>) = Inr (r, w\<lparr>sy := s\<rparr>))
     \<and> env_same (sy w) s \<and> (r = 0 \<or> r = -1) \<and> header_for (pkt_val t) i ro n pkt
     \<and> (net_up (sy w) \<longrightarrow>
          outp s = (let fd = c_fd (the (clients w c)) in (outp (sy w))(fd := outp (sy w) fd @ wire pkt data)))
     \<and> (net_up (sy w) \<and> data \<noteq> Some [] \<and> n < 65536 \<longrightarrow> r = 0)"

lemma notify_told:
  assumes "no_oom (sy w)" and "clients w c = Some cl" and "\<not> c_lock cl" and "fits data n"
  shows "\<exists>pkt r s. told t i ro n data c w pkt r s"
proof -
  obtain pkt s1 k r s where p: "create_header_w t i ro n w = Inr (pkt, w\<lparr>sy := s1\<rparr>)"
      "client_send_packet c pkt data (w\<lparr>sy := s1\<rparr>) = Inr (r, w\<lparr>sy := s\<rparr>)" "env_same (sy w) s"
      "r = 0 \<or> r = -1" "header_for (pkt_val t) i ro n pkt"
      "outp s = (outp (sy w))(c_fd cl := outp (sy w) (c_fd cl) @ take k (wire pkt data))"
      "net_up (sy w) \<longrightarrow> k = length (wire pkt data)"
      "net_up (sy w) \<and> data \<noteq> Some [] \<and> n < 65536 \<longrightarrow> r = 0"
    using notify_ok [OF assms, of t i ro] by blast
  then have "net_up (sy w) \<longrightarrow>
      outp s = (let fd = c_fd (the (clients w c)) in (outp (sy w))(fd := outp (sy w) fd @ wire pkt data))"
    using assms(2) by (simp add: Let_def)
  with p show ?thesis unfolding told_def by blast
qed

lemma told_exec:
  "told t i ro n data c w pkt r s \<Longrightarrow>
     and_then (create_header_w t i ro n w) (\<lambda>(pkt, w). and_then (client_send_packet c pkt data w) (K pkt))
     = K pkt (r, w\<lparr>sy := s\<rparr>)"
  by (auto simp: told_def)

lemma toldD:
  assumes "told t i ro n data c w pkt r s"
  shows "env_same (sy w) s" and "r = 0 \<or> r = -1" and "header_for (pkt_val t) i ro n pkt"
    and "net_up (sy w) \<Longrightarrow>
      outp s = (let fd = c_fd (the (clients w c)) in (outp (sy w))(fd := outp (sy w) fd @ wire pkt data))"
    and "net_up (sy w) \<Longrightarrow> data \<noteq> Some [] \<Longrightarrow> n < 65536 \<Longrightarrow> r = 0"
  using assms by (simp_all add: told_def)

lemma send_ack_ok:
  assumes "no_oom (sy w)" and "clients w c = Some cl" and "\<not> c_lock cl" and "fits data n"
  shows "\<exists>pkt k r s. client_send_ack c data n w = Inr (r, w\<lparr>sy := s\<rparr>) \<and> env_same (sy w) s
    \<and> header_for (pkt_val JEUX_ACK_PKT) 0 0 n pkt
    \<and> outp s = (outp (sy w))(c_fd cl := outp (sy w) (c_fd cl) @ take k (wire pkt data))
    \<and> (net_up (sy w) \<longrightarrow> k = length (wire pkt data))"
proof -
  obtain pkt s1 k r s where "create_header_w JEUX_ACK_PKT 0 0 n w = Inr (pkt, w\<lparr>sy := s1\<rparr>)"
      "client_send_packet c pkt data (w\<lparr>sy := s1\<rparr>) = Inr (r, w\<lparr>sy := s\<rparr>)" "env_same (sy w) s"
      "header_for (pkt_val JEUX_ACK_PKT) 0 0 n pkt"
      "outp s = (outp (sy w))(c_fd cl := outp (sy w) (c_fd cl) @ take k (wire pkt data))"
      "net_up (sy w) \<longrightarrow> k = length (wire pkt data)"
    using notify_ok [OF assms, of JEUX_ACK_PKT 0 0] by blast
  with assms(2,3) show ?thesis
    by (intro exI [of _ pkt] exI [of _ k] exI [of _ r] exI [of _ s])
      (simp add: client_send_ack_def client_send_packet_def)
qed

lemma send_nack_ok:
  assumes "no_oom (sy w)" and "clients w c = Some cl" and "\<not> c_lock cl"
  shows "\<exists>pkt k r s. client_send_nack c w = Inr (r, w\<lparr>sy := s\<rparr>) \<and> env_same (sy w) s
    \<and> header_for (pkt_val JEUX_NACK_PKT) 0 0 0 pkt
    \<and> outp s = (outp (sy w))(c_fd cl := outp (sy w) (c_fd cl) @ take k (wire pkt None))
    \<and> (net_up (sy w) \<longrightarrow> k = length (wire pkt None))"
proof -
  obtain pkt s1 k r s where "create_header_w JEUX_NACK_PKT 0 0 0 w = Inr (pkt, w\<lparr>sy := s1\<rparr>)"
      "client_send_packet c pkt None (w\<lparr>sy := s1\<rparr>) = Inr (r, w\<lparr>sy := s\<rparr>)" "env_same (sy w) s"
      "header_for (pkt_val JEUX_NACK_PKT) 0 0 0 pkt"
      "outp s = (outp (sy w))(c_fd cl := outp (sy w) (c_fd cl) @ take k (wire pkt None))"
      "net_up (sy w) \<longrightarrow> k = length (wire pkt None)"
    using notify_ok [OF assms, of None 0 JEUX_NACK_PKT 0 0] by fastforce
  with assms(2,3) show ?thesis
    by (intro exI [of _ pkt] exI [of _ k] exI [of _ r] exI [of _ s])
      (simp add: client_send_nack_def client_send_packet_def)
qed

section \<open>The list of invitations\<close>

lemma unlink_inv_None: "unlink_inv ns i = None \<longleftrightarrow> i \<notin> n_inv ` set ns"
  by (induction ns i rule: unlink_inv.induct) auto

lemma unlink_inv_Some:
  "unlink_inv ns i = Some (n, rest) \<Longrightarrow>
     \<exists>pre post. ns = pre @ \<lparr>n_id = n, n_inv = i\<rparr> # post \<and> rest = pre @ post \<and> i \<notin> n_inv ` set pre"
proof (induction ns i arbitrary: rest rule: unlink_inv.induct)
  case (1 i)
  then show ?case by simp
next
  case (2 m ns i)
  show ?case
  proof (cases "n_inv m = i")
    case True
    with 2 show ?thesis by (intro exI [of _ "[]"] exI [of _ ns]) auto
  next
    case False
    with 2 obtain ms where ms: "unlink_inv ns i = Some (n, ms)" "rest = m # ms" by auto
    from 2(1) [OF False ms(1)] obtain pre post where
      "ns = pre @ \<lparr>n_id = n, n_inv = i\<rparr> # post" "ms = pre @ post" "i \<notin> n_inv ` set pre" by blast
    with ms(2) False show ?thesis by (intro exI [of _ "m # pre"] exI [of _ post]) auto
  qed
qed

lemma unlink_inv_listed: "i \<in> n_inv ` set ns \<Longrightarrow> \<exists>n rest. unlink_inv ns i = Some (n, rest)"
  using unlink_inv_None [of ns i] by fastforce

text \<open>The nodes that stay, when no invitation is in the list twice.\<close>

lemma unlink_inv_set:
  assumes "unlink_inv ns i = Some (n, rest)" and "distinct (map n_inv ns)"
  shows "set rest = {m \<in> set ns. n_inv m \<noteq> i}" and "\<lparr>n_id = n, n_inv = i\<rparr> \<in> set ns"
  using unlink_inv_Some [OF assms(1)] assms(2) by auto

text \<open>The client once a node was unlinked and its identifier given back.\<close>

definition release :: "int \<Rightarrow> INVITATION_NODE list \<Rightarrow> CLIENT \<Rightarrow> CLIENT" where
  "release n rest cl = cl\<lparr>invite_list := rest, available_ids := (available_ids cl)[nat n := n],
     id_usage := id_usage cl - 1\<rparr>"

lemma release_fields [simp]:
  "c_lock (release n rest cl) = c_lock cl" "c_fd (release n rest cl) = c_fd cl"
  "c_ref_count (release n rest cl) = c_ref_count cl" "c_player (release n rest cl) = c_player cl"
  "logged_in (release n rest cl) = logged_in cl" "invite_list (release n rest cl) = rest"
  by (simp_all add: release_def)

lemma ids_ok_release:
  assumes "ids_ok cl" and "unlink_inv (invite_list cl) i = Some (n, rest)"
  shows "ids_ok (release n rest cl)"
proof -
  obtain pre post where s: "invite_list cl = pre @ \<lparr>n_id = n, n_inv = i\<rparr> # post" "rest = pre @ post"
    using unlink_inv_Some [OF assms(2)] by blast
  note ok = assms(1) [unfolded ids_ok_def]
  have n: "0 \<le> n" "n < int (length (available_ids cl))" using ok s by auto
  have "pool_of rest ((available_ids cl)[nat n := n])"
    using ok s n by (auto simp: pool_of_def nth_update_iff)
  with ok s show ?thesis by (auto simp: ids_ok_def release_def)
qed


section \<open>The invariant\<close>

definition listed :: "world \<Rightarrow> addr \<Rightarrow> addr \<Rightarrow> bool" where
  "listed w c i \<longleftrightarrow> (case clients w c of None \<Rightarrow> False | Some cl \<Rightarrow> i \<in> n_inv ` set (invite_list cl))"

text \<open>The invitations a client is a party of.\<close>

definition held :: "world \<Rightarrow> addr \<Rightarrow> addr set" where
  "held w c = {i. \<exists>v. invs w i = Some v \<and> (i_source v = c \<or> i_target v = c)}"

definition client_ok :: "world \<Rightarrow> addr \<Rightarrow> CLIENT \<Rightarrow> bool" where
  "client_ok w c cl \<longleftrightarrow> \<not> c_lock cl \<and> ids_ok cl \<and> c < next_addr w
     \<and> n_inv ` set (invite_list cl) \<subseteq> held w c
     \<and> (case c_player cl of None \<Rightarrow> logged_in cl = CLIENT_LOGGED_OUT | Some a \<Rightarrow> player_live w a)"

definition game_ok :: "GAME \<Rightarrow> bool" where
  "game_ok gm \<longleftrightarrow> length (rows gm) = 9 \<and> \<not> g_mutex gm \<and> g_ref_count gm = 1"

text \<open>The game was resigned or won; a resigned game has no player to move.\<close>

definition stopped :: "GAME \<Rightarrow> bool" where
  "stopped gm \<longleftrightarrow> current_player gm = NULL_ROLE \<or> winner gm \<noteq> NULL_ROLE"

definition inv_ok :: "world \<Rightarrow> addr \<Rightarrow> INVITATION \<Rightarrow> bool" where
  "inv_ok w i v \<longleftrightarrow> \<not> i_lock v \<and> i < next_addr w \<and> i_source v \<noteq> i_target v
     \<and> clients w (i_source v) \<noteq> None \<and> clients w (i_target v) \<noteq> None
     \<and> i_source_role v \<noteq> NULL_ROLE \<and> i_target_role v \<noteq> NULL_ROLE \<and> i_source_role v \<noteq> i_target_role v
     \<and> i_ref_count v = of_bool (listed w (i_source v) i) + of_bool (listed w (i_target v) i)
     \<and> (case i_game v of None \<Rightarrow> i_state v \<noteq> INV_ACCEPTED_STATE
        | Some g \<Rightarrow> i_state v \<noteq> INV_OPEN_STATE \<and> (case games w g of None \<Rightarrow> False
             | Some gm \<Rightarrow> game_ok gm \<and> (i_state v = INV_CLOSED_STATE \<longrightarrow> stopped gm)))"

text \<open>\<open>R\<close> is the set of clients that hold a reference from their registration.\<close>

definition refs_ok :: "addr set \<Rightarrow> world \<Rightarrow> addr \<Rightarrow> CLIENT \<Rightarrow> bool" where
  "refs_ok R w c cl \<longleftrightarrow> c_ref_count cl = of_bool (c \<in> R) + int (card (held w c)) \<and> (c \<in> R \<or> held w c \<noteq> {})"

definition game_of :: "world \<Rightarrow> addr \<Rightarrow> ptr" where
  "game_of w i = Option.bind (invs w i) i_game"

definition games_owned :: "world \<Rightarrow> bool" where
  "games_owned w \<longleftrightarrow>
     (\<forall>i j g. game_of w i = Some g \<and> game_of w j = Some g \<longrightarrow> i = j)
     \<and> (\<forall>g. games w g \<noteq> None \<longrightarrow> g < next_addr w \<and> (\<exists>i. game_of w i = Some g))"

definition objs_ok :: "addr set \<Rightarrow> world \<Rightarrow> bool" where
  "objs_ok R w \<longleftrightarrow>
     (\<forall>c cl. clients w c = Some cl \<longrightarrow> client_ok w c cl \<and> refs_ok R w c cl)
     \<and> (\<forall>c \<in> R. clients w c \<noteq> None)
     \<and> (\<forall>i v. invs w i = Some v \<longrightarrow> inv_ok w i v)
     \<and> games_owned w"

text \<open>
  An invitation that is not closed is in the lists of both its parties, which are registered; and
  no invitation outlives its last reference.
\<close>

definition live_ok :: "addr set \<Rightarrow> world \<Rightarrow> bool" where
  "live_ok R w \<longleftrightarrow> (\<forall>i v. invs w i = Some v \<and> i_state v \<noteq> INV_CLOSED_STATE \<longrightarrow>
     i_source v \<in> R \<and> i_target v \<in> R \<and> listed w (i_source v) i \<and> listed w (i_target v) i)"

definition pos_refs :: "world \<Rightarrow> bool" where
  "pos_refs w \<longleftrightarrow> (\<forall>i v. invs w i = Some v \<longrightarrow> 0 < i_ref_count v)"

text \<open>The semaphores that the handlers for invitations and games take.\<close>

definition sems_free :: "world \<Rightarrow> bool" where
  "sems_free w \<longleftrightarrow> sems w CLIENT_INVITE_SEM = 1 \<and> sems w CLIENT_INVITE_OP_SEM = 1 \<and> sems w CLIENT_UPDATE_ELO = 1"

lemma sems_freeD:
  assumes "sems_free w"
  shows "sems w CLIENT_INVITE_SEM = 1" "sems w CLIENT_INVITE_OP_SEM = 1" "sems w CLIENT_UPDATE_ELO = 1"
  using assms by (simp_all add: sems_free_def)

text \<open>The whole invariant; the first part also holds while a handler has taken its semaphore.\<close>

definition core :: "addr set \<Rightarrow> world \<Rightarrow> bool" where
  "core R w \<longleftrightarrow> objs_ok R w \<and> live_ok R w \<and> pos_refs w \<and> no_oom (sy w)"

definition good :: "addr set \<Rightarrow> world \<Rightarrow> bool" where
  "good R w \<longleftrightarrow> core R w \<and> sems_free w"

text \<open>None of it depends on the operating system, the semaphores or the registries.\<close>

lemma listed_upd [simp]:
  "listed (w\<lparr>sy := s\<rparr>) = listed w" "listed (w\<lparr>sems := q\<rparr>) = listed w" "listed (w\<lparr>games := h\<rparr>) = listed w"
  "listed (w\<lparr>creg := x\<rparr>) = listed w" "listed (w\<lparr>preg := y\<rparr>) = listed w" "listed (w\<lparr>players := ps\<rparr>) = listed w"
  "listed (w\<lparr>invs := f\<rparr>) = listed w" "listed (w\<lparr>next_addr := m\<rparr>) = listed w"
  by (simp_all add: listed_def fun_eq_iff)

lemma held_upd [simp]:
  "held (w\<lparr>sy := s\<rparr>) = held w" "held (w\<lparr>sems := q\<rparr>) = held w" "held (w\<lparr>games := h\<rparr>) = held w"
  "held (w\<lparr>creg := x\<rparr>) = held w" "held (w\<lparr>preg := y\<rparr>) = held w" "held (w\<lparr>players := ps\<rparr>) = held w"
  "held (w\<lparr>clients := f\<rparr>) = held w" "held (w\<lparr>next_addr := m\<rparr>) = held w"
  by (simp_all add: held_def fun_eq_iff)

lemma player_live_upd [simp]:
  "player_live (w\<lparr>sy := s\<rparr>) = player_live w" "player_live (w\<lparr>sems := q\<rparr>) = player_live w"
  "player_live (w\<lparr>games := h\<rparr>) = player_live w" "player_live (w\<lparr>creg := x\<rparr>) = player_live w"
  "player_live (w\<lparr>preg := y\<rparr>) = player_live w" "player_live (w\<lparr>clients := f\<rparr>) = player_live w"
  "player_live (w\<lparr>invs := k\<rparr>) = player_live w"
  by (simp_all add: player_live_def fun_eq_iff)

lemma objs_ok_upd [simp]:
  "objs_ok R (w\<lparr>sy := s\<rparr>) = objs_ok R w" "objs_ok R (w\<lparr>sems := q\<rparr>) = objs_ok R w"
  "objs_ok R (w\<lparr>creg := x\<rparr>) = objs_ok R w" "objs_ok R (w\<lparr>preg := y\<rparr>) = objs_ok R w"
  by (simp_all add: objs_ok_def client_ok_def refs_ok_def inv_ok_def games_owned_def game_of_def cong: option.case_cong)

lemma live_ok_upd [simp]:
  "live_ok R (w\<lparr>sy := s\<rparr>) = live_ok R w" "live_ok R (w\<lparr>sems := q\<rparr>) = live_ok R w"
  "live_ok R (w\<lparr>creg := x\<rparr>) = live_ok R w" "live_ok R (w\<lparr>preg := y\<rparr>) = live_ok R w"
  "live_ok R (w\<lparr>players := ps\<rparr>) = live_ok R w" "live_ok R (w\<lparr>games := gs\<rparr>) = live_ok R w"
  "live_ok R (w\<lparr>next_addr := m\<rparr>) = live_ok R w"
  by (simp_all add: live_ok_def)

lemma pos_refs_upd [simp]:
  "pos_refs (w\<lparr>sy := s\<rparr>) = pos_refs w" "pos_refs (w\<lparr>sems := q\<rparr>) = pos_refs w"
  "pos_refs (w\<lparr>creg := x\<rparr>) = pos_refs w" "pos_refs (w\<lparr>preg := y\<rparr>) = pos_refs w"
  "pos_refs (w\<lparr>players := ps\<rparr>) = pos_refs w" "pos_refs (w\<lparr>games := gs\<rparr>) = pos_refs w"
  "pos_refs (w\<lparr>next_addr := m\<rparr>) = pos_refs w" "pos_refs (w\<lparr>clients := f\<rparr>) = pos_refs w"
  by (simp_all add: pos_refs_def)

lemma sems_free_upd [simp]:
  "sems_free (w\<lparr>sy := s\<rparr>) = sems_free w" "sems_free (w\<lparr>creg := x\<rparr>) = sems_free w"
  "sems_free (w\<lparr>preg := y\<rparr>) = sems_free w" "sems_free (w\<lparr>clients := f\<rparr>) = sems_free w"
  "sems_free (w\<lparr>invs := k\<rparr>) = sems_free w" "sems_free (w\<lparr>games := h\<rparr>) = sems_free w"
  "sems_free (w\<lparr>players := ps\<rparr>) = sems_free w" "sems_free (w\<lparr>next_addr := m\<rparr>) = sems_free w"
  by (simp_all add: sems_free_def)

lemma core_sy: "env_same (sy w) s \<Longrightarrow> core R (w\<lparr>sy := s\<rparr>) = core R w"
  by (simp add: core_def env_same_no_oom)

lemma core_sems [simp]: "core R (w\<lparr>sems := q\<rparr>) = core R w"
  by (simp add: core_def)

lemma good_sy: "env_same (sy w) s \<Longrightarrow> good R (w\<lparr>sy := s\<rparr>) = good R w"
  by (simp add: good_def core_sy)

lemma objs_clientD:
  assumes "objs_ok R w" and "clients w c = Some cl"
  shows "\<not> c_lock cl" "ids_ok cl" "c < next_addr w" "n_inv ` set (invite_list cl) \<subseteq> held w c"
    "c_ref_count cl = of_bool (c \<in> R) + int (card (held w c))"
  using assms by (auto simp: objs_ok_def client_ok_def refs_ok_def)

lemma objs_playerD:
  assumes "objs_ok R w" and "clients w c = Some cl" and "c_player cl = Some a"
  shows "player_live w a"
proof -
  have "client_ok w c cl" using assms(1,2) by (simp add: objs_ok_def)
  then show ?thesis using assms(3) by (simp add: client_ok_def)
qed

lemma objs_invD: "objs_ok R w \<Longrightarrow> invs w i = Some v \<Longrightarrow> inv_ok w i v"
  by (simp add: objs_ok_def)

lemma objs_regD: "objs_ok R w \<Longrightarrow> c \<in> R \<Longrightarrow> \<exists>cl. clients w c = Some cl"
  by (auto simp: objs_ok_def)

lemma finite_held:
  assumes "objs_ok R w"
  shows "finite (held w c)"
proof (rule finite_subset)
  show "held w c \<subseteq> {..<next_addr w}"
    using objs_invD [OF assms] by (auto simp: held_def inv_ok_def)
qed simp

lemma listedI: "clients w c = Some cl \<Longrightarrow> i \<in> n_inv ` set (invite_list cl) \<Longrightarrow> listed w c i"
  by (simp add: listed_def)

lemma listed_held: "objs_ok R w \<Longrightarrow> listed w c i \<Longrightarrow> i \<in> held w c"
  by (auto simp: listed_def dest: objs_clientD split: option.splits)


section \<open>Removing an invitation\<close>

definition unlink_w :: "addr \<Rightarrow> addr \<Rightarrow> world \<Rightarrow> world" where
  "unlink_w c i w =
     (let cl = the (clients w c); v = the (invs w i); (n, rest) = the (unlink_inv (invite_list cl) i) in
      w\<lparr>clients := (clients w)(c \<mapsto> release n rest cl), invs := (invs w)(i \<mapsto> v\<lparr>i_ref_count := i_ref_count v - 1\<rparr>)\<rparr>)"

definition less_ref :: "addr \<Rightarrow> CLIENT heap \<Rightarrow> CLIENT heap" where
  "less_ref c h = h(c := map_option (\<lambda>cl. cl\<lparr>c_ref_count := c_ref_count cl - 1\<rparr>) (h c))"

text \<open>The invitation is freed, with its game, and its parties have one reference less.\<close>

definition drop_w :: "addr \<Rightarrow> world \<Rightarrow> world" where
  "drop_w i w =
     (let v = the (invs w i) in
      w\<lparr>clients := less_ref (i_target v) (less_ref (i_source v) (clients w)), invs := (invs w)(i := None),
        games := (case i_game v of None \<Rightarrow> games w | Some g \<Rightarrow> (games w)(g := None))\<rparr>)"

definition removed_w :: "addr \<Rightarrow> addr \<Rightarrow> world \<Rightarrow> world" where
  "removed_w c i w = (if i_ref_count (the (invs w i)) = 1 then drop_w i (unlink_w c i w) else unlink_w c i w)"

lemma less_ref_apply:
  "less_ref c h d = (if d = c then map_option (\<lambda>cl. cl\<lparr>c_ref_count := c_ref_count cl - 1\<rparr>) (h c) else h d)"
  by (simp add: less_ref_def)

lemma less_ref_upd:
  "less_ref c (h(c \<mapsto> x)) = h(c \<mapsto> x\<lparr>c_ref_count := c_ref_count x - 1\<rparr>)"
  "d \<noteq> c \<Longrightarrow> less_ref d (h(c \<mapsto> x)) = (less_ref d h)(c \<mapsto> x)"
  by (auto simp: less_ref_def fun_upd_twist)

text \<open>Dropping a reference that is not the last one.\<close>

lemma client_unref_alive:
  assumes "clients w c = Some cl" and "\<not> c_lock cl" and "c_ref_count cl \<noteq> 1"
  shows "client_unref F c w = Inr (w\<lparr>clients := less_ref c (clients w)\<rparr>)"
  using assms by (cases cl)
    (simp add: client_unref_def call_depth_def eval_nat_numeral set_client_def less_ref_def)

lemma inv_unref_alive:
  assumes "invs w i = Some v" and "\<not> i_lock v" and "i_ref_count v \<noteq> 1"
  shows "inv_unref U i w = Inr (set_inv i (v\<lparr>i_ref_count := i_ref_count v - 1\<rparr>) w)"
  using assms by (cases v) (simp add: inv_unref_def Let_def)

lemma inv_unref_last:
  assumes "invs w i = Some v" and "\<not> i_lock v" and "i_ref_count v = 1" and "i_source v \<noteq> i_target v"
    and "clients w (i_source v) = Some cs" and "\<not> c_lock cs" and "c_ref_count cs \<noteq> 1"
    and "clients w (i_target v) = Some ct" and "\<not> c_lock ct" and "c_ref_count ct \<noteq> 1"
    and g: "case i_game v of None \<Rightarrow> True | Some g \<Rightarrow> (case games w g of None \<Rightarrow> False | Some gm \<Rightarrow> game_ok gm)"
  shows "inv_unref (client_unref F) i w = Inr (drop_w i w)"
proof -
  let ?v = "v\<lparr>i_ref_count := i_ref_count v - 1, i_lock := False\<rparr>"
  let ?w = "(set_inv i ?v w)\<lparr>games := (case i_game v of None \<Rightarrow> games w | Some g \<Rightarrow> (games w)(g := None))\<rparr>"
  have games: "(case i_game ?v of None \<Rightarrow> Inr (set_inv i ?v w) | Some g \<Rightarrow> game_unref_w g (set_inv i ?v w)) = Inr ?w"
    using g by (cases "i_game v") (auto simp: game_unref_w_def game_ok_def set_inv_def split: option.splits)
  have u: "inv_unref (client_unref F) i w = and_then (Inr ?w) (\<lambda>w. and_then (client_unref F (i_source v) w)
      (\<lambda>w. and_then (client_unref F (i_target v) w) (\<lambda>w. Inr (w\<lparr>invs := (invs w)(i := None)\<rparr>))))"
    using assms(1-3) games by (simp add: inv_unref_def Let_def cong: option.case_cong)
  have s: "client_unref F (i_source v) ?w = Inr (?w\<lparr>clients := less_ref (i_source v) (clients w)\<rparr>)"
    using client_unref_alive [of ?w "i_source v" cs F] assms by (simp add: set_inv_def)
  let ?w2 = "?w\<lparr>clients := less_ref (i_source v) (clients w)\<rparr>"
  have t: "client_unref F (i_target v) ?w2
      = Inr (?w2\<lparr>clients := less_ref (i_target v) (less_ref (i_source v) (clients w))\<rparr>)"
    using client_unref_alive [of ?w2 "i_target v" ct F] assms by (simp add: less_ref_apply)
  show ?thesis
    using assms(1) s t by (simp add: u drop_w_def Let_def set_inv_def)
qed

lemma purge_id_ok:
  assumes "clients w c = Some cl" and "\<not> c_lock cl" and "0 \<le> n"
    and "n < int (length (available_ids cl))" and "current_id_size cl = int (length (available_ids cl))"
  shows "purge_id c n w = Inr (set_client c (cl\<lparr>available_ids := (available_ids cl)[nat n := n],
    id_usage := id_usage cl - 1\<rparr>) w)"
  using assms by (cases cl) (simp add: purge_id_def Let_def)

lemma held_unlink_w: "invs w i = Some v \<Longrightarrow> held (unlink_w c i w) = held w"
  by (auto simp: unlink_w_def held_def Let_def fun_eq_iff split: prod.splits)

lemma listed_unlink_w:
  assumes "clients w c = Some cl" and "listed w c i" and "ids_ok cl"
  shows "listed (unlink_w c i w) d j \<longleftrightarrow> listed w d j \<and> \<not> (d = c \<and> j = i)"
proof -
  obtain n rest where u: "unlink_inv (invite_list cl) i = Some (n, rest)"
    using assms(1,2) unlink_inv_listed [of i "invite_list cl"] by (auto simp: listed_def)
  have "set rest = {m \<in> set (invite_list cl). n_inv m \<noteq> i}"
    using unlink_inv_set(1) [OF u] assms(3) by (simp add: ids_ok_def)
  with u assms(1) show ?thesis by (auto simp: listed_def unlink_w_def Let_def)
qed


lemma objs_okI:
  assumes "\<And>c cl. clients w c = Some cl \<Longrightarrow> client_ok w c cl \<and> refs_ok R w c cl"
    and "\<And>c. c \<in> R \<Longrightarrow> clients w c \<noteq> None"
    and "\<And>i v. invs w i = Some v \<Longrightarrow> inv_ok w i v" and "games_owned w"
  shows "objs_ok R w"
  using assms by (simp add: objs_ok_def)

lemma game_of_upd:
  "invs w i = Some v \<Longrightarrow> i_game u = i_game v \<Longrightarrow> game_of (w\<lparr>clients := f, invs := (invs w)(i \<mapsto> u)\<rparr>) = game_of w"
  by (auto simp: game_of_def fun_eq_iff)

lemma unlink_w_eq:
  assumes "clients w c = Some cl" and "invs w i = Some v" and "unlink_inv (invite_list cl) i = Some (n, rest)"
  shows "unlink_w c i w = w\<lparr>clients := (clients w)(c \<mapsto> release n rest cl),
    invs := (invs w)(i \<mapsto> v\<lparr>i_ref_count := i_ref_count v - 1\<rparr>)\<rparr>"
  using assms by (simp add: unlink_w_def)

lemma held_iff: "invs w i = Some v \<Longrightarrow> i \<in> held w c \<longleftrightarrow> c = i_source v \<or> c = i_target v"
  by (auto simp: held_def)

lemma listed_obtain:
  assumes "objs_ok R w" and "listed w c i"
  obtains cl v n rest where "clients w c = Some cl" "invs w i = Some v"
    "unlink_inv (invite_list cl) i = Some (n, rest)" "c = i_source v \<or> c = i_target v"
proof -
  obtain cl where cl: "clients w c = Some cl" "i \<in> n_inv ` set (invite_list cl)"
    using assms(2) by (auto simp: listed_def split: option.splits)
  moreover obtain n rest where "unlink_inv (invite_list cl) i = Some (n, rest)"
    using unlink_inv_listed [OF cl(2)] by blast
  moreover obtain v where "invs w i = Some v" using listed_held [OF assms] by (auto simp: held_def)
  moreover from this have "c = i_source v \<or> c = i_target v"
    using listed_held [OF assms] held_iff by blast
  ultimately show thesis using that by blast
qed

lemma objs_ok_unlink:
  assumes ok: "objs_ok R w" and l: "listed w c i"
  shows "objs_ok R (unlink_w c i w)"
proof -
  obtain cl v n rest where o: "clients w c = Some cl" "invs w i = Some v"
      "unlink_inv (invite_list cl) i = Some (n, rest)" and party: "c = i_source v \<or> c = i_target v"
    using listed_obtain [OF ok l] .
  note e = unlink_w_eq [OF o]
  note h = held_unlink_w [OF o(2), of c]
  note li = listed_unlink_w [OF o(1) l objs_clientD(2) [OF ok o(1)]]
  have rest: "set rest \<subseteq> set (invite_list cl)"
    using unlink_inv_set(1) [OF o(3)] objs_clientD(2) [OF ok o(1)] by (auto simp: ids_ok_def)
  show ?thesis
  proof (rule objs_okI)
    fix d dl
    assume d: "clients (unlink_w c i w) d = Some dl"
    show "client_ok (unlink_w c i w) d dl \<and> refs_ok R (unlink_w c i w) d dl"
    proof (cases "d = c")
      case True
      have dl: "dl = release n rest cl" using d True by (simp add: e)
      have "client_ok w c cl" "refs_ok R w c cl" using ok o(1) by (auto simp: objs_ok_def)
      with True rest show ?thesis
        using ids_ok_release [OF objs_clientD(2) [OF ok o(1)] o(3)] 
        unfolding dl client_ok_def refs_ok_def h by (auto simp: e cong: option.case_cong)
    next
      case False
      then have "clients w d = Some dl" using d by (simp add: e)
      then have "client_ok w d dl" "refs_ok R w d dl" using ok by (auto simp: objs_ok_def)
      then show ?thesis unfolding client_ok_def refs_ok_def h by (auto simp: e cong: option.case_cong)
    qed
  next
    fix d
    assume "d \<in> R"
    then show "clients (unlink_w c i w) d \<noteq> None" using objs_regD [OF ok] by (auto simp: e)
  next
    fix j u
    assume j: "invs (unlink_w c i w) j = Some u"
    show "inv_ok (unlink_w c i w) j u"
    proof (cases "j = i")
      case True
      have u: "u = v\<lparr>i_ref_count := i_ref_count v - 1\<rparr>" using j True by (simp add: e)
      have "inv_ok w i v" using objs_invD [OF ok o(2)] .
      with True party l show ?thesis unfolding u inv_ok_def li by (auto simp: e cong: option.case_cong)
    next
      case False
      then have "inv_ok w j u" using j objs_invD [OF ok] by (simp add: e)
      with False show ?thesis unfolding inv_ok_def li by (auto simp: e cong: option.case_cong)
    qed
  next
    show "games_owned (unlink_w c i w)"
      using ok o(2) by (simp add: objs_ok_def games_owned_def game_of_upd e)
  qed
qed


lemma drop_w_eq:
  assumes "invs w i = Some v"
  shows "drop_w i w = w\<lparr>clients := less_ref (i_target v) (less_ref (i_source v) (clients w)),
    invs := (invs w)(i := None),
    games := (case i_game v of None \<Rightarrow> games w | Some g \<Rightarrow> (games w)(g := None))\<rparr>"
  using assms by (simp add: drop_w_def)

lemma held_drop_w: "invs w i = Some v \<Longrightarrow> held (drop_w i w) c = held w c - {i}"
  by (auto simp: drop_w_eq held_def)

lemma listed_drop_w: "invs w i = Some v \<Longrightarrow> listed (drop_w i w) = listed w"
  by (auto simp: drop_w_eq listed_def less_ref_apply fun_eq_iff split: option.splits)

lemma game_of_drop_w: "invs w i = Some v \<Longrightarrow> game_of (drop_w i w) = (game_of w)(i := None)"
  by (auto simp: drop_w_eq game_of_def)

lemma games_owned_drop:
  assumes "games_owned w" and v: "invs w i = Some v"
  shows "games_owned (drop_w i w)"
proof -
  have "game_of w i = i_game v" using v by (simp add: game_of_def)
  have inj: "j = k" if "game_of (drop_w i w) j = Some g" "game_of (drop_w i w) k = Some g" for j k g
    using assms(1) that unfolding games_owned_def game_of_drop_w [OF v] by (auto split: if_splits)
  have own: "g < next_addr w \<and> (\<exists>j. game_of (drop_w i w) j = Some g)" if "games (drop_w i w) g \<noteq> None" for g
  proof -
    have g: "games w g \<noteq> None" "i_game v \<noteq> Some g"
      using that by (auto simp: drop_w_eq [OF v] split: option.splits if_splits)
    then obtain j where "game_of w j = Some g" "g < next_addr w" using assms(1) unfolding games_owned_def by blast
    then show ?thesis
      using g \<open>game_of w i = i_game v\<close> by (intro conjI exI [of _ j]) (auto simp: game_of_drop_w [OF v])
  qed
  show ?thesis
    unfolding games_owned_def using inj own by (auto simp: drop_w_eq [OF v])
qed

text \<open>A client with one reference less, when one of its invitations is gone.\<close>

lemma refs_ok_drop:
  assumes "objs_ok R w" and "invs w i = Some v" and "clients w c = Some cl" and "c \<in> R"
    and "c = i_source v \<or> c = i_target v"
  shows "refs_ok R (drop_w i w) c (cl\<lparr>c_ref_count := c_ref_count cl - 1\<rparr>)"
proof -
  have "i \<in> held w c" using assms(2,5) by (auto simp: held_def)
  then have "card (held w c - {i}) = card (held w c) - 1" "0 < card (held w c)"
    using finite_held [OF assms(1), of c] by (auto simp: card_gt_0_iff)
  then show ?thesis
    using objs_clientD(5) [OF assms(1,3)] assms(4) by (simp add: refs_ok_def held_drop_w [OF assms(2)])
qed

lemma objs_ok_drop:
  assumes ok: "objs_ok R w" and v: "invs w i = Some v" and R: "i_source v \<in> R" "i_target v \<in> R"
    and l: "\<not> listed w (i_source v) i" "\<not> listed w (i_target v) i"
  shows "objs_ok R (drop_w i w)"
proof -
  note e = drop_w_eq [OF v]
  note h = held_drop_w [OF v]
  note li = listed_drop_w [OF v]
  have ne: "i_source v \<noteq> i_target v" using objs_invD [OF ok v] by (simp add: inv_ok_def)
  have own: "games_owned w" using ok by (simp add: objs_ok_def)
  have nl: "\<not> listed w c i" for c
  proof
    assume "listed w c i"
    then have "i \<in> held w c" using listed_held [OF ok] by blast
    then have "c = i_source v \<or> c = i_target v" using held_iff [OF v] by blast
    with \<open>listed w c i\<close> l show False by blast
  qed
  have cok: "client_ok (drop_w i w) d (cl\<lparr>c_ref_count := k\<rparr>)" if "clients w d = Some cl" for d cl k
  proof -
    have "client_ok w d cl" using ok that by (simp add: objs_ok_def)
    moreover have "i \<notin> n_inv ` set (invite_list cl)" using nl [of d] that by (simp add: listed_def)
    ultimately show ?thesis unfolding client_ok_def h
      by (auto simp: e ids_ok_def cong: option.case_cong)
  qed
  show ?thesis
  proof (rule objs_okI)
    fix d dl
    assume d: "clients (drop_w i w) d = Some dl"
    show "client_ok (drop_w i w) d dl \<and> refs_ok R (drop_w i w) d dl"
    proof (cases "d = i_source v \<or> d = i_target v")
      case True
      then obtain cl where "clients w d = Some cl" "dl = cl\<lparr>c_ref_count := c_ref_count cl - 1\<rparr>"
        using d ne by (auto simp: e less_ref_apply)
      then show ?thesis using cok refs_ok_drop [OF ok v] True R by metis
    next
      case False
      then have dl: "clients w d = Some dl" using d by (simp add: e less_ref_apply)
      moreover have "i \<notin> held w d" using False held_iff [OF v] by blast
      moreover have "refs_ok R w d dl" using ok dl by (simp add: objs_ok_def)
      moreover have "client_ok (drop_w i w) d dl" using cok [OF dl, of "c_ref_count dl"] by simp
      ultimately show ?thesis by (simp add: refs_ok_def h)
    qed
  next
    fix d
    assume "d \<in> R"
    then show "clients (drop_w i w) d \<noteq> None" using objs_regD [OF ok] by (auto simp: e less_ref_apply)
  next
    fix j u
    assume j: "invs (drop_w i w) j = Some u"
    then have ji: "j \<noteq> i" and u: "invs w j = Some u" by (auto simp: e split: if_splits)
    have "game_of w j = i_game u" "game_of w i = i_game v" using u v by (simp_all add: game_of_def)
    then have "i_game u \<noteq> i_game v \<or> i_game v = None"
      using own ji unfolding games_owned_def by (metis option.exhaust)
    then have "\<And>g. i_game u = Some g \<Longrightarrow> games (drop_w i w) g = games w g"
      by (auto simp: e split: option.splits)
    with objs_invD [OF ok u] show "inv_ok (drop_w i w) j u" unfolding inv_ok_def li
      by (auto simp: less_ref_apply e split: option.splits)
  next
    show "games_owned (drop_w i w)" using games_owned_drop [OF own v] .
  qed
qed


section \<open>What a handler leaves alone\<close>

definition who :: "world \<Rightarrow> addr \<Rightarrow> (ptr \<times> CLIENT_STATE \<times> int) option" where
  "who w c = map_option (\<lambda>cl. (c_player cl, logged_in cl, c_fd cl)) (clients w c)"

definition whose :: "world \<Rightarrow> addr \<Rightarrow> (string option \<times> int \<times> mutex) option" where
  "whose w a = map_option (\<lambda>p. (p_name p, p_ref_count p, p_mutex p)) (players w a)"

text \<open>
  The handlers for invitations and games keep the registries, who is logged in on which
  connection, and everything of a player but the rating.
\<close>

definition frame :: "world \<Rightarrow> world \<Rightarrow> bool" where
  "frame w w' \<longleftrightarrow> creg w' = creg w \<and> preg w' = preg w \<and> is_sem_init w' = is_sem_init w
     \<and> env_same (sy w) (sy w') \<and> sems w' = sems w \<and> who w' = who w \<and> whose w' = whose w
     \<and> next_addr w \<le> next_addr w'"

lemma frame_refl [simp]: "frame w w"
  by (simp add: frame_def)

lemma frame_trans: "frame u v \<Longrightarrow> frame v w \<Longrightarrow> frame u w"
  by (auto simp: frame_def intro: env_same_trans)

lemma who_upd [simp]:
  "who (w\<lparr>sy := s\<rparr>) = who w" "who (w\<lparr>sems := q\<rparr>) = who w" "who (w\<lparr>games := h\<rparr>) = who w"
  "who (w\<lparr>players := ps\<rparr>) = who w" "who (w\<lparr>invs := k\<rparr>) = who w" "who (w\<lparr>next_addr := m\<rparr>) = who w"
  by (simp_all add: who_def fun_eq_iff)

lemma whose_upd [simp]:
  "whose (w\<lparr>sy := s\<rparr>) = whose w" "whose (w\<lparr>sems := q\<rparr>) = whose w" "whose (w\<lparr>games := h\<rparr>) = whose w"
  "whose (w\<lparr>clients := f\<rparr>) = whose w" "whose (w\<lparr>invs := k\<rparr>) = whose w" "whose (w\<lparr>next_addr := m\<rparr>) = whose w"
  by (simp_all add: whose_def fun_eq_iff)

lemma frame_sy: "env_same (sy w) s \<Longrightarrow> frame w (w\<lparr>sy := s\<rparr>)"
  by (simp add: frame_def)

lemma frame_no_oom: "frame w w' \<Longrightarrow> no_oom (sy w') = no_oom (sy w)"
  by (simp add: frame_def env_same_no_oom)

lemma frame_sems_free: "frame w w' \<Longrightarrow> sems_free w' = sems_free w"
  by (simp add: frame_def sems_free_def)

lemma player_live_whose:
  "player_live w a \<longleftrightarrow> a < next_addr w \<and> (\<exists>n k. whose w a = Some (Some n, k, False) \<and> 0 < k)"
  by (auto simp: player_live_def whose_def split: option.splits)

lemma frame_player_live: "frame w w' \<Longrightarrow> player_live w a \<Longrightarrow> player_live w' a"
  by (simp add: player_live_whose frame_def)

lemma who_upd_client:
  "clients w c = Some cl \<Longrightarrow> c_player dl = c_player cl \<Longrightarrow> logged_in dl = logged_in cl \<Longrightarrow> c_fd dl = c_fd cl
     \<Longrightarrow> who (w\<lparr>clients := (clients w)(c \<mapsto> dl)\<rparr>) = who w"
  by (auto simp: who_def)

lemma who_less_ref: "who (w\<lparr>clients := less_ref c (clients w)\<rparr>) = who w"
  by (auto simp: who_def less_ref_apply fun_eq_iff option.map_comp comp_def)

section \<open>Removal in a list\<close>

lemma client_remove_none:
  assumes "clients w c = Some cl" and "\<not> listed w c i" and "sems w CLIENT_INVITE_SEM = 1"
  shows "client_remove_invitation U c i w = Inr (-1, w)"
proof -
  have "unlink_inv (invite_list cl) i = None" using assms(1,2) by (simp add: listed_def unlink_inv_None)
  moreover have "(sems w)(CLIENT_INVITE_SEM := 1) = sems w" using assms(3) by (auto simp: fun_eq_iff)
  ultimately show ?thesis
    using assms by (simp add: client_remove_invitation_def sem_wait_w_1 sem_post_w_def)
qed

lemma client_remove_eq:
  assumes ok: "objs_ok R w" and l: "listed w c i" and v: "invs w i = Some v"
    and R: "i_source v \<in> R" "i_target v \<in> R" and s: "sems w CLIENT_INVITE_SEM = 1"
  shows "\<exists>n \<ge> 0. client_remove_invitation (client_unref F) c i w = Inr (n, removed_w c i w)"
proof -
  obtain cl v' n rest where o: "clients w c = Some cl" "invs w i = Some v'"
      "unlink_inv (invite_list cl) i = Some (n, rest)" and party: "c = i_source v' \<or> c = i_target v'"
    using listed_obtain [OF ok l] .
  have v': "v' = v" using o(2) v by simp
  note cl = objs_clientD [OF ok o(1)]
  have nn: "0 \<le> n" "n < int (length (available_ids cl))" "current_id_size cl = int (length (available_ids cl))"
    using cl(2) unlink_inv_set(2) [OF o(3)] by (auto simp: ids_ok_def)
  have sm: "(sems w)(CLIENT_INVITE_SEM := 1) = sems w" using s by (auto simp: fun_eq_iff)
  note vok = objs_invD [OF ok v, unfolded inv_ok_def]
  let ?w = "set_client c (cl\<lparr>invite_list := rest\<rparr>) (w\<lparr>sems := (sems w)(CLIENT_INVITE_SEM := 0)\<rparr>)"
  have two: "c_ref_count dl \<noteq> 1 \<and> \<not> c_lock dl" if "clients w d = Some dl" "d = i_source v \<or> d = i_target v" for d dl
  proof -
    have "i \<in> held w d" using that(2) v by (auto simp: held_def)
    then have "0 < card (held w d)" using finite_held [OF ok] by (auto simp: card_gt_0_iff)
    then show ?thesis using objs_clientD [OF ok that(1)] R that(2) by auto
  qed
  have start: "client_remove_invitation (client_unref F) c i w =
      and_then (inv_unref (client_unref F) i ?w) (\<lambda>w. and_then (purge_id c n w)
        (\<lambda>w. Inr (n, sem_post_w CLIENT_INVITE_SEM w)))"
    using o s by (simp add: client_remove_invitation_def sem_wait_w_1)
  show ?thesis
  proof (cases "i_ref_count v = 1")
    case False
    have "inv_unref (client_unref F) i ?w = Inr (set_inv i (v\<lparr>i_ref_count := i_ref_count v - 1\<rparr>) ?w)"
      using inv_unref_alive [of ?w i v] False v vok by (simp add: set_client_def)
    then show ?thesis using start False nn cl(1) o v sm
      by (simp add: purge_id_ok set_defs removed_w_def unlink_w_eq release_def sem_post_w_def)
  next
    case True
    obtain cs ct where "clients w (i_source v) = Some cs" "clients w (i_target v) = Some ct" using vok by blast
    note ct = this two [OF this(1)] two [OF this(2)]
    have "inv_unref (client_unref F) i ?w = Inr (drop_w i ?w)"
      using vok v True ct o(1)
      by (intro inv_unref_last [of ?w i v "if i_source v = c then cl\<lparr>invite_list := rest\<rparr> else cs"
            "if i_target v = c then cl\<lparr>invite_list := rest\<rparr> else ct"])
        (auto simp: set_client_def split: option.splits)
    then have start: "client_remove_invitation (client_unref F) c i w =
        and_then (purge_id c n (drop_w i ?w)) (\<lambda>w. Inr (n, sem_post_w CLIENT_INVITE_SEM w))"
      using start by simp
    have "clients (drop_w i ?w) c = Some (cl\<lparr>invite_list := rest, c_ref_count := c_ref_count cl - 1\<rparr>)"
      using party v v' vok by (auto simp: drop_w_def less_ref_apply set_client_def)
    note purge = purge_id_ok [OF this, of n]
    have ne: "i_source v \<noteq> i_target v" using vok by simp
    have rem: "removed_w c i w = drop_w i (w\<lparr>clients := (clients w)(c \<mapsto> release n rest cl),
        invs := (invs w)(i \<mapsto> v\<lparr>i_ref_count := i_ref_count v - 1\<rparr>)\<rparr>)"
      using True unlink_w_eq [OF o(1) v o(3)] v by (simp add: removed_w_def)
    consider "i_source v = c" "i_target v \<noteq> c" | "i_source v \<noteq> c" "i_target v = c" using party v' ne by auto
    then have "sem_post_w CLIENT_INVITE_SEM (set_client c (cl\<lparr>invite_list := rest,
        c_ref_count := c_ref_count cl - 1, available_ids := (available_ids cl)[nat n := n],
        id_usage := id_usage cl - 1\<rparr>) (drop_w i ?w)) = removed_w c i w"
      using v sm by cases
        (cases cl, rule world.equality, simp_all add: rem drop_w_def set_client_def release_def
          sem_post_w_def less_ref_upd Let_def cong: option.case_cong)+
    then show ?thesis using start purge nn cl(1) by (intro exI [of _ n]) simp
  qed
qed


lemma removed_w_invs:
  assumes "objs_ok R w" and "listed w c i" and "invs w i = Some v"
  shows "invs (removed_w c i w) =
    (invs w)(i := if i_ref_count v = 1 then None else Some (v\<lparr>i_ref_count := i_ref_count v - 1\<rparr>))"
proof -
  obtain cl n rest where o: "clients w c = Some cl" "unlink_inv (invite_list cl) i = Some (n, rest)"
    using listed_obtain [OF assms(1,2)] by blast
  show ?thesis
    by (auto simp: removed_w_def drop_w_def unlink_w_eq [OF o(1) assms(3) o(2)] Let_def assms(3))
qed

lemma unlink_w_inv:
  assumes "objs_ok R w" and "listed w c i" and "invs w i = Some v"
  shows "invs (unlink_w c i w) i = Some (v\<lparr>i_ref_count := i_ref_count v - 1\<rparr>)"
proof -
  obtain cl n rest where o: "clients w c = Some cl" "unlink_inv (invite_list cl) i = Some (n, rest)"
    using listed_obtain [OF assms(1,2)] by blast
  show ?thesis by (simp add: unlink_w_eq [OF o(1) assms(3) o(2)])
qed

lemma inv_ref_count:
  "objs_ok R w \<Longrightarrow> invs w i = Some v \<Longrightarrow>
     i_ref_count v = of_bool (listed w (i_source v) i) + of_bool (listed w (i_target v) i)"
  by (drule (1) objs_invD) (simp add: inv_ok_def)

lemma removed_w_listed:
  assumes "objs_ok R w" and "listed w c i" and "invs w i = Some v"
  shows "listed (removed_w c i w) d j \<longleftrightarrow> listed w d j \<and> \<not> (d = c \<and> j = i)"
proof -
  obtain cl where "clients w c = Some cl" using listed_obtain [OF assms(1,2)] by blast
  from listed_unlink_w [OF this assms(2) objs_clientD(2) [OF assms(1) this], of d j] show ?thesis
    using listed_drop_w [OF unlink_w_inv [OF assms]] by (simp add: removed_w_def)
qed

lemma removed_w_objs_ok:
  assumes ok: "objs_ok R w" and l: "listed w c i" and v: "invs w i = Some v"
    and R: "i_source v \<in> R" "i_target v \<in> R"
  shows "objs_ok R (removed_w c i w)"
proof (cases "i_ref_count v = 1")
  case False
  then show ?thesis using objs_ok_unlink [OF ok l] v by (simp add: removed_w_def)
next
  case True
  note ul = objs_ok_unlink [OF ok l]
  note u = unlink_w_inv [OF ok l v]
  have "\<not> listed (unlink_w c i w) (i_source v) i" "\<not> listed (unlink_w c i w) (i_target v) i"
    using inv_ref_count [OF ul u] True by (auto split: split_of_bool_asm)
  with objs_ok_drop [OF ul u] R True v show ?thesis by (simp add: removed_w_def)
qed

lemma removed_w_pos:
  assumes "objs_ok R w" and "listed w c i" and "invs w i = Some v" and "pos_refs w"
  shows "pos_refs (removed_w c i w)"
  using assms(4) removed_w_invs [OF assms(1-3)] assms(3) by (auto simp: pos_refs_def split: if_splits)
    (metis int_one_le_iff_zero_less order_le_imp_less_or_eq)

lemma removed_w_frame:
  assumes "objs_ok R w" and "listed w c i" and "invs w i = Some v"
  shows "frame w (removed_w c i w)"
proof -
  obtain cl n rest where o: "clients w c = Some cl" "unlink_inv (invite_list cl) i = Some (n, rest)"
    using listed_obtain [OF assms(1,2)] by blast
  have "who (unlink_w c i w) = who w"
    using who_upd_client [OF o(1), of "release n rest cl"] by (simp add: unlink_w_eq [OF o(1) assms(3) o(2)])
  then have u: "frame w (unlink_w c i w)"
    by (simp add: frame_def unlink_w_eq [OF o(1) assms(3) o(2)])
  note i = unlink_w_inv [OF assms]
  have "who (drop_w i (unlink_w c i w)) = who (unlink_w c i w)"
    by (auto simp: drop_w_eq [OF i] who_def less_ref_apply fun_eq_iff option.map_comp comp_def)
  then have "frame (unlink_w c i w) (drop_w i (unlink_w c i w))" by (simp add: frame_def drop_w_eq [OF i])
  with u show ?thesis by (auto simp: removed_w_def intro: frame_trans)
qed

lemma live_okI_gone:
  assumes "live_ok R w" and "invs w' = (invs w)(i := None)"
    and "\<And>d j. j \<noteq> i \<Longrightarrow> listed w' d j = listed w d j"
  shows "live_ok R w'"
  using assms by (auto simp: live_ok_def split: if_splits)

lemma live_okI_closed:
  assumes "live_ok R w" and "\<And>j. j \<noteq> i \<Longrightarrow> invs w' j = invs w j"
    and "\<And>v. invs w' i = Some v \<Longrightarrow> i_state v = INV_CLOSED_STATE"
    and "\<And>d j. j \<noteq> i \<Longrightarrow> listed w' d j = listed w d j"
  shows "live_ok R w'"
  using assms unfolding live_ok_def by metis

text \<open>Removing a closed invitation from one list.\<close>

lemma removed_w_core:
  assumes "core R w" and "listed w c i" and v: "invs w i = Some v" and "i_state v = INV_CLOSED_STATE"
    and "i_source v \<in> R" "i_target v \<in> R"
  shows "core R (removed_w c i w)"
proof -
  note c = assms(1) [unfolded core_def]
  note ok = conjunct1 [OF c]
  have "live_ok R (removed_w c i w)"
  proof (rule live_okI_closed)
    show "live_ok R w" using c by simp
    show "invs (removed_w c i w) j = invs w j" if "j \<noteq> i" for j
      using that by (simp add: removed_w_invs [OF ok assms(2) v])
    show "i_state u = INV_CLOSED_STATE" if "invs (removed_w c i w) i = Some u" for u
      using that assms(4) by (auto simp: removed_w_invs [OF ok assms(2) v] split: if_splits)
    show "listed (removed_w c i w) d j = listed w d j" if "j \<noteq> i" for d j
      using that by (simp add: removed_w_listed [OF ok assms(2) v])
  qed
  moreover have "no_oom (sy (removed_w c i w))"
    using c removed_w_frame [OF ok assms(2) v] frame_no_oom by blast
  ultimately show ?thesis
    using removed_w_objs_ok [OF ok assms(2) v assms(5,6)] removed_w_pos [OF ok assms(2) v] c
    by (simp add: core_def)
qed

end
