(* ===== verification/Handlers.thy ===== *)
theory Handlers
  imports Ownership
begin

text \<open>
  The handlers of \<^verbatim>\<open>src/client.c\<close> under the ownership invariant: making, revoking, declining and
  accepting an invitation, resigning, moving and logging out never fault, keep the invariant, and
  leave everything else alone; what they do on each branch is stated as well.
\<close>

lemma coreD: "core R w \<Longrightarrow> objs_ok R w" "core R w \<Longrightarrow> live_ok R w" "core R w \<Longrightarrow> pos_refs w"
    "core R w \<Longrightarrow> no_oom (sy w)"
  by (simp_all add: core_def)

lemma core_client: "core R w \<Longrightarrow> c \<in> R \<Longrightarrow> \<exists>cl. clients w c = Some cl \<and> \<not> c_lock cl"
  using objs_regD [OF coreD(1)] objs_clientD(1) [OF coreD(1)] by blast

lemma state_string_nonempty [simp]: "state_string g \<noteq> []"
  using length_state_string [of g] by fastforce

section \<open>Nodes\<close>

definition nodes :: "world \<Rightarrow> addr \<Rightarrow> INVITATION_NODE set" where
  "nodes w c = (case clients w c of None \<Rightarrow> {} | Some cl \<Rightarrow> set (invite_list cl))"

lemma listed_nodes: "listed w c i \<longleftrightarrow> i \<in> n_inv ` nodes w c"
  by (auto simp: listed_def nodes_def split: option.splits)

lemma nodes_upd [simp]:
  "nodes (w\<lparr>sy := s\<rparr>) = nodes w" "nodes (w\<lparr>sems := q\<rparr>) = nodes w" "nodes (w\<lparr>games := h\<rparr>) = nodes w"
  "nodes (w\<lparr>creg := x\<rparr>) = nodes w" "nodes (w\<lparr>preg := y\<rparr>) = nodes w" "nodes (w\<lparr>players := ps\<rparr>) = nodes w"
  "nodes (w\<lparr>invs := f\<rparr>) = nodes w" "nodes (w\<lparr>next_addr := m\<rparr>) = nodes w"
  by (simp_all add: nodes_def fun_eq_iff)

lemma removed_w_nodes:
  assumes "objs_ok R w" and "listed w c i" and "invs w i = Some v"
  shows "nodes (removed_w c i w) d = (if d = c then {m \<in> nodes w c. n_inv m \<noteq> i} else nodes w d)"
proof -
  obtain cl n rest where o: "clients w c = Some cl" "unlink_inv (invite_list cl) i = Some (n, rest)"
    using listed_obtain [OF assms(1,2)] by blast
  have r: "set rest = {m \<in> set (invite_list cl). n_inv m \<noteq> i}"
    using unlink_inv_set(1) [OF o(2)] objs_clientD(2) [OF assms(1) o(1)] by (simp add: ids_ok_def)
  have u: "nodes (unlink_w c i w) d = (if d = c then {m \<in> nodes w c. n_inv m \<noteq> i} else nodes w d)"
    using o(1) r by (simp add: unlink_w_eq [OF o(1) assms(3) o(2)] nodes_def)
  have "nodes (drop_w i (unlink_w c i w)) d = nodes (unlink_w c i w) d"
    by (auto simp: drop_w_eq [OF unlink_w_inv [OF assms]] nodes_def less_ref_apply split: option.splits)
  with u show ?thesis by (auto simp: removed_w_def)
qed

text \<open>
  An invitation is closed or gone, no other is touched, and no list loses another node.
\<close>

definition closes :: "addr \<Rightarrow> world \<Rightarrow> world \<Rightarrow> bool" where
  "closes i w w' \<longleftrightarrow> (\<forall>j. j \<noteq> i \<longrightarrow> invs w' j = invs w j)
     \<and> (\<forall>v. invs w' i = Some v \<longrightarrow> i_state v = INV_CLOSED_STATE \<and> (\<exists>u. invs w i = Some u \<and> i_game u = i_game v))
     \<and> (\<forall>d. {m \<in> nodes w d. n_inv m \<noteq> i} \<subseteq> nodes w' d \<and> nodes w' d \<subseteq> nodes w d)"

lemma closes_trans:
  assumes "closes i u v" and "closes i v w"
  shows "closes i u w"
proof -
  have "{m \<in> nodes u d. n_inv m \<noteq> i} \<subseteq> nodes w d" for d using assms unfolding closes_def by blast
  moreover have "nodes w d \<subseteq> nodes u d" for d using assms unfolding closes_def by blast
  moreover have "i_state x = INV_CLOSED_STATE \<and> (\<exists>y. invs u i = Some y \<and> i_game y = i_game x)" if "invs w i = Some x" for x
    using that assms unfolding closes_def by metis
  moreover have "invs w j = invs u j" if "j \<noteq> i" for j using that assms by (simp add: closes_def)
  ultimately show ?thesis unfolding closes_def by blast
qed

lemma closes_upd [simp]:
  "closes i w (w'\<lparr>sy := s\<rparr>) = closes i w w'" "closes i w (w'\<lparr>sems := q\<rparr>) = closes i w w'"
  "closes i w (w'\<lparr>players := ps\<rparr>) = closes i w w'" "closes i (w\<lparr>players := ps\<rparr>) w' = closes i w w'"
  "closes i (w\<lparr>games := gs\<rparr>) w' = closes i w w'"
  "closes i (w\<lparr>sy := s\<rparr>) w' = closes i w w'" "closes i (w\<lparr>sems := q\<rparr>) w' = closes i w w'"
  by (simp_all add: closes_def)

lemma removed_w_closes:
  assumes "objs_ok R w" and "listed w c i" and "invs w i = Some v" and "i_state v = INV_CLOSED_STATE"
  shows "closes i w (removed_w c i w)"
  using assms(3,4) unfolding closes_def removed_w_invs [OF assms(1-3)] removed_w_nodes [OF assms(1-3)]
  by (auto split: if_splits)

section \<open>Closing\<close>

definition close_w :: "addr \<Rightarrow> world \<Rightarrow> world" where
  "close_w i w = set_inv i ((the (invs w i))\<lparr>i_state := INV_CLOSED_STATE\<rparr>) w"

lemma close_w_eq:
  "invs w i = Some v \<Longrightarrow> close_w i w = w\<lparr>invs := (invs w)(i \<mapsto> v\<lparr>i_state := INV_CLOSED_STATE\<rparr>)\<rparr>"
  by (simp add: close_w_def set_inv_def)

lemma close_w_fields [simp]:
  "clients (close_w i w) = clients w" "sy (close_w i w) = sy w" "sems (close_w i w) = sems w"
  "players (close_w i w) = players w" "games (close_w i w) = games w" "nodes (close_w i w) = nodes w"
  "listed (close_w i w) = listed w"
  by (simp_all add: close_w_def set_inv_def)

lemma set_game_fields [simp]:
  "clients (set_game g x w) = clients w" "sy (set_game g x w) = sy w" "sems (set_game g x w) = sems w"
  "players (set_game g x w) = players w" "invs (set_game g x w) = invs w" "nodes (set_game g x w) = nodes w"
  "listed (set_game g x w) = listed w" "games (set_game g x w) = (games w)(g \<mapsto> x)"
  "closes i (set_game g x w) w' = closes i w w'"
  by (simp_all add: set_game_def)

text \<open>An invitation may be changed in its state and game, as long as the two agree.\<close>

lemma objs_ok_set_inv:
  assumes ok: "objs_ok R w" and v: "invs w i = Some v"
    and u: "u = v\<lparr>i_state := st\<rparr>" and st: "st \<noteq> INV_OPEN_STATE" "i_game v = None \<longrightarrow> st \<noteq> INV_ACCEPTED_STATE"
    and stop: "st = INV_CLOSED_STATE \<longrightarrow> (\<forall>g. i_game v = Some g \<longrightarrow> stopped (the (games w g)))"
  shows "objs_ok R (w\<lparr>invs := (invs w)(i \<mapsto> u)\<rparr>)"
proof -
  let ?w = "w\<lparr>invs := (invs w)(i \<mapsto> u)\<rparr>"
  have h: "held ?w = held w" using v u by (auto simp: held_def fun_eq_iff)
  have g: "game_of ?w = game_of w" using v u by (auto simp: game_of_def fun_eq_iff)
  show ?thesis
  proof (rule objs_okI)
    fix c cl
    assume "clients ?w c = Some cl"
    then have "client_ok w c cl" "refs_ok R w c cl" using ok by (simp_all add: objs_ok_def)
    then show "client_ok ?w c cl \<and> refs_ok R ?w c cl"
      unfolding client_ok_def refs_ok_def h by (simp cong: option.case_cong)
  next
    fix c
    assume "c \<in> R"
    then show "clients ?w c \<noteq> None" using ok by (simp add: objs_ok_def)
  next
    fix j x
    assume j: "invs ?w j = Some x"
    show "inv_ok ?w j x"
    proof (cases "j = i")
      case True
      then have x: "x = v\<lparr>i_state := st\<rparr>" using j u by simp
      note vok = objs_invD [OF ok v, unfolded inv_ok_def]
      show ?thesis
      proof (cases "i_game v")
        case None
        with True x vok st show ?thesis by (simp add: inv_ok_def)
      next
        case (Some gi)
        with vok obtain gm where "games w gi = Some gm" by (auto split: option.splits)
        with Some True x vok st stop show ?thesis by (simp add: inv_ok_def)
      qed
    next
      case False
      with j have "inv_ok w j x" using objs_invD [OF ok] by simp
      then show ?thesis by (simp add: inv_ok_def cong: option.case_cong)
    qed
  next
    show "games_owned ?w" using ok by (simp add: objs_ok_def games_owned_def g)
  qed
qed

lemma close_w_core:
  assumes "core R w" and v: "invs w i = Some v" and stop: "\<forall>g. i_game v = Some g \<longrightarrow> stopped (the (games w g))"
  shows "core R (close_w i w)" and "closes i w (close_w i w)" and "frame w (close_w i w)"
proof -
  note c = assms(1) [unfolded core_def]
  have "objs_ok R (close_w i w)"
    using objs_ok_set_inv [OF conjunct1 [OF c] v refl, of INV_CLOSED_STATE] stop by (simp add: close_w_eq [OF v])
  moreover have "live_ok R (close_w i w)"
  proof (rule live_okI_closed [where i = i])
    show "live_ok R w" using c by simp
  qed (auto simp: close_w_eq [OF v])
  moreover have "pos_refs (close_w i w)" using c v by (simp add: pos_refs_def close_w_eq [OF v])
  ultimately show "core R (close_w i w)" using c by (simp add: core_def close_w_eq [OF v])
  show "closes i w (close_w i w)" "frame w (close_w i w)"
    using v by (auto simp: closes_def close_w_eq [OF v] frame_def)
qed

lemma inv_of_id_Some: "inv_of_id ns n = Some i \<Longrightarrow> \<lparr>n_id = n, n_inv = i\<rparr> \<in> set ns"
  by (induction ns n rule: inv_of_id.induct) (auto split: if_splits)

lemma get_invitation_ok:
  assumes "core R w" and "clients w c = Some cl"
  shows "client_get_invitation c n w = Inr (inv_of_id (invite_list cl) n)"
  using assms objs_clientD(1) [OF conjunct1 [OF assms(1) [unfolded core_def]] assms(2)]
  by (simp add: client_get_invitation_def)

lemma get_invitation_id_ok:
  assumes "core R w" and "clients w c = Some cl"
  shows "client_get_invitation_id c i w = Inr (id_of_inv (invite_list cl) i)"
  using assms objs_clientD(1) [OF conjunct1 [OF assms(1) [unfolded core_def]] assms(2)]
  by (simp add: client_get_invitation_id_def)

text \<open>An invitation found under an identifier is in the list and alive.\<close>

lemma found_invitation:
  assumes "core R w" and "clients w c = Some cl" and "inv_of_id (invite_list cl) n = Some i"
  shows "listed w c i" and "\<exists>v. invs w i = Some v \<and> (c = i_source v \<or> c = i_target v)"
proof -
  have "\<lparr>n_id = n, n_inv = i\<rparr> \<in> set (invite_list cl)" using inv_of_id_Some [OF assms(3)] .
  then show l: "listed w c i" using assms(2) by (force simp: listed_def)
  from listed_held [OF conjunct1 [OF assms(1) [unfolded core_def]] this]
  show "\<exists>v. invs w i = Some v \<and> (c = i_source v \<or> c = i_target v)" by (auto simp: held_def)
qed

lemma inv_close_null:
  assumes "core R w" and "\<forall>i. p = Some i \<longrightarrow> invs w i \<noteq> None"
  shows "inv_close p NULL_ROLE w =
    (case p of None \<Rightarrow> Inr (-1, w)
     | Some i \<Rightarrow> if i_state (the (invs w i)) = INV_OPEN_STATE then Inr (0, close_w i w) else Inr (-1, w))"
proof (cases p)
  case None
  then show ?thesis by (simp add: inv_close_def)
next
  case (Some i)
  then obtain v where v: "invs w i = Some v" using assms(2) by auto
  then have "inv_ok w i v" using assms(1) objs_invD by (auto simp: core_def)
  with Some v show ?thesis
    by (cases "i_state v") (auto simp: inv_close_def inv_ok_def close_w_def split: option.splits)
qed


section \<open>Removal from two lists\<close>

lemma removed_w_sy [simp]: "sy (removed_w c i w) = sy w" "players (removed_w c i w) = players w"
  by (simp_all add: removed_w_def drop_w_def unlink_w_def Let_def split: prod.splits)

lemma remove_first:
  assumes c: "core R w" and v: "invs w i = Some v" "i_state v = INV_CLOSED_STATE"
    and R: "i_source v \<in> R" "i_target v \<in> R" and l: "listed w a i" and s: "sems w CLIENT_INVITE_SEM = 1"
  shows "\<exists>n \<ge> 0. client_remove_invitation (client_unref F) a i w = Inr (n, removed_w a i w)"
    and "core R (removed_w a i w)" and "frame w (removed_w a i w)" and "closes i w (removed_w a i w)"
  using client_remove_eq [OF _ l v(1) R s] removed_w_core [OF c l v R] removed_w_frame [OF _ l v(1)]
    removed_w_closes [OF _ l v] c by (auto simp: core_def)

text \<open>The second removal succeeds in the list of the other party, and fails in the same list.\<close>

lemma remove_second:
  assumes c: "core R w" and v: "invs w i = Some v" "i_state v = INV_CLOSED_STATE"
    and R: "i_source v \<in> R" "i_target v \<in> R"
    and l: "listed w (i_source v) i" "listed w (i_target v) i" and s: "sems w CLIENT_INVITE_SEM = 1"
    and a: "a = i_source v \<or> a = i_target v" and b: "b = i_source v \<or> b = i_target v"
  shows "\<exists>n w'. client_remove_invitation (client_unref F) b i (removed_w a i w) = Inr (n, w')
    \<and> core R w' \<and> frame w w' \<and> closes i w w' \<and> sy w' = sy w \<and> players w' = players w
    \<and> (if b = a then n = -1 \<and> w' = removed_w a i w else 0 \<le> n \<and> w' = removed_w b i (removed_w a i w) \<and> invs w' i = None)"
proof -
  have ok: "objs_ok R w" using c by (simp add: core_def)
  have la: "listed w a i" using a l by auto
  let ?w = "removed_w a i w"
  note first = remove_first(2-4) [OF c v R la s]
  have s': "sems ?w CLIENT_INVITE_SEM = 1" using first(2) s by (simp add: frame_def)
  note li = removed_w_listed [OF ok la v(1)]
  show ?thesis
  proof (cases "b = a")
    case True
    have "b \<in> R" using b R by auto
    then obtain bl where "clients ?w b = Some bl" using core_client [OF first(1)] by blast
    from client_remove_none [OF this _ s'] True li first show ?thesis by auto
  next
    case False
    then have lb: "listed ?w b i" using b l li by auto
    have ref: "i_ref_count v = 2" using inv_ref_count [OF ok v(1)] l by simp
    then have v': "invs ?w i = Some (v\<lparr>i_ref_count := 1\<rparr>)" by (simp add: removed_w_invs [OF ok la v(1)])
    have ok': "objs_ok R ?w" using first(1) by (simp add: core_def)
    note second = remove_first [OF first(1) v', of b]
    obtain n where "0 \<le> n" "client_remove_invitation (client_unref F) b i ?w = Inr (n, removed_w b i ?w)"
      using second(1) v R lb s' by auto
    moreover have "core R (removed_w b i ?w)" "frame ?w (removed_w b i ?w)" "closes i ?w (removed_w b i ?w)"
      using second(2-4) v R lb s' by simp_all
    moreover have "invs (removed_w b i ?w) i = None" by (simp add: removed_w_invs [OF ok' lb v'])
    ultimately show ?thesis
      using False frame_trans [OF first(2)] closes_trans [OF first(3)]
      by (intro exI [of _ n] exI [of _ "removed_w b i ?w"]) simp
  qed
qed


lemma remove_two:
  assumes c: "core R w" and v: "invs w i = Some v" "i_state v = INV_CLOSED_STATE"
    and R: "i_source v \<in> R" "i_target v \<in> R"
    and l: "listed w (i_source v) i" "listed w (i_target v) i" and s: "sems w CLIENT_INVITE_SEM = 1"
    and a: "a = i_source v \<or> a = i_target v" and b: "b = i_source v \<or> b = i_target v"
  shows "\<exists>m wa n wb. client_remove_invitation (client_unref F) a i w = Inr (m, wa) \<and> 0 \<le> m
    \<and> client_remove_invitation (client_unref F) b i wa = Inr (n, wb)
    \<and> core R wb \<and> frame w wb \<and> closes i w wb \<and> sy wb = sy w \<and> players wb = players w
    \<and> (if b = a then n = -1 \<and> (\<forall>d. d \<noteq> a \<longrightarrow> listed wb d i = listed w d i) else 0 \<le> n \<and> invs wb i = None)"
proof -
  have la: "listed w a i" using a l by auto
  obtain m where m: "0 \<le> m" "client_remove_invitation (client_unref F) a i w = Inr (m, removed_w a i w)"
    using remove_first(1) [OF c v R la s] by blast
  obtain n wb where n: "client_remove_invitation (client_unref F) b i (removed_w a i w) = Inr (n, wb)"
      "core R wb" "frame w wb" "closes i w wb" "sy wb = sy w" "players wb = players w"
      "if b = a then n = -1 \<and> wb = removed_w a i w else 0 \<le> n \<and> invs wb i = None"
    using remove_second [where F = F, OF c v R l s a b] by (elim exE conjE) (auto split: if_splits)
  moreover have "\<forall>d. d \<noteq> a \<longrightarrow> listed (removed_w a i w) d i = listed w d i"
    using removed_w_listed [OF coreD(1) [OF c] la v(1)] by simp
  ultimately show ?thesis
    using m by (intro exI [of _ m] exI [of _ "removed_w a i w"] exI [of _ n] exI [of _ wb]) (auto split: if_splits)
qed

section \<open>Revoking and declining\<close>

abbreviation "OP_SEM \<equiv> CLIENT_INVITE_OP_SEM"

text \<open>The state while a handler holds the semaphore, and the return from it.\<close>

definition busy :: "world \<Rightarrow> world" where
  "busy w = w\<lparr>sems := (sems w)(OP_SEM := 0)\<rparr>"

lemma busy_fields [simp]:
  "sy (busy w) = sy w" "clients (busy w) = clients w" "invs (busy w) = invs w" "games (busy w) = games w"
  "players (busy w) = players w" "next_addr (busy w) = next_addr w" "creg (busy w) = creg w"
  "preg (busy w) = preg w" "nodes (busy w) = nodes w" "listed (busy w) = listed w"
  "core R (busy w) = core R w" "closes i (busy w) w' = closes i w w'"
  by (simp_all add: busy_def)

lemma sem_wait_op: "sems w OP_SEM = 1 \<Longrightarrow> sem_wait_w OP_SEM w = Inr (busy w)"
  by (simp add: sem_wait_w_1 busy_def)

lemma sem_post_op:
  assumes "sems w OP_SEM = 1" and "frame (busy w) w1"
  shows "sem_post_w OP_SEM w1 = w1\<lparr>sems := sems w\<rparr>" and "frame w (w1\<lparr>sems := sems w\<rparr>)"
proof -
  have "(sems w)(OP_SEM := 1) = sems w" using assms(1) by (auto simp: fun_eq_iff)
  then show "sem_post_w OP_SEM w1 = w1\<lparr>sems := sems w\<rparr>"
    using assms(2) by (simp add: sem_post_w_def frame_def busy_def)
  show "frame w (w1\<lparr>sems := sems w\<rparr>)" using assms(2) by (simp add: frame_def busy_def)
qed

text \<open>How a handler returns: with the semaphore released, in a state that again is good.\<close>

lemma handler_return:
  assumes "good R w" and "frame (busy w) w1" and "core R w1"
  shows "sem_post_w OP_SEM w1 = w1\<lparr>sems := sems w\<rparr>" and "frame w (w1\<lparr>sems := sems w\<rparr>)"
    and "good R (w1\<lparr>sems := sems w\<rparr>)"
proof -
  have f: "sems_free w" using assms(1) by (simp add: good_def)
  note s = sem_post_op [OF sems_freeD(2) [OF f] assms(2)]
  show "sem_post_w OP_SEM w1 = w1\<lparr>sems := sems w\<rparr>" "frame w (w1\<lparr>sems := sems w\<rparr>)" by (fact s)+
  show "good R (w1\<lparr>sems := sems w\<rparr>)"
    using assms(3) f frame_sems_free [OF s(2)] by (simp add: good_def)
qed

lemma goodD:
  assumes "good R w"
  shows "core R w" "sems w OP_SEM = 1" "sems (busy w) CLIENT_INVITE_SEM = 1"
    "sems (busy w) CLIENT_UPDATE_ELO = 1"
  using assms sems_freeD [of w] by (simp_all add: good_def busy_def)

lemma busy_idle: "sems w OP_SEM = 1 \<Longrightarrow> (busy w)\<lparr>sems := sems w\<rparr> = w"
  by (simp add: busy_def)

lemma open_no_game:
  "core R w \<Longrightarrow> invs w i = Some v \<Longrightarrow> i_state v = INV_OPEN_STATE \<Longrightarrow> i_game v = None"
  using objs_invD [OF coreD(1)] by (fastforce simp: inv_ok_def split: option.splits)

text \<open>A closed invitation is sent about and then removed from one list and from another.\<close>

lemma revoke_open:
  assumes g: "good R w" and cl: "clients w c = Some cl" and i: "inv_of_id (invite_list cl) n = Some i"
    and v: "invs w i = Some v" and st: "i_state v = INV_OPEN_STATE" and tc: "clients w (i_target v) = Some tc"
  shows "\<exists>r w' pkt. client_revoke_invitation (client_unref F) c n w = Inr (r, w') \<and> good R w' \<and> frame w w'
    \<and> closes i w w' \<and> header_for (pkt_val JEUX_REVOKED_PKT) (id_of_inv (invite_list tc) i) 0 0 pkt
    \<and> (net_up (sy w) \<longrightarrow>
         outp (sy w') = (outp (sy w))(c_fd tc := outp (sy w) (c_fd tc) @ wire pkt None)
         \<and> (if c = i_source v then r = 0 \<and> invs w' i = None else r = -1 \<and> listed w' (i_source v) i))"
proof -
  note c = goodD(1) [OF g] 
  let ?w = "close_w i (busy w)"
  have vb: "invs (busy w) i = Some v" using v by simp
  have core: "core R ?w" "closes i w ?w" "frame (busy w) ?w"
    using close_w_core [OF _ vb, of R] c open_no_game [OF c v st] by simp_all
  have v': "invs ?w i = Some (v\<lparr>i_state := INV_CLOSED_STATE\<rparr>)" by (simp add: close_w_eq [OF vb])
  have lv: "i_source v \<in> R" "i_target v \<in> R" "listed w (i_source v) i" "listed w (i_target v) i"
    using coreD(2) [OF c] v st by (auto simp: live_ok_def)
  have party: "c = i_source v \<or> c = i_target v" using found_invitation(2) [OF c cl i] v by auto
  have tck: "\<not> c_lock tc" using objs_clientD(1) [OF coreD(1) [OF c] tc] .
  have no: "no_oom (sy ?w)" using coreD(4) [OF c] by simp
  obtain pkt r s where p: "told JEUX_REVOKED_PKT (id_of_inv (invite_list tc) i) 0 0 None (i_target v) ?w pkt r s"
    using notify_told [OF no, of "i_target v" tc None 0 JEUX_REVOKED_PKT "id_of_inv (invite_list tc) i" 0] tc tck
    by auto
  note t = toldD [OF p]
  let ?w2 = "?w\<lparr>sy := s\<rparr>"
  have c2: "core R ?w2" "closes i w ?w2" "frame (busy w) ?w2"
    using core core_sy [of ?w s] t(1) frame_trans [OF core(3) frame_sy [of ?w s]] by simp_all
  have out: "net_up (sy w) \<longrightarrow> outp s = (outp (sy w))(c_fd tc := outp (sy w) (c_fd tc) @ wire pkt None)"
    using t(4) tc by (simp add: Let_def)
  have start: "client_revoke_invitation (client_unref F) c n w =
     (if r = -1 then Inr (-1, sem_post_w OP_SEM ?w2)
      else
        and_then (client_remove_invitation (client_unref F) c i ?w2) (\<lambda>(r, w).
        if r = -1 then Inr (-1, sem_post_w OP_SEM w)
        else
          and_then (client_remove_invitation (client_unref F) (i_target v) i w) (\<lambda>(r, w).
          if r = -1 then Inr (-1, sem_post_w OP_SEM w)
          else Inr (0, sem_post_w OP_SEM w))))"
    using get_invitation_ok [of R "busy w" c cl n] get_invitation_id_ok [OF core(1), of "i_target v" tc i]
      inv_close_null [of R "busy w" "Some i"] c cl i v st tc v' goodD(2) [OF g]
    by (simp add: client_revoke_invitation_def sem_wait_op inv_get_target_def Let_def told_exec [OF p]
        cong: if_cong)
  show ?thesis
  proof (cases "r = -1")
    case True
    then show ?thesis
      using start handler_return [OF g c2(3,1)] c2(2) t(3,5)
      by (intro exI [of _ "-1 :: int"] exI [of _ "?w2\<lparr>sems := sems w\<rparr>"] exI [of _ pkt]) auto
  next
    case False
    have v2: "invs ?w2 i = Some (v\<lparr>i_state := INV_CLOSED_STATE\<rparr>)" using v' by simp
    have s2: "sems ?w2 CLIENT_INVITE_SEM = 1" using goodD(3) [OF g] by simp
    obtain m w2 m2 w3 where w3: "client_remove_invitation (client_unref F) c i ?w2 = Inr (m, w2)" "0 \<le> m"
        "client_remove_invitation (client_unref F) (i_target v) i w2 = Inr (m2, w3)"
        "core R w3" "frame ?w2 w3" "closes i ?w2 w3" "sy w3 = s"
        "if i_target v = c then m2 = -1 \<and> (\<forall>d. d \<noteq> c \<longrightarrow> listed w3 d i = listed ?w2 d i)
         else 0 \<le> m2 \<and> invs w3 i = None"
      using remove_two [OF c2(1) v2, of c "i_target v" F] lv party s2 by auto
    have fr: "frame (busy w) w3" using frame_trans [OF c2(3) w3(5)] .
    note ret = handler_return [OF g fr w3(4)]
    have cls: "closes i w w3" using closes_trans [OF c2(2) w3(6)] .
    have "client_revoke_invitation (client_unref F) c n w =
        Inr (if i_target v = c then -1 else 0, w3\<lparr>sems := sems w\<rparr>)"
      using start False w3(1-3,8) ret(1) by (auto split: if_splits)
    moreover have "listed w3 (i_source v) i" if "c \<noteq> i_source v"
      using w3(8) that party lv by auto
    moreover have "(if i_target v = c then -1 else 0) = (if c = i_source v then 0 else (-1 :: int))"
      using party objs_invD [OF coreD(1) [OF c] v] by (auto simp: inv_ok_def)
    ultimately show ?thesis
      using ret(2,3) cls t(3) out w3(7,8) party
      by (intro exI [of _ "if i_target v = c then -1 else 0"] exI [of _ "w3\<lparr>sems := sems w\<rparr>"] exI [of _ pkt])
        (auto split: if_splits)
  qed
qed


lemma revoke_refused:
  assumes g: "good R w" and cl: "clients w c = Some cl"
    and no: "\<forall>i v. inv_of_id (invite_list cl) n = Some i \<and> invs w i = Some v \<longrightarrow> i_state v \<noteq> INV_OPEN_STATE"
  shows "client_revoke_invitation U c n w = Inr (-1, w)" and "client_decline_invitation U c n w = Inr (-1, w)"
proof -
  note c = goodD(1) [OF g]
  have f: "\<forall>i. inv_of_id (invite_list cl) n = Some i \<longrightarrow> invs w i \<noteq> None"
    using found_invitation(2) [OF c cl] by fastforce
  have "inv_close (inv_of_id (invite_list cl) n) NULL_ROLE (busy w) = Inr (-1, busy w)"
    using inv_close_null [of R "busy w" "inv_of_id (invite_list cl) n"] c f no
    by (auto split: option.splits)
  moreover have "sem_post_w OP_SEM (busy w) = w"
    using sem_post_op(1) [OF goodD(2) [OF g], of "busy w"] busy_idle [OF goodD(2) [OF g]] by simp
  ultimately show "client_revoke_invitation U c n w = Inr (-1, w)" "client_decline_invitation U c n w = Inr (-1, w)"
    using get_invitation_ok [of R "busy w" c cl n] c cl goodD(2) [OF g]
    by (simp_all add: client_revoke_invitation_def client_decline_invitation_def sem_wait_op)
qed

lemma decline_open:
  assumes g: "good R w" and cl: "clients w c = Some cl" and i: "inv_of_id (invite_list cl) n = Some i"
    and v: "invs w i = Some v" and st: "i_state v = INV_OPEN_STATE" and sc: "clients w (i_source v) = Some sc"
  shows "\<exists>w' pkt. client_decline_invitation (client_unref F) c n w = Inr (0, w') \<and> good R w' \<and> frame w w'
    \<and> closes i w w' \<and> header_for (pkt_val JEUX_DECLINED_PKT) (id_of_inv (invite_list sc) i) 0 0 pkt
    \<and> (net_up (sy w) \<longrightarrow>
         outp (sy w') = (outp (sy w))(c_fd sc := outp (sy w) (c_fd sc) @ wire pkt None))
    \<and> (if c = i_target v then invs w' i = None else listed w' (i_target v) i)"
proof -
  note c = goodD(1) [OF g]
  let ?w = "close_w i (busy w)"
  have vb: "invs (busy w) i = Some v" using v by simp
  have core: "core R ?w" "closes i w ?w" "frame (busy w) ?w" using close_w_core [OF _ vb, of R] c
    open_no_game [OF c v st] by simp_all
  have v': "invs ?w i = Some (v\<lparr>i_state := INV_CLOSED_STATE\<rparr>)" by (simp add: close_w_eq [OF vb])
  have lv: "i_source v \<in> R" "i_target v \<in> R" "listed w (i_source v) i" "listed w (i_target v) i"
    using coreD(2) [OF c] v st by (auto simp: live_ok_def)
  have party: "c = i_source v \<or> c = i_target v" using found_invitation(2) [OF c cl i] v by auto
  obtain pkt r s where p: "told JEUX_DECLINED_PKT (id_of_inv (invite_list sc) i) 0 0 None (i_source v) ?w pkt r s"
    using notify_told [of ?w "i_source v" sc None 0 JEUX_DECLINED_PKT "id_of_inv (invite_list sc) i" 0] sc
      objs_clientD(1) [OF coreD(1) [OF c] sc] coreD(4) [OF c] by auto
  note t = toldD [OF p]
  let ?w2 = "?w\<lparr>sy := s\<rparr>"
  have c2: "core R ?w2" "closes i w ?w2" "frame (busy w) ?w2"
    using core core_sy [of ?w s] t(1) frame_trans [OF core(3) frame_sy [of ?w s]] by simp_all
  have v2: "invs ?w2 i = Some (v\<lparr>i_state := INV_CLOSED_STATE\<rparr>)" using v' by simp
  obtain m w2 m2 w3 where w3: "client_remove_invitation (client_unref F) c i ?w2 = Inr (m, w2)" "0 \<le> m"
      "client_remove_invitation (client_unref F) (i_source v) i w2 = Inr (m2, w3)"
      "core R w3" "frame ?w2 w3" "closes i ?w2 w3" "sy w3 = s"
      "if i_source v = c then m2 = -1 \<and> (\<forall>d. d \<noteq> c \<longrightarrow> listed w3 d i = listed ?w2 d i)
       else 0 \<le> m2 \<and> invs w3 i = None"
    using remove_two [OF c2(1) v2, of c "i_source v" F] lv party goodD(3) [OF g] by auto
  note ret = handler_return [OF g frame_trans [OF c2(3) w3(5)] w3(4)]
  have "client_decline_invitation (client_unref F) c n w = Inr (0, w3\<lparr>sems := sems w\<rparr>)"
    using get_invitation_ok [of R "busy w" c cl n] get_invitation_id_ok [OF core(1), of "i_source v" sc i]
      inv_close_null [of R "busy w" "Some i"] c cl i v st sc v' goodD(2) [OF g] w3(1,3) ret(1)
    by (simp add: client_decline_invitation_def sem_wait_op inv_get_source_def Let_def told_exec [OF p])
  moreover have "net_up (sy w) \<longrightarrow> outp s = (outp (sy w))(c_fd sc := outp (sy w) (c_fd sc) @ wire pkt None)"
    using t(4) sc by (simp add: Let_def)
  moreover have "if c = i_target v then invs w3 i = None else listed w3 (i_target v) i"
    using w3(8) party lv objs_invD [OF coreD(1) [OF c] v] by (auto simp: inv_ok_def split: if_splits)
  ultimately show ?thesis
    using ret(2,3) closes_trans [OF c2(2) w3(6)] t(3) w3(7)
    by (intro exI [of _ "w3\<lparr>sems := sems w\<rparr>"] exI [of _ pkt]) auto
qed


section \<open>Results\<close>

lemma objs_ok_players:
  assumes "objs_ok R w" and "whose (w\<lparr>players := h\<rparr>) = whose w"
  shows "objs_ok R (w\<lparr>players := h\<rparr>)"
proof -
  have "player_live (w\<lparr>players := h\<rparr>) = player_live w"
    using assms(2) by (simp add: player_live_whose fun_eq_iff)
  then show ?thesis
    using assms(1) by (simp add: objs_ok_def client_ok_def refs_ok_def inv_ok_def games_owned_def game_of_def
        cong: option.case_cong)
qed

lemma core_players: "core R w \<Longrightarrow> whose (w\<lparr>players := h\<rparr>) = whose w \<Longrightarrow> core R (w\<lparr>players := h\<rparr>)"
  by (simp add: core_def objs_ok_players)

lemma post_result_ok:
  assumes "player_live w a" and "player_live w b"
  shows "\<exists>h. player_post_result F (players w) (Some a) (Some b) res = Inr h \<and> whose (w\<lparr>players := h\<rparr>) = whose w"
proof -
  obtain p q where "players w a = Some p" "\<not> p_mutex p" "players w b = Some q" "\<not> p_mutex q"
    using assms by (auto simp: player_live_def split: option.splits)
  then show ?thesis
    by (simp add: player_post_result_def Let_def) (auto simp: whose_def fun_eq_iff)
qed

text \<open>The players of the client that plays first and of the other one, as the code orders them.\<close>

definition ordered :: "GAME_ROLE \<Rightarrow> 'a \<Rightarrow> 'a \<Rightarrow> 'a \<times> 'a" where
  "ordered r x y = (if r = FIRST_PLAYER_ROLE then (x, y) else (y, x))"

lemma post_results_ok:
  assumes c: "core R w" and cl: "clients w a = Some al" "clients w b = Some bl"
    and s: "sems w CLIENT_UPDATE_ELO = 1"
  shows "\<exists>r h. post_player_results F a b ro win w = Inr (r, w\<lparr>players := h\<rparr>)
    \<and> whose (w\<lparr>players := h\<rparr>) = whose w \<and> (r = 0 \<or> r = -1)
    \<and> (c_player al \<noteq> None \<and> c_player bl \<noteq> None \<longrightarrow> r = 0 \<and>
        player_post_result F (players w) (fst (ordered ro (c_player al) (c_player bl)))
          (snd (ordered ro (c_player al) (c_player bl))) (role_val win) = Inr h)"
proof -
  have sm: "(sems w)(CLIENT_UPDATE_ELO := Suc 0) = sems w" using s by (auto simp: fun_eq_iff)
  show ?thesis
  proof (cases "c_player al = None \<or> c_player bl = None")
    case True
    have "w\<lparr>sems := sems w\<rparr> = w\<lparr>players := players w\<rparr>" by simp
    then show ?thesis using True cl s sm
      by (intro exI [of _ "-1 :: int"] exI [of _ "players w"])
        (auto simp: post_player_results_def sem_wait_w_1 client_get_player_def sem_post_w_def)
  next
    case False
    then obtain x y where x: "c_player al = Some x" "c_player bl = Some y" by auto
    have pl: "player_live w x" "player_live w y"
      using objs_playerD [OF coreD(1) [OF c]] cl x by blast+
    obtain h h' where "player_post_result F (players w) (Some x) (Some y) (role_val win) = Inr h"
        "whose (w\<lparr>players := h\<rparr>) = whose w"
        "player_post_result F (players w) (Some y) (Some x) (role_val win) = Inr h'"
        "whose (w\<lparr>players := h'\<rparr>) = whose w"
      using post_result_ok [OF pl] post_result_ok [OF pl(2,1)] by meson
    then show ?thesis using x cl s sm
      by (intro exI [of _ "0 :: int"] exI [of _ "if ro = FIRST_PLAYER_ROLE then h else h'"])
        (auto simp: post_player_results_def sem_wait_w_1 client_get_player_def sem_post_w_def ordered_def)
  qed
qed

lemma objs_ok_set_game:
  assumes ok: "objs_ok R w" and v: "invs w i = Some v" "i_game v = Some g" "i_state v \<noteq> INV_CLOSED_STATE"
    and gm: "game_ok gm'"
  shows "objs_ok R (w\<lparr>games := (games w)(g \<mapsto> gm')\<rparr>)"
proof -
  let ?w = "w\<lparr>games := (games w)(g \<mapsto> gm')\<rparr>"
  have own: "games_owned w" using ok by (simp add: objs_ok_def)
  have "inv_ok ?w j u" if j: "invs w j = Some u" for j u
  proof (cases "i_game u = Some g")
    case True
    have "game_of w i = Some g" "game_of w j = Some g" using True j v by (simp_all add: game_of_def)
    then have "j = i" using own unfolding games_owned_def by blast
    then show ?thesis using j v gm objs_invD [OF ok v(1)] by (auto simp: inv_ok_def split: option.splits)
  next
    case False
    then show ?thesis using objs_invD [OF ok j] by (auto simp: inv_ok_def split: option.splits)
  qed
  moreover have "games w g \<noteq> None" using objs_invD [OF ok v(1)] v(2) by (auto simp: inv_ok_def split: option.splits)
  then have "games_owned ?w" using own by (auto simp: games_owned_def game_of_def)
  ultimately show ?thesis
    using ok by (simp add: objs_ok_def client_ok_def refs_ok_def cong: option.case_cong)
qed

lemma core_set_game:
  assumes "core R w" and "invs w i = Some v" "i_game v = Some g" "i_state v \<noteq> INV_CLOSED_STATE"
    and "game_ok gm'"
  shows "core R (set_game g gm' w)" and "frame w (set_game g gm' w)"
  using assms objs_ok_set_game [OF coreD(1) [OF assms(1)] assms(2-5)]
  by (simp_all add: core_def set_game_def frame_def)

section \<open>Resigning\<close>

text \<open>A party of an invitation, its opponent and the two roles.\<close>

definition opponent :: "addr \<Rightarrow> INVITATION \<Rightarrow> addr" where
  "opponent c v = (if c = i_source v then i_target v else i_source v)"

definition my_role_of :: "addr \<Rightarrow> INVITATION \<Rightarrow> GAME_ROLE" where
  "my_role_of c v = (if c = i_source v then i_source_role v else i_target_role v)"

lemma parties_eq:
  assumes "invs w i = Some v" and "c = i_source v \<or> c = i_target v" and "i_source v \<noteq> i_target v"
  shows "parties c (Some i) w = Inr (Some (my_role_of c v, opponent c v, my_role_of (opponent c v) v))"
  using assms by (auto simp: parties_def inv_get_source_def inv_get_target_def inv_get_source_role_def
      inv_get_target_role_def my_role_of_def opponent_def)

lemma parties_none: "parties c None w = Inr None"
  by (simp add: parties_def inv_get_source_def inv_get_target_def)

lemma accepted_game:
  assumes "core R w" and "invs w i = Some v" and "i_state v = INV_ACCEPTED_STATE"
  shows "\<exists>g gm. i_game v = Some g \<and> games w g = Some gm \<and> game_ok gm"
  using objs_invD [OF coreD(1) [OF assms(1)] assms(2)] assms(3)
  by (auto simp: inv_ok_def split: option.splits)

lemma game_ok_resign: "game_ok gm \<Longrightarrow> game_ok (snd (game_resign gm r))" "stopped (snd (game_resign gm r))"
  by (simp_all add: game_ok_def game_resign_def stopped_def)

lemma inv_close_role:
  assumes "invs w i = Some v" and "r \<noteq> NULL_ROLE" and "inv_ok w i v"
  shows "inv_close (Some i) r w = (if i_state v = INV_ACCEPTED_STATE
    then Inr (0, close_w i (set_game (the (i_game v)) (snd (game_resign (the (games w (the (i_game v)))) r)) w))
    else Inr (-1, w))"
  using assms
  by (cases "i_state v")
    (auto simp: inv_close_def inv_ok_def close_w_def set_game_def split: option.splits prod.splits)

lemma resign_refused:
  assumes g: "good R w" and cl: "clients w c = Some cl"
    and no: "\<forall>i v. inv_of_id (invite_list cl) n = Some i \<and> invs w i = Some v \<longrightarrow> i_state v \<noteq> INV_ACCEPTED_STATE"
  shows "client_resign_game F U c n w = Inr (-1, w)"
proof -
  note c = goodD(1) [OF g]
  have post: "sem_post_w OP_SEM (busy w) = w"
    using sem_post_op(1) [OF goodD(2) [OF g], of "busy w"] busy_idle [OF goodD(2) [OF g]] by simp
  note get = get_invitation_ok [of R "busy w" c cl n]
  show ?thesis
  proof (cases "inv_of_id (invite_list cl) n")
    case None
    then show ?thesis
      using get c cl goodD(2) [OF g] post by (simp add: client_resign_game_def sem_wait_op parties_none)
  next
    case (Some i)
    then obtain v where v: "invs w i = Some v" "c = i_source v \<or> c = i_target v"
      using found_invitation(2) [OF c cl] by blast
    have vok: "inv_ok (busy w) i v" using objs_invD [of R "busy w" i v] coreD(1) [OF c] v(1) by (simp add: busy_def)
    have "my_role_of c v \<noteq> NULL_ROLE" "i_source v \<noteq> i_target v"
      using vok by (auto simp: inv_ok_def my_role_of_def)
    then show ?thesis
      using get c cl goodD(2) [OF g] post Some v no parties_eq [of "busy w" i v c]
        inv_close_role [OF _ _ vok, of "my_role_of c v"]
      by (simp add: client_resign_game_def sem_wait_op)
  qed
qed

lemma resign_accepted:
  assumes g: "good R w" and cl: "clients w c = Some cl" and i: "inv_of_id (invite_list cl) n = Some i"
    and v: "invs w i = Some v" and st: "i_state v = INV_ACCEPTED_STATE"
    and oc: "clients w (opponent c v) = Some oc"
  shows "\<exists>r w' pkt. client_resign_game F (client_unref F) c n w = Inr (r, w') \<and> good R w' \<and> frame w w'
    \<and> closes i w w' \<and> header_for (pkt_val JEUX_RESIGNED_PKT) (id_of_inv (invite_list oc) i) 0 0 pkt
    \<and> (net_up (sy w) \<longrightarrow>
         outp (sy w') = (outp (sy w))(c_fd oc := outp (sy w) (c_fd oc) @ wire pkt None)
         \<and> (c_player cl \<noteq> None \<and> c_player oc \<noteq> None \<longrightarrow> r = 0 \<and> invs w' i = None \<and>
             player_post_result F (players w) (fst (ordered (my_role_of c v) (c_player cl) (c_player oc)))
               (snd (ordered (my_role_of c v) (c_player cl) (c_player oc)))
               (role_val (my_role_of (opponent c v) v)) = Inr (players w')))"
proof -
  note c = goodD(1) [OF g]
  obtain gi gm where game: "i_game v = Some gi" "games w gi = Some gm" "game_ok gm"
    using accepted_game [OF c v st] by blast
  let ?wg = "set_game gi (snd (game_resign gm (my_role_of c v))) (busy w)"
  let ?w = "close_w i ?wg"
  have gb: "games (busy w) gi = Some gm" using game(2) by simp
  have cg: "core R ?wg" "frame (busy w) ?wg"
    using core_set_game [of R "busy w" i v gi, OF _ _ game(1) _ game_ok_resign(1) [OF game(3)]] c v st by simp_all
  have vb: "invs ?wg i = Some v" using v by (simp add: set_game_def)
  have core: "core R ?w" "closes i w ?w" "frame (busy w) ?w"
    using close_w_core [OF cg(1) vb] frame_trans [OF cg(2)] game(1) game_ok_resign(2) by simp_all
  have v': "invs ?w i = Some (v\<lparr>i_state := INV_CLOSED_STATE\<rparr>)" by (simp add: close_w_eq [OF vb])
  have lv: "i_source v \<in> R" "i_target v \<in> R" "listed w (i_source v) i" "listed w (i_target v) i"
    using coreD(2) [OF c] v st by (auto simp: live_ok_def)
  have party: "c = i_source v \<or> c = i_target v" using found_invitation(2) [OF c cl i] v by auto
  have vok: "inv_ok (busy w) i v" using objs_invD [of R "busy w" i v] coreD(1) [OF c] v by (simp add: busy_def)
  have ne: "i_source v \<noteq> i_target v" "my_role_of c v \<noteq> NULL_ROLE"
    using vok by (auto simp: inv_ok_def my_role_of_def)
  have opp: "opponent c v = i_source v \<or> opponent c v = i_target v" "opponent c v \<noteq> c"
    using ne(1) party by (auto simp: opponent_def)
  obtain pkt r s where p: "told JEUX_RESIGNED_PKT (id_of_inv (invite_list oc) i) 0 0 None (opponent c v) ?w pkt r s"
    using notify_told [of ?w "opponent c v" oc None 0 JEUX_RESIGNED_PKT "id_of_inv (invite_list oc) i" 0] oc
      objs_clientD(1) [OF coreD(1) [OF c] oc] coreD(4) [OF c] by auto
  note t = toldD [OF p]
  let ?w2 = "?w\<lparr>sy := s\<rparr>"
  have c2: "core R ?w2" "closes i w ?w2" "frame (busy w) ?w2"
    using core core_sy [of ?w s] t(1) frame_trans [OF core(3) frame_sy [of ?w s]] by simp_all
  obtain r3 h where post: "post_player_results F c (opponent c v) (my_role_of c v) (my_role_of (opponent c v) v) ?w2
        = Inr (r3, ?w2\<lparr>players := h\<rparr>)" "whose (?w2\<lparr>players := h\<rparr>) = whose ?w2" "r3 = 0 \<or> r3 = -1"
      "c_player cl \<noteq> None \<and> c_player oc \<noteq> None \<longrightarrow> r3 = 0 \<and>
         player_post_result F (players w) (fst (ordered (my_role_of c v) (c_player cl) (c_player oc)))
           (snd (ordered (my_role_of c v) (c_player cl) (c_player oc)))
           (role_val (my_role_of (opponent c v) v)) = Inr h"
    using post_results_ok [OF c2(1), of c cl "opponent c v" oc F "my_role_of c v" "my_role_of (opponent c v) v"]
      cl oc goodD(4) [OF g] by auto
  let ?w3 = "?w2\<lparr>players := h\<rparr>"
  have "core R ?w3" using core_players [OF c2(1) post(2)] .
  moreover have "frame ?w2 ?w3" using post(2) by (simp add: frame_def)
  ultimately have c3: "core R ?w3" "closes i w ?w3" "frame (busy w) ?w3"
    using frame_trans [OF c2(3)] c2(2) by simp_all
  have v3: "invs ?w3 i = Some (v\<lparr>i_state := INV_CLOSED_STATE\<rparr>)" using v' by simp
  obtain m w4 m2 w5 where w5: "client_remove_invitation (client_unref F) c i ?w3 = Inr (m, w4)" "0 \<le> m"
      "client_remove_invitation (client_unref F) (opponent c v) i w4 = Inr (m2, w5)"
      "core R w5" "frame ?w3 w5" "closes i ?w3 w5" "sy w5 = s" "0 \<le> m2" "invs w5 i = None" "players w5 = h"
    using remove_two [OF c3(1) v3, of c "opponent c v" F] lv party opp goodD(3) [OF g] by auto
  have start: "client_resign_game F (client_unref F) c n w =
     (if r \<noteq> 0 then Inr (-1, sem_post_w OP_SEM ?w2)
      else if r3 = -1 then Inr (-1, sem_post_w OP_SEM ?w3)
      else Inr (0, sem_post_w OP_SEM w5))"
    using get_invitation_ok [of R "busy w" c cl n] get_invitation_id_ok [OF core(1), of "opponent c v" oc i]
      inv_close_role [OF _ ne(2) vok] c cl i v st oc goodD(2) [OF g] game post(1) w5(1-3,8)
      parties_eq [of "busy w" i v c] party ne(1)
    by (simp add: client_resign_game_def sem_wait_op Let_def told_exec [OF p] cong: if_cong)
  note ret = handler_return [OF g]
  show ?thesis
  proof (cases "r = 0")
    case False
    then show ?thesis
      using start ret [OF c2(3,1)] c2(2) t(3,5)
      by (intro exI [of _ "-1 :: int"] exI [of _ "?w2\<lparr>sems := sems w\<rparr>"] exI [of _ pkt]) auto
  next
    case True
    have out: "net_up (sy w) \<longrightarrow> outp s = (outp (sy w))(c_fd oc := outp (sy w) (c_fd oc) @ wire pkt None)"
      using t(4) oc by (simp add: Let_def)
    show ?thesis
    proof (cases "r3 = -1")
      case True
      then show ?thesis
        using \<open>r = 0\<close> start ret [OF c3(3,1)] c3(2) t(3) post(4) out
        by (intro exI [of _ "-1 :: int"] exI [of _ "?w3\<lparr>sems := sems w\<rparr>"] exI [of _ pkt]) auto
    next
      case False
      then show ?thesis
        using \<open>r = 0\<close> start ret [OF frame_trans [OF c3(3) w5(5)] w5(4)] closes_trans [OF c3(2) w5(6)] t(3)
          post(4) out w5(7,9,10)
        by (intro exI [of _ "0 :: int"] exI [of _ "w5\<lparr>sems := sems w\<rparr>"] exI [of _ pkt]) auto
    qed
  qed
qed


section \<open>Accepting\<close>

definition fresh_game :: GAME where
  "fresh_game = \<lparr>rows = replicate 9 0, g_ref_count = 1, is_over = 0, current_player = FIRST_PLAYER_ROLE,
     winner = NULL_ROLE, g_mutex = False\<rparr>"

lemma game_create_fresh: "no_oom s \<Longrightarrow> game_create s = Inr (Some fresh_game, s\<lparr>res_n := res_n s + 2\<rparr>)"
  by (simp add: game_create_def fresh_game_def)

lemma fresh_game_ok [simp]: "game_ok fresh_game" "\<not> g_mutex fresh_game"
  by (simp_all add: game_ok_def fresh_game_def)

lemma fresh_game_rel: "game_rel [] fresh_game"
proof -
  have "game_create calm_sys = Inr (Some fresh_game, calm_sys\<lparr>res_n := res_n calm_sys + 2\<rparr>)"
    by (rule game_create_fresh) simp
  with game_create_ok [of calm_sys] show ?thesis by auto
qed

text \<open>The invitation has a new game.\<close>

definition accept_w :: "addr \<Rightarrow> world \<Rightarrow> world" where
  "accept_w i w =
     (let g = next_addr w; v = the (invs w i) in
      w\<lparr>invs := (invs w)(i \<mapsto> v\<lparr>i_state := INV_ACCEPTED_STATE, i_game := Some g\<rparr>),
        games := (games w)(g \<mapsto> fresh_game), next_addr := Suc g\<rparr>)"

lemma accept_w_fields [simp]:
  "clients (accept_w i w) = clients w" "sy (accept_w i w) = sy w" "sems (accept_w i w) = sems w"
  "players (accept_w i w) = players w" "nodes (accept_w i w) = nodes w" "listed (accept_w i w) = listed w"
  "games (accept_w i w) = (games w)(next_addr w \<mapsto> fresh_game)"
  by (simp_all add: accept_w_def Let_def)

lemma accept_w_inv:
  "invs w i = Some v \<Longrightarrow> invs (accept_w i w) =
     (invs w)(i \<mapsto> v\<lparr>i_state := INV_ACCEPTED_STATE, i_game := Some (next_addr w)\<rparr>)"
  by (simp add: accept_w_def Let_def)

lemma inv_accept_open:
  assumes "invs w i = Some v" and "i_state v = INV_OPEN_STATE" and "no_oom (sy w)"
  shows "inv_accept (Some i) w = Inr (0, (accept_w i w)\<lparr>sy := (sy w)\<lparr>res_n := res_n (sy w) + 2\<rparr>\<rparr>)"
  using assms by (simp add: inv_accept_def game_create_fresh accept_w_def set_defs Let_def)

lemma game_below:
  assumes "objs_ok R w" and "game_of w i = Some g"
  shows "g < next_addr w"
proof -
  obtain v where v: "invs w i = Some v" "i_game v = Some g"
    using assms(2) by (cases "invs w i") (auto simp: game_of_def)
  then have "games w g \<noteq> None" using objs_invD [OF assms(1) v(1)] by (auto simp: inv_ok_def split: option.splits)
  then show ?thesis using assms(1) by (simp add: objs_ok_def games_owned_def)
qed

lemma objs_ok_accept:
  assumes ok: "objs_ok R w" and v: "invs w i = Some v" and none: "i_game v = None"
  shows "objs_ok R (accept_w i w)"
proof -
  let ?g = "next_addr w"
  have fresh: "games w ?g = None" using ok by (auto simp: objs_ok_def games_owned_def)
  have h: "held (accept_w i w) = held w" using v by (auto simp: held_def accept_w_def Let_def fun_eq_iff)
  have li: "listed (accept_w i w) = listed w" by (simp add: accept_w_def Let_def)
  have g: "game_of (accept_w i w) = (game_of w)(i := Some ?g)" using v by (auto simp: game_of_def accept_w_def Let_def)
  have cl: "clients (accept_w i w) = clients w" by (simp add: accept_w_def Let_def)
  have pl: "player_live w a \<Longrightarrow> player_live (accept_w i w) a" for a
    by (simp add: player_live_def accept_w_def Let_def split: option.splits)
  show ?thesis
  proof (rule objs_okI)
    fix c cl'
    assume "clients (accept_w i w) c = Some cl'"
    then have "client_ok w c cl'" "refs_ok R w c cl'" using ok cl by (simp_all add: objs_ok_def)
    then show "client_ok (accept_w i w) c cl' \<and> refs_ok R (accept_w i w) c cl'"
      unfolding client_ok_def refs_ok_def h using pl
      by (auto simp: accept_w_def Let_def split: option.splits)
  next
    fix c
    assume "c \<in> R"
    then show "clients (accept_w i w) c \<noteq> None" using ok cl by (simp add: objs_ok_def)
  next
    fix j u
    assume j: "invs (accept_w i w) j = Some u"
    show "inv_ok (accept_w i w) j u"
    proof (cases "j = i")
      case True
      then have "u = v\<lparr>i_state := INV_ACCEPTED_STATE, i_game := Some ?g\<rparr>"
        using j v by (simp add: accept_w_def Let_def)
      with True objs_invD [OF ok v] show ?thesis unfolding inv_ok_def li cl
        by (simp add: accept_w_def Let_def)
    next
      case False
      then have u: "invs w j = Some u" using j by (simp add: accept_w_def Let_def)
      have "i_game u \<noteq> Some ?g" using game_below [OF ok, of j ?g] u by (auto simp: game_of_def)
      with objs_invD [OF ok u] show ?thesis unfolding inv_ok_def li cl
        by (auto simp: accept_w_def Let_def split: option.splits)
    qed
  next
    have own: "games_owned w" using ok by (simp add: objs_ok_def)
    have n: "game_of w i = None" using v none by (simp add: game_of_def)
    have inj: "j = k" if "game_of (accept_w i w) j = Some x" "game_of (accept_w i w) k = Some x" for j k x
      using that own game_below [OF ok] unfolding g games_owned_def by (auto split: if_splits)
    have "x < Suc ?g \<and> (\<exists>j. game_of (accept_w i w) j = Some x)" if "games (accept_w i w) x \<noteq> None" for x
    proof (cases "x = ?g")
      case True
      then show ?thesis unfolding g by auto
    next
      case False
      then have "games w x \<noteq> None" using that by (simp add: accept_w_def Let_def)
      then obtain j where "game_of w j = Some x" "x < ?g" using own unfolding games_owned_def by blast
      then show ?thesis unfolding g using n by (intro conjI exI [of _ j]) auto
    qed
    with inj show "games_owned (accept_w i w)" unfolding games_owned_def by (simp add: accept_w_def Let_def)
  qed
qed

lemma accept_w_core:
  assumes c: "core R w" and v: "invs w i = Some v" and st: "i_state v = INV_OPEN_STATE"
  shows "core R (accept_w i w)" and "frame w (accept_w i w)"
proof -
  have "i_game v = None" using objs_invD [OF coreD(1) [OF c] v] st by (auto simp: inv_ok_def split: option.splits)
  note ok = objs_ok_accept [OF coreD(1) [OF c] v this]
  have "live_ok R (accept_w i w)" unfolding live_ok_def
  proof (intro allI impI)
    fix j u
    assume j: "invs (accept_w i w) j = Some u \<and> i_state u \<noteq> INV_CLOSED_STATE"
    obtain u' where "invs w j = Some u'" "i_state u' \<noteq> INV_CLOSED_STATE" "i_source u' = i_source u" "i_target u' = i_target u"
      using j v st by (cases "j = i") (auto simp: accept_w_def Let_def)
    then show "i_source u \<in> R \<and> i_target u \<in> R \<and> listed (accept_w i w) (i_source u) j
        \<and> listed (accept_w i w) (i_target u) j"
      using coreD(2) [OF c] unfolding live_ok_def accept_w_fields by metis
  qed
  moreover have "pos_refs (accept_w i w)" using coreD(3) [OF c] v by (auto simp: pos_refs_def accept_w_def Let_def)
  ultimately show "core R (accept_w i w)" using ok coreD(4) [OF c] by (simp add: core_def accept_w_def Let_def)
  show "frame w (accept_w i w)" by (simp add: frame_def accept_w_def Let_def)
qed


lemma accept_refused:
  assumes g: "good R w" and cl: "clients w c = Some cl"
    and no: "\<forall>i v. inv_of_id (invite_list cl) n = Some i \<and> invs w i = Some v \<longrightarrow>
      i_state v \<noteq> INV_OPEN_STATE \<or> c \<noteq> i_target v"
  shows "client_accept_invitation c n w = Inr ((-1, None), w)"
proof -
  note c = goodD(1) [OF g]
  have post: "sem_post_w OP_SEM (busy w) = w"
    using sem_post_op(1) [OF goodD(2) [OF g], of "busy w"] busy_idle [OF goodD(2) [OF g]] by simp
  note get = get_invitation_ok [of R "busy w" c cl n]
  show ?thesis
  proof (cases "inv_of_id (invite_list cl) n")
    case None
    then show ?thesis
      using get c cl goodD(2) [OF g] post by (simp add: client_accept_invitation_def sem_wait_op inv_get_target_def)
  next
    case (Some i)
    then obtain v where v: "invs w i = Some v" using found_invitation(2) [OF c cl] by blast
    then have "i_state v \<noteq> INV_OPEN_STATE \<or> c \<noteq> i_target v" using Some no by blast
    then show ?thesis
      using get c cl goodD(2) [OF g] post Some v
      by (cases "c = i_target v")
        (simp_all add: client_accept_invitation_def sem_wait_op inv_get_target_def inv_accept_def)
  qed
qed

lemma accept_open:
  assumes g: "good R w" and cl: "clients w c = Some cl" and i: "inv_of_id (invite_list cl) n = Some i"
    and v: "invs w i = Some v" and st: "i_state v = INV_OPEN_STATE" and tgt: "c = i_target v"
    and sc: "clients w (i_source v) = Some sc"
  defines "first \<equiv> i_target_role v = FIRST_PLAYER_ROLE"
  defines "str \<equiv> state_string fresh_game"
  shows "\<exists>r s pkt. client_accept_invitation c n w = Inr ((r, if r = 0 \<and> first then Some str else None),
      (accept_w i w)\<lparr>sy := s\<rparr>)
    \<and> env_same (sy w) s \<and> (r = 0 \<or> r = -1)
    \<and> header_for (pkt_val JEUX_ACCEPTED_PKT) (id_of_inv (invite_list sc) i) 0 (if first then 0 else 40) pkt
    \<and> (net_up (sy w) \<longrightarrow> r = 0 \<and> outp s = (outp (sy w))(c_fd sc := outp (sy w) (c_fd sc)
          @ wire pkt (if first then None else Some (bytes_of str))))"
proof -
  note c = goodD(1) [OF g]
  have vb: "invs (busy w) i = Some v" using v by simp
  let ?wa = "accept_w i (busy w)"
  obtain s0 s1 where s0: "env_same (sy w) s1" "outp s1 = outp (sy w)"
      and acc: "inv_accept (Some i) (busy w) = Inr (0, ?wa\<lparr>sy := s0\<rparr>)"
      and un: "game_unparse_state fresh_game s0 = Inr (Some str, fresh_game, s1)"
  proof
    let ?s0 = "(sy w)\<lparr>res_n := res_n (sy w) + 2\<rparr>"
    let ?s1 = "?s0\<lparr>res_n := res_n ?s0 + 2\<rparr>"
    show "env_same (sy w) ?s1" "outp ?s1 = outp (sy w)" by simp_all
    show "inv_accept (Some i) (busy w) = Inr (0, ?wa\<lparr>sy := ?s0\<rparr>)"
      using inv_accept_open [OF vb st] coreD(4) [OF c] by simp
    show "game_unparse_state fresh_game ?s0 = Inr (Some str, fresh_game, ?s1)"
      using game_unparse_state_ok [of fresh_game ?s0] coreD(4) [OF c] by (simp add: str_def)
  qed
  have core: "core R ?wa" "frame (busy w) ?wa" using accept_w_core [OF _ vb st, of R] c by simp_all
  have iv: "invs ?wa i = Some (v\<lparr>i_state := INV_ACCEPTED_STATE, i_game := Some (next_addr w)\<rparr>)"
    by (simp add: accept_w_inv [OF vb])
  let ?w1 = "?wa\<lparr>sy := s1\<rparr>"
  let ?data = "if first then None else Some (bytes_of str)"
  let ?n = "if first then 0 else (40 :: int)"
  have "fits ?data ?n" by (simp add: str_def bytes_of_def)
  then obtain pkt r s where p:
      "told JEUX_ACCEPTED_PKT (id_of_inv (invite_list sc) i) 0 ?n ?data (i_source v) ?w1 pkt r s"
    using notify_told [of ?w1 "i_source v" sc ?data ?n JEUX_ACCEPTED_PKT "id_of_inv (invite_list sc) i" 0] sc
      objs_clientD(1) [OF coreD(1) [OF c] sc] coreD(4) [OF c] env_same_no_oom [OF s0(1)] by auto
  note t = toldD [OF p]
  have es: "env_same (sy w) s" using env_same_trans [OF s0(1)] t(1) by simp
  let ?w2 = "?wa\<lparr>sy := s\<rparr>"
  have f2: "frame (busy w) ?w2" using frame_trans [OF core(2) frame_sy [of ?wa s]] es by simp
  have c2: "core R ?w2" using core(1) core_sy [of ?wa s R] es by simp
  have same: "set_game (next_addr w) fresh_game (?wa\<lparr>sy := x\<rparr>) = ?wa\<lparr>sy := x\<rparr>" for x
    by (simp add: set_game_def accept_w_def Let_def)
  have fin: "?w2\<lparr>sems := sems w\<rparr> = (accept_w i w)\<lparr>sy := s\<rparr>" by (simp add: accept_w_def busy_def Let_def)
  have exec: "client_accept_invitation c n w = (if r = -1 then Inr ((-1, None), sem_post_w OP_SEM ?w2)
      else Inr ((0, if first then Some str else None), sem_post_w OP_SEM ?w2))"
  proof -
    have gi: "client_get_invitation_id (i_source v) i (?wa\<lparr>sy := s0\<rparr>) = Inr (id_of_inv (invite_list sc) i)"
      using get_invitation_id_ok [OF core(1), of "i_source v" sc i] sc by (simp add: client_get_invitation_id_def)
    have "length str = 40" by (simp add: str_def)
    note facts = this get_invitation_ok [of R "busy w" c cl n] c cl i v tgt goodD(2) [OF g] acc iv gi un same
    show ?thesis
    proof (cases first)
      case True
      then have q: "told JEUX_ACCEPTED_PKT (id_of_inv (invite_list sc) i) 0 0 None (i_source v) ?w1 pkt r s"
        using p by simp
      from True show ?thesis using facts
        by (simp add: client_accept_invitation_def sem_wait_op inv_get_target_def inv_get_game_def
          inv_get_source_def inv_get_target_role_def first_def told_exec [OF q] cong: if_cong)
    next
      case False
      then have q: "told JEUX_ACCEPTED_PKT (id_of_inv (invite_list sc) i) 0 40 (Some (bytes_of str)) (i_source v) ?w1 pkt r s"
        using p by simp
      from False show ?thesis using facts
        by (simp add: client_accept_invitation_def sem_wait_op inv_get_target_def inv_get_game_def
          inv_get_source_def inv_get_target_role_def first_def told_exec [OF q] cong: if_cong)
    qed
  qed
  have up: "net_up (sy w) = net_up s1" using env_same_net_up [OF s0(1)] by simp
  have "bytes_of str \<noteq> []" by (simp add: bytes_of_def str_def)
  then have r0: "net_up (sy w) \<longrightarrow> r = 0" using t(5) up by auto
  moreover have "net_up (sy w) \<longrightarrow> outp s = (outp (sy w))(c_fd sc := outp (sy w) (c_fd sc) @ wire pkt ?data)"
    using t(4) up s0(2) sc by (simp add: Let_def)
  ultimately show ?thesis
    using exec sem_post_op(1) [OF goodD(2) [OF g] f2] fin es t(2,3)
    by (intro exI [of _ r] exI [of _ s] exI [of _ pkt]) auto
qed


section \<open>Making an invitation\<close>

definition add_node :: "addr \<Rightarrow> CLIENT \<Rightarrow> CLIENT" where
  "add_node i cl = (reserve cl)\<lparr>invite_list := \<lparr>n_id = int (free_id (invite_list cl)), n_inv = i\<rparr> # invite_list cl\<rparr>"

lemma add_node_fields [simp]:
  "c_lock (add_node i cl) = c_lock cl" "c_fd (add_node i cl) = c_fd cl"
  "c_ref_count (add_node i cl) = c_ref_count cl" "c_player (add_node i cl) = c_player cl"
  "logged_in (add_node i cl) = logged_in cl"
  "invite_list (add_node i cl) = \<lparr>n_id = int (free_id (invite_list cl)), n_inv = i\<rparr> # invite_list cl"
  by (simp_all add: add_node_def)

lemma client_add_ok:
  assumes "clients w c = Some cl" and "\<not> c_lock cl" and "ids_ok cl" and "no_oom (sy w)"
    and "sems w CLIENT_INVITE_SEM = 1" and "invs w i = Some v" and "\<not> i_lock v"
  shows "\<exists>s. env_same (sy w) s \<and> outp s = outp (sy w) \<and>
    client_add_invitation c i w = Inr (int (free_id (invite_list cl)),
      w\<lparr>sy := s, clients := (clients w)(c \<mapsto> add_node i cl), invs := (invs w)(i \<mapsto> v\<lparr>i_ref_count := i_ref_count v + 1\<rparr>)\<rparr>)"
proof -
  let ?w = "w\<lparr>sems := (sems w)(CLIENT_INVITE_SEM := 0), sy := (sy w)\<lparr>res_n := Suc (res_n (sy w))\<rparr>\<rparr>"
  have sm: "(sems w)(CLIENT_INVITE_SEM := Suc 0) = sems w" using assms(5) by (auto simp: fun_eq_iff)
  obtain s where s: "env_same (sy w) s" "outp s = outp (sy w)"
      "get_available_id c ?w = Inr (int (free_id (invite_list cl)), (set_client c (reserve cl) ?w)\<lparr>sy := s\<rparr>)"
    using get_available_id_ok [of ?w c cl] assms(1-4) by (auto simp: env_same_def)
  have cl: "(reserve cl)\<lparr>invite_list := ns, c_lock := False\<rparr> = (reserve cl)\<lparr>invite_list := ns\<rparr>" for ns
    using assms(2) by (intro CLIENT.equality) simp_all
  have v: "v\<lparr>i_ref_count := k, i_lock := False\<rparr> = v\<lparr>i_ref_count := k\<rparr>" for k
    using assms(7) by (intro INVITATION.equality) simp_all
  have "client_add_invitation c i w = Inr (int (free_id (invite_list cl)),
      w\<lparr>sy := s, invs := (invs w)(i \<mapsto> v\<lparr>i_ref_count := i_ref_count v + 1\<rparr>),
        clients := (clients w)(c \<mapsto> add_node i cl)\<rparr>)"
    using s(3) assms sm by (simp add: client_add_invitation_def sem_wait_w_1 must_alloc_ok inv_ref_def
        set_defs sem_post_w_def Let_def add_node_def cl v)
  with s(1,2) show ?thesis by (intro exI [of _ s]) simp
qed

definition make_inv :: "addr \<Rightarrow> addr \<Rightarrow> GAME_ROLE \<Rightarrow> GAME_ROLE \<Rightarrow> int \<Rightarrow> INVITATION" where
  "make_inv src tgt sr tr k = \<lparr>i_state = INV_OPEN_STATE, i_ref_count = k, i_source = src, i_target = tgt,
     i_game = None, i_source_role = sr, i_target_role = tr, i_lock = False\<rparr>"

definition more_ref :: "CLIENT \<Rightarrow> CLIENT" where
  "more_ref cl = cl\<lparr>c_ref_count := c_ref_count cl + 1\<rparr>"

definition make_w :: "addr \<Rightarrow> addr \<Rightarrow> GAME_ROLE \<Rightarrow> GAME_ROLE \<Rightarrow> world \<Rightarrow> world" where
  "make_w src tgt sr tr w =
     (let i = next_addr w in
      w\<lparr>clients := (clients w)(src \<mapsto> add_node i (more_ref (the (clients w src))),
                            tgt \<mapsto> add_node i (more_ref (the (clients w tgt)))),
        invs := (invs w)(i \<mapsto> make_inv src tgt sr tr 2), next_addr := Suc i\<rparr>)"

lemma inv_create_ok:
  assumes "no_oom (sy w)" and "src \<noteq> tgt" and "clients w src = Some sc" "\<not> c_lock sc"
    and "clients w tgt = Some tc" "\<not> c_lock tc"
  shows "\<exists>s. env_same (sy w) s \<and> outp s = outp (sy w) \<and> inv_create src tgt sr tr w = Inr (Some (next_addr w),
    w\<lparr>sy := s, next_addr := Suc (next_addr w),
      clients := (clients w)(src \<mapsto> more_ref sc, tgt \<mapsto> more_ref tc),
      invs := (invs w)(next_addr w \<mapsto> make_inv src tgt sr tr 1)\<rparr>)"
  using assms by (intro exI [of _ "(sy w)\<lparr>res_n := res_n (sy w) + 2\<rparr>"]) (cases sc; cases tc;
    simp add: inv_create_def request_w_ok Let_def inv_ref_def client_ref_def set_defs make_inv_def more_ref_def)

lemma ids_ok_add_node: "ids_ok cl \<Longrightarrow> i \<notin> n_inv ` set (invite_list cl) \<Longrightarrow> ids_ok (add_node i cl)"
  unfolding add_node_def by (rule ids_ok_reserve)

lemma more_ref_fields [simp]:
  "c_lock (more_ref cl) = c_lock cl" "c_fd (more_ref cl) = c_fd cl" "c_ref_count (more_ref cl) = c_ref_count cl + 1"
  "c_player (more_ref cl) = c_player cl" "logged_in (more_ref cl) = logged_in cl"
  "invite_list (more_ref cl) = invite_list cl" "ids_ok (more_ref cl) = ids_ok cl"
  by (simp_all add: more_ref_def ids_ok_def)

lemma objs_ok_make:
  assumes ok: "objs_ok R w" and ne: "src \<noteq> tgt" and R: "src \<in> R" "tgt \<in> R"
    and roles: "sr \<noteq> NULL_ROLE" "tr \<noteq> NULL_ROLE" "sr \<noteq> tr"
  shows "objs_ok R (make_w src tgt sr tr w)"
proof -
  let ?i = "next_addr w"
  let ?w = "make_w src tgt sr tr w"
  obtain sc tc where c: "clients w src = Some sc" "clients w tgt = Some tc" using objs_regD [OF ok] R by blast
  have fresh: "invs w ?i = None"
  proof (cases "invs w ?i")
    case (Some v)
    then show ?thesis using objs_invD [OF ok Some] by (simp add: inv_ok_def)
  qed
  have h: "held ?w d = (if d = src \<or> d = tgt then insert ?i (held w d) else held w d)" for d
    using fresh by (auto simp: held_def make_w_def make_inv_def Let_def)
  have nh: "?i \<notin> held w d" for d using fresh by (simp add: held_def)
  have cl: "clients ?w = (clients w)(src \<mapsto> add_node ?i (more_ref sc), tgt \<mapsto> add_node ?i (more_ref tc))"
    using c by (simp add: make_w_def Let_def)
  have li: "listed ?w d j \<longleftrightarrow> listed w d j \<or> j = ?i \<and> (d = src \<or> d = tgt)" for d j
    using ne c by (auto simp: listed_def cl)
  have nl: "\<not> listed w d ?i" for d using listed_held [OF ok] nh by blast
  have pl: "player_live w a \<Longrightarrow> player_live ?w a" for a
    by (simp add: player_live_def make_w_def Let_def split: option.splits)
  have g: "game_of ?w = game_of w" using fresh by (auto simp: game_of_def make_w_def make_inv_def Let_def)
  have joined: "client_ok ?w d (add_node ?i (more_ref dl)) \<and> refs_ok R ?w d (add_node ?i (more_ref dl))"
    if "clients w d = Some dl" "d = src \<or> d = tgt" for d dl
  proof -
    have "client_ok w d dl" "refs_ok R w d dl" using ok that(1) by (simp_all add: objs_ok_def)
    moreover have "?i \<notin> n_inv ` set (invite_list dl)"
      using nl [of d] that(1) by (simp add: listed_def)
    moreover have "card (insert ?i (held w d)) = Suc (card (held w d))"
      using finite_held [OF ok] nh by simp
    moreover have "next_addr ?w = Suc ?i" by (simp add: make_w_def Let_def)
    ultimately show ?thesis unfolding client_ok_def refs_ok_def h
      using that(2) pl ids_ok_add_node [of "more_ref dl" ?i] by (auto split: option.splits)
  qed
  show ?thesis
  proof (rule objs_okI)
    fix d dl
    assume d: "clients ?w d = Some dl"
    show "client_ok ?w d dl \<and> refs_ok R ?w d dl"
    proof (cases "d = src \<or> d = tgt")
      case True
      with d c joined show ?thesis by (auto simp: cl split: if_splits)
    next
      case False
      then have "client_ok w d dl" "refs_ok R w d dl" using d ok by (simp_all add: objs_ok_def cl)
      moreover have "next_addr ?w = Suc ?i" by (simp add: make_w_def Let_def)
      ultimately show ?thesis using False pl unfolding client_ok_def refs_ok_def h by (auto split: option.splits)
    qed
  next
    fix d
    assume "d \<in> R"
    then show "clients ?w d \<noteq> None" using ok by (simp add: objs_ok_def cl)
  next
    fix j u
    assume j: "invs ?w j = Some u"
    have gs: "games ?w = games w" "next_addr ?w = Suc ?i" by (simp_all add: make_w_def Let_def)
    show "inv_ok ?w j u"
    proof (cases "j = ?i")
      case True
      then have "u = make_inv src tgt sr tr 2" using j by (simp add: make_w_def Let_def)
      with True c ne roles show ?thesis by (simp add: inv_ok_def make_inv_def li cl gs)
    next
      case False
      then have "inv_ok w j u" using j objs_invD [OF ok] by (simp add: make_w_def Let_def)
      with False show ?thesis by (auto simp: inv_ok_def li cl gs split: option.splits)
    qed
  next
    show "games_owned ?w" using ok unfolding objs_ok_def games_owned_def g
      by (auto simp: make_w_def Let_def less_Suc_eq)
  qed
qed


lemma make_inv_fields [simp]:
  "(make_inv src tgt sr tr k)\<lparr>i_ref_count := m\<rparr> = make_inv src tgt sr tr m"
  "i_ref_count (make_inv src tgt sr tr k) = k" "i_lock (make_inv src tgt sr tr k) = False"
  "i_state (make_inv src tgt sr tr k) = INV_OPEN_STATE" "i_source (make_inv src tgt sr tr k) = src"
  "i_target (make_inv src tgt sr tr k) = tgt" "i_game (make_inv src tgt sr tr k) = None"
  "i_source_role (make_inv src tgt sr tr k) = sr" "i_target_role (make_inv src tgt sr tr k) = tr"
  by (simp_all add: make_inv_def)

lemma make_w_core:
  assumes c: "core R w" and ne: "src \<noteq> tgt" and R: "src \<in> R" "tgt \<in> R"
    and roles: "sr \<noteq> NULL_ROLE" "tr \<noteq> NULL_ROLE" "sr \<noteq> tr"
  shows "core R (make_w src tgt sr tr w)" and "frame w (make_w src tgt sr tr w)"
proof -
  let ?w = "make_w src tgt sr tr w"
  obtain sc tc where cl: "clients w src = Some sc" "clients w tgt = Some tc"
    using objs_regD [OF coreD(1) [OF c]] R by blast
  have li: "listed w d j \<Longrightarrow> listed ?w d j" "listed ?w src (next_addr w)" "listed ?w tgt (next_addr w)" for d j
    using ne cl by (auto simp: listed_def make_w_def Let_def)
  have "live_ok R ?w" unfolding live_ok_def
  proof (intro allI impI)
    fix j u
    assume j: "invs ?w j = Some u \<and> i_state u \<noteq> INV_CLOSED_STATE"
    show "i_source u \<in> R \<and> i_target u \<in> R \<and> listed ?w (i_source u) j \<and> listed ?w (i_target u) j"
    proof (cases "j = next_addr w")
      case True
      with j R li show ?thesis by (auto simp: make_w_def Let_def)
    next
      case False
      then have "invs w j = Some u" using j by (simp add: make_w_def Let_def)
      with j coreD(2) [OF c] li(1) show ?thesis unfolding live_ok_def by blast
    qed
  qed
  moreover have "pos_refs ?w" using coreD(3) [OF c] by (auto simp: pos_refs_def make_w_def Let_def)
  ultimately show "core R ?w"
    using objs_ok_make [OF coreD(1) [OF c] ne R roles] coreD(4) [OF c]
    by (simp add: core_def make_w_def Let_def)
  have "who ?w = who w" using cl by (auto simp: who_def make_w_def Let_def)
  then show "frame w ?w" by (simp add: frame_def make_w_def Let_def)
qed

text \<open>The end of the handler, once the invitation is in both lists.\<close>

definition tell_invited ::
  "(addr \<Rightarrow> world \<Rightarrow> world result) \<Rightarrow> addr \<Rightarrow> addr \<Rightarrow> GAME_ROLE \<Rightarrow> addr \<Rightarrow> int \<Rightarrow> int \<Rightarrow> int act" where
  "tell_invited U src tgt tr i source_id target_id w =
     and_then (load (clients w) src) (\<lambda>cl.
     and_then (deref (players w) (c_player cl)) (\<lambda>pl.
     case player_get_name pl of
       None \<Rightarrow> Inl NullDeref
     | Some playername \<Rightarrow>
         and_then (create_header_w JEUX_INVITED_PKT target_id (role_val tr) (int (length playername)) w) (\<lambda>(pkt, w).
         and_then (client_send_packet tgt pkt (Some (bytes_of playername)) w) (\<lambda>(_, w).
         and_then (inv_unref U i w) (\<lambda>w. Inr (source_id, sem_post_w OP_SEM w))))))"

text \<open>The world with the invitation in both lists, while the handler still holds a reference to it.\<close>

definition making_w :: "addr \<Rightarrow> addr \<Rightarrow> GAME_ROLE \<Rightarrow> GAME_ROLE \<Rightarrow> sys \<Rightarrow> world \<Rightarrow> world" where
  "making_w src tgt sr tr s w =
     (busy (make_w src tgt sr tr w))\<lparr>sy := s, invs := (invs w)(next_addr w \<mapsto> make_inv src tgt sr tr 3)\<rparr>"

lemma make_w_fields [simp]:
  "sy (make_w src tgt sr tr w) = sy w" "players (make_w src tgt sr tr w) = players w" "sems (make_w src tgt sr tr w) = sems w"
  "creg (make_w src tgt sr tr w) = creg w" "preg (make_w src tgt sr tr w) = preg w"
  "invs (make_w src tgt sr tr w) = (invs w)(next_addr w \<mapsto> make_inv src tgt sr tr 2)"
  by (simp_all add: make_w_def Let_def)

lemma make_invitation_start:
  assumes g: "good R w" and ne: "src \<noteq> tgt" and sc: "clients w src = Some sc" and tc: "clients w tgt = Some tc"
  shows "\<exists>s. env_same (sy w) s \<and> outp s = outp (sy w) \<and> client_make_invitation U src tgt sr tr w
    = tell_invited U src tgt tr (next_addr w) (int (free_id (invite_list sc))) (int (free_id (invite_list tc)))
        (making_w src tgt sr tr s w)"
proof -
  note c = goodD(1) [OF g]
  note ok = coreD(1) [OF c]
  note sd = objs_clientD [OF ok sc] and td = objs_clientD [OF ok tc]
  let ?i = "next_addr w"
  obtain s1 where s1: "env_same (sy w) s1" "outp s1 = outp (sy w)"
      "inv_create src tgt sr tr (busy w) = Inr (Some ?i, (busy w)\<lparr>sy := s1, next_addr := Suc ?i,
        clients := (clients w)(src \<mapsto> more_ref sc, tgt \<mapsto> more_ref tc),
        invs := (invs w)(?i \<mapsto> make_inv src tgt sr tr 1)\<rparr>)"
    using inv_create_ok [of "busy w" src tgt sc tc sr tr] coreD(4) [OF c] ne sc tc sd(1) td(1)
    unfolding busy_fields by blast
  let ?w1 = "(busy w)\<lparr>sy := s1, next_addr := Suc ?i,
        clients := (clients w)(src \<mapsto> more_ref sc, tgt \<mapsto> more_ref tc),
        invs := (invs w)(?i \<mapsto> make_inv src tgt sr tr 1)\<rparr>"
  have no1: "no_oom s1" using coreD(4) [OF c] env_same_no_oom [OF s1(1)] by simp
  obtain s2 where s2: "env_same s1 s2" "outp s2 = outp s1"
      "client_add_invitation src ?i ?w1 = Inr (int (free_id (invite_list sc)),
        (busy w)\<lparr>sy := s2, next_addr := Suc ?i,
          clients := (clients w)(tgt \<mapsto> more_ref tc, src \<mapsto> add_node ?i (more_ref sc)),
          invs := (invs w)(?i \<mapsto> make_inv src tgt sr tr 2)\<rparr>)"
    using client_add_ok [of ?w1 src "more_ref sc" ?i "make_inv src tgt sr tr 1"] ne sd(1,2) no1 goodD(3) [OF g]
    by (auto simp: fun_upd_twist [of tgt src])
  let ?w2 = "(busy w)\<lparr>sy := s2, next_addr := Suc ?i,
          clients := (clients w)(tgt \<mapsto> more_ref tc, src \<mapsto> add_node ?i (more_ref sc)),
          invs := (invs w)(?i \<mapsto> make_inv src tgt sr tr 2)\<rparr>"
  have no2: "no_oom s2" using no1 env_same_no_oom [OF s2(1)] by simp
  obtain s3 where s3: "env_same s2 s3" "outp s3 = outp s2"
      "client_add_invitation tgt ?i ?w2 = Inr (int (free_id (invite_list tc)),
        (busy w)\<lparr>sy := s3, next_addr := Suc ?i,
          clients := (clients w)(src \<mapsto> add_node ?i (more_ref sc), tgt \<mapsto> add_node ?i (more_ref tc)),
          invs := (invs w)(?i \<mapsto> make_inv src tgt sr tr 3)\<rparr>)"
    using client_add_ok [of ?w2 tgt "more_ref tc" ?i "make_inv src tgt sr tr 2"] ne td(1,2) no2 goodD(3) [OF g]
    by (auto simp: fun_upd_twist [of src tgt])
  let ?w3 = "(busy w)\<lparr>sy := s3, next_addr := Suc ?i,
          clients := (clients w)(src \<mapsto> add_node ?i (more_ref sc), tgt \<mapsto> add_node ?i (more_ref tc)),
          invs := (invs w)(?i \<mapsto> make_inv src tgt sr tr 3)\<rparr>"
  have w3: "?w3 = making_w src tgt sr tr s3 w"
    using sc tc by (intro world.equality) (simp_all add: making_w_def make_w_def busy_def Let_def)
  have "client_make_invitation U src tgt sr tr w
      = tell_invited U src tgt tr ?i (int (free_id (invite_list sc))) (int (free_id (invite_list tc))) ?w3"
    using goodD(2) [OF g] s1(3) s2(3) s3(3) by (simp add: client_make_invitation_def tell_invited_def sem_wait_op)
  then show ?thesis
    unfolding w3 using env_same_trans [OF env_same_trans [OF s1(1) s2(1)] s3(1)] s1(2) s2(2) s3(2)
    by (intro exI [of _ s3]) simp
qed

lemma making_w_fields [simp]:
  "sy (making_w src tgt sr tr s w) = s" "players (making_w src tgt sr tr s w) = players w"
  "invs (making_w src tgt sr tr s w) = (invs w)(next_addr w \<mapsto> make_inv src tgt sr tr 3)"
  "clients (making_w src tgt sr tr s w) = clients (make_w src tgt sr tr w)"
  by (simp_all add: making_w_def)

lemma make_w_clients:
  "src \<noteq> tgt \<Longrightarrow> clients (make_w src tgt sr tr w) src = Some (add_node (next_addr w) (more_ref (the (clients w src))))"
  "clients (make_w src tgt sr tr w) tgt = Some (add_node (next_addr w) (more_ref (the (clients w tgt))))"
  by (simp_all add: make_w_def Let_def)

lemma make_invitation_ok:
  assumes g: "good R w" and ne: "src \<noteq> tgt" and sc: "clients w src = Some sc" and tc: "clients w tgt = Some tc"
    and pl: "c_player sc = Some a" "players w a = Some p" "p_name p = Some name"
  shows "\<exists>s pkt. client_make_invitation (client_unref F) src tgt sr tr w
      = Inr (int (free_id (invite_list sc)), (make_w src tgt sr tr w)\<lparr>sy := s\<rparr>)
    \<and> env_same (sy w) s
    \<and> header_for (pkt_val JEUX_INVITED_PKT) (int (free_id (invite_list tc))) (role_val tr) (int (length name)) pkt
    \<and> (net_up (sy w) \<longrightarrow>
         outp s = (outp (sy w))(c_fd tc := outp (sy w) (c_fd tc) @ wire pkt (Some (bytes_of name))))"
proof -
  note c = goodD(1) [OF g]
  obtain s3 where s3: "env_same (sy w) s3" "outp s3 = outp (sy w)" "client_make_invitation (client_unref F) src tgt sr tr w
      = tell_invited (client_unref F) src tgt tr (next_addr w) (int (free_id (invite_list sc)))
          (int (free_id (invite_list tc))) (making_w src tgt sr tr s3 w)"
    using make_invitation_start [OF g ne sc tc] by blast
  obtain w3 where w3: "making_w src tgt sr tr s3 w = w3" "sy w3 = s3" "players w3 = players w"
      "invs w3 = (invs w)(next_addr w \<mapsto> make_inv src tgt sr tr 3)"
      "clients w3 src = Some (add_node (next_addr w) (more_ref sc))" "clients w3 tgt = Some (add_node (next_addr w) (more_ref tc))"
    using make_w_clients [of src tgt sr tr w] ne sc tc by auto
  have td: "\<not> c_lock tc" using objs_clientD(1) [OF coreD(1) [OF c] tc] .
  have no3: "no_oom s3" using coreD(4) [OF c] env_same_no_oom [OF s3(1)] by simp
  obtain pkt r s where p: "told JEUX_INVITED_PKT (int (free_id (invite_list tc))) (role_val tr)
      (int (length name)) (Some (bytes_of name)) tgt w3 pkt r s"
    using notify_told [of w3 tgt "add_node (next_addr w) (more_ref tc)" "Some (bytes_of name)" "int (length name)"
        JEUX_INVITED_PKT "int (free_id (invite_list tc))" "role_val tr"] no3 td w3(2,6)
    by (auto simp: bytes_of_def)
  note t = toldD [OF p]
  have un: "inv_unref (client_unref F) (next_addr w) (w3\<lparr>sy := s\<rparr>)
      = Inr (w3\<lparr>sy := s, invs := (invs w)(next_addr w \<mapsto> make_inv src tgt sr tr 2)\<rparr>)"
    using inv_unref_alive [of "w3\<lparr>sy := s\<rparr>" "next_addr w" "make_inv src tgt sr tr 3"] w3(4) by (simp add: set_inv_def)
  have "client_make_invitation (client_unref F) src tgt sr tr w = Inr (int (free_id (invite_list sc)),
      sem_post_w OP_SEM (w3\<lparr>sy := s, invs := (invs w)(next_addr w \<mapsto> make_inv src tgt sr tr 2)\<rparr>))"
    unfolding s3(3) w3(1) using pl w3(3,5) un
    by (simp add: tell_invited_def player_get_name_def told_exec [OF p])
  moreover have "sem_post_w OP_SEM (w3\<lparr>sy := s, invs := (invs w)(next_addr w \<mapsto> make_inv src tgt sr tr 2)\<rparr>)
      = (make_w src tgt sr tr w)\<lparr>sy := s\<rparr>"
  proof -
    have "(sems w)(OP_SEM := Suc 0) = sems w" using goodD(2) [OF g] by (auto simp: fun_eq_iff)
    then show ?thesis
      unfolding w3(1) [symmetric] by (intro world.equality) (simp_all add: sem_post_w_def making_w_def busy_def)
  qed
  moreover have "net_up (sy w) = net_up s3" using env_same_net_up [OF s3(1)] by simp
  ultimately show ?thesis
    using t env_same_trans [OF s3(1)] s3(2) w3(2,6)
    by (intro exI [of _ s] exI [of _ pkt]) (auto simp: Let_def)
qed

text \<open>A client that is not logged in has no player to take the name from.\<close>

lemma make_invitation_crash:
  assumes "good R w" and ne: "src \<noteq> tgt" and sc: "clients w src = Some sc" and "clients w tgt = Some tc"
    and "c_player sc = None"
  shows "client_make_invitation U src tgt sr tr w = Inl NullDeref"
proof -
  obtain s3 where "client_make_invitation U src tgt sr tr w
      = tell_invited U src tgt tr (next_addr w) (int (free_id (invite_list sc)))
          (int (free_id (invite_list tc))) (making_w src tgt sr tr s3 w)"
    using make_invitation_start [OF assms(1-4)] by blast
  then show ?thesis using make_w_clients(1) [OF ne, of sr tr w] sc assms(5) by (simp add: tell_invited_def)
qed


section \<open>Moving\<close>

lemma parse_move_ok:
  assumes "no_oom s"
  shows "\<exists>mv. game_parse_move gm r str s = (mv, s\<lparr>res_n := Suc (res_n s)\<rparr>)
    \<and> (\<forall>m. mv = Some m \<longrightarrow> role m = r \<and> 0 \<le> move m \<and> move m \<le> 8)"
  using assms by (auto simp: game_parse_move_def Let_def)

lemma game_is_over_ok:
  assumes "game_ok gm"
  shows "\<exists>x gm'. game_is_over gm = Inr (x, gm') \<and> game_ok gm'"
  using assms by (cases "check_lines (row_lines @ col_lines @ diag_lines) (rows gm)")
    (auto simp: game_is_over_def game_ok_def Let_def)

lemma apply_move_ok:
  assumes gm: "game_ok gm" and mv: "0 \<le> move mv" "move mv \<le> 8"
  shows "\<exists>r gm'. game_apply_move gm mv = Inr (r, gm') \<and> game_ok gm' \<and> (r = 0 \<or> r = -1 \<and> gm' = gm)
    \<and> (current_player gm \<noteq> role mv \<longrightarrow> r = -1)"
proof (cases "current_player gm = role mv \<and> rows gm ! nat (move mv) = 0")
  case True
  let ?g = "gm\<lparr>rows := (rows gm)[nat (move mv) := role_val (role mv)],
      current_player := (if current_player gm = FIRST_PLAYER_ROLE then SECOND_PLAYER_ROLE else FIRST_PLAYER_ROLE),
      g_mutex := False\<rparr>"
  have "game_ok ?g" using gm by (simp add: game_ok_def)
  then obtain x gm' where "game_is_over ?g = Inr (x, gm')" "game_ok gm'" using game_is_over_ok by blast
  with True gm mv show ?thesis by (cases gm) (simp add: game_apply_move_def game_ok_def)
next
  case False
  have "gm\<lparr>g_mutex := False\<rparr> = gm" using gm by (intro GAME.equality) (simp_all add: game_ok_def)
  then have "game_apply_move gm mv = Inr (-1, gm)"
    using False gm mv
    by (cases "current_player gm = role mv") (simp_all add: game_apply_move_def game_ok_def Let_def)
  with gm show ?thesis by simp
qed

text \<open>An invitation in any state is removed from the lists of both parties, and so freed.\<close>

lemma remove_both:
  assumes c: "core R w" and v: "invs w i = Some v" and R: "i_source v \<in> R" "i_target v \<in> R"
    and l: "listed w (i_source v) i" "listed w (i_target v) i" and s: "sems w CLIENT_INVITE_SEM = 1"
    and ab: "a = i_source v \<or> a = i_target v" "b = i_source v \<or> b = i_target v" "a \<noteq> b"
  shows "\<exists>m wa n wb. client_remove_invitation (client_unref F) a i w = Inr (m, wa) \<and> 0 \<le> m
    \<and> client_remove_invitation (client_unref F) b i wa = Inr (n, wb) \<and> 0 \<le> n
    \<and> core R wb \<and> frame w wb \<and> sy wb = sy w \<and> players wb = players w \<and> invs wb = (invs w)(i := None)"
proof -
  note ok = coreD(1) [OF c]
  let ?w = "removed_w a i w"
  have la: "listed w a i" using ab l by auto
  have ref: "i_ref_count v = 2" using inv_ref_count [OF ok v] l by simp
  then have v': "invs ?w i = Some (v\<lparr>i_ref_count := 1\<rparr>)" by (simp add: removed_w_invs [OF ok la v])
  note ok' = removed_w_objs_ok [OF ok la v R]
  note f = removed_w_frame [OF ok la v]
  have lb: "listed ?w b i" using ab l removed_w_listed [OF ok la v] by auto
  have s': "sems ?w CLIENT_INVITE_SEM = 1" using f s by (simp add: frame_def)
  have R': "i_source (v\<lparr>i_ref_count := 1\<rparr>) \<in> R" "i_target (v\<lparr>i_ref_count := 1\<rparr>) \<in> R" using R by simp_all
  obtain m n where m: "0 \<le> m" "client_remove_invitation (client_unref F) a i w = Inr (m, ?w)"
      "0 \<le> n" "client_remove_invitation (client_unref F) b i ?w = Inr (n, removed_w b i ?w)"
    using client_remove_eq [OF ok la v R s] client_remove_eq [OF ok' lb v' R' s'] by blast
  have iv: "invs (removed_w b i ?w) = (invs w)(i := None)"
    using ref by (simp add: removed_w_invs [OF ok' lb v'] removed_w_invs [OF ok la v])
  have "live_ok R (removed_w b i ?w)"
    using removed_w_listed [OF ok' lb v'] removed_w_listed [OF ok la v]
    by (intro live_okI_gone [OF coreD(2) [OF c] iv]) simp
  then have "core R (removed_w b i ?w)"
    using removed_w_objs_ok [OF ok' lb v' R'] removed_w_pos [OF ok' lb v' removed_w_pos [OF ok la v coreD(3) [OF c]]]
      coreD(4) [OF c] by (simp add: core_def)
  then show ?thesis
    using m iv frame_trans [OF f removed_w_frame [OF ok' lb v']]
    by (intro exI [of _ m] exI [of _ ?w] exI [of _ n] exI [of _ "removed_w b i ?w"]) simp
qed

lemma finish_game_ok:
  assumes c: "core R w" and v: "invs w i = Some v" and st: "i_state v = INV_ACCEPTED_STATE"
    and party: "a = i_source v \<or> a = i_target v" and s: "sems w CLIENT_INVITE_SEM = 1" "sems w CLIENT_UPDATE_ELO = 1"
    and al: "clients w a = Some al" and bl: "clients w (opponent a v) = Some bl"
  shows "\<exists>r w' pkt. finish_game F (client_unref F) a n (opponent a v) k ro i win w = Inr (r, sem_post_w OP_SEM w')
    \<and> core R w' \<and> frame w w' \<and> (invs w' = invs w \<or> invs w' = (invs w)(i := None))
    \<and> header_for (pkt_val JEUX_ENDED_PKT) k (role_val win) 0 pkt
    \<and> (net_up (sy w) \<longrightarrow> r = 0 \<and> invs w' = (invs w)(i := None)
        \<and> outp (sy w') = (let o1 = (outp (sy w))(c_fd bl := outp (sy w) (c_fd bl) @ wire pkt None)
            in o1(c_fd al := o1 (c_fd al) @ wire (pkt\<lparr>h_id := word_of_int n\<rparr>) None))
        \<and> (c_player al \<noteq> None \<and> c_player bl \<noteq> None \<longrightarrow>
             player_post_result F (players w) (fst (ordered ro (c_player al) (c_player bl)))
               (snd (ordered ro (c_player al) (c_player bl))) (role_val win) = Inr (players w')))"
proof -
  let ?b = "opponent a v"
  have lv: "i_source v \<in> R" "i_target v \<in> R" "listed w (i_source v) i" "listed w (i_target v) i"
    using coreD(2) [OF c] v st by (auto simp: live_ok_def)
  have ne: "i_source v \<noteq> i_target v" using objs_invD [OF coreD(1) [OF c] v] by (simp add: inv_ok_def)
  have opp: "?b = i_source v \<or> ?b = i_target v" "a \<noteq> ?b" using ne party by (auto simp: opponent_def)
  obtain pkt r1 s1 where p: "told JEUX_ENDED_PKT k (role_val win) 0 None ?b w pkt r1 s1"
    using notify_told [of w ?b bl None 0 JEUX_ENDED_PKT k "role_val win"] bl
      objs_clientD(1) [OF coreD(1) [OF c] bl] coreD(4) [OF c] by auto
  note t = toldD [OF p]
  let ?w1 = "w\<lparr>sy := s1\<rparr>"
  have c1: "core R ?w1" "frame w ?w1" using c core_sy t(1) frame_sy by blast+
  obtain j r2 s2 where q: "client_send_packet a (pkt\<lparr>h_id := word_of_int n\<rparr>) None ?w1 = Inr (r2, ?w1\<lparr>sy := s2\<rparr>)"
      "env_same s1 s2" "r2 = 0 \<or> r2 = -1"
      "outp s2 = (outp s1)(c_fd al := outp s1 (c_fd al) @ take j (wire (pkt\<lparr>h_id := word_of_int n\<rparr>) None))"
      "net_up s1 \<longrightarrow> j = length (wire (pkt\<lparr>h_id := word_of_int n\<rparr>) None)"
      "net_up s1 \<and> sized (pkt\<lparr>h_id := word_of_int n\<rparr>) None \<longrightarrow> r2 = 0"
    using send_packet_ok [of ?w1 a al "pkt\<lparr>h_id := word_of_int n\<rparr>" None] al
      objs_clientD(1) [OF coreD(1) [OF c] al] by (auto simp: readable_def)
  have "sized (pkt\<lparr>h_id := word_of_int n\<rparr>) None" using t(3) by (simp add: sized_def header_for_def payload_size_def)
  let ?w2 = "w\<lparr>sy := s2\<rparr>"
  have es: "env_same (sy w) s2" using env_same_trans [OF t(1) q(2)] .
  have c2: "core R ?w2" "frame w ?w2" using c core_sy es frame_sy by blast+
  obtain r3 h where post: "post_player_results F a ?b ro win ?w2 = Inr (r3, ?w2\<lparr>players := h\<rparr>)"
      "whose (?w2\<lparr>players := h\<rparr>) = whose ?w2"
      "c_player al \<noteq> None \<and> c_player bl \<noteq> None \<longrightarrow> r3 = 0 \<and>
         player_post_result F (players w) (fst (ordered ro (c_player al) (c_player bl)))
           (snd (ordered ro (c_player al) (c_player bl))) (role_val win) = Inr h"
    using post_results_ok [OF c2(1), of a al ?b bl F ro win] al bl s(2) by auto
  let ?w3 = "?w2\<lparr>players := h\<rparr>"
  have c3: "core R ?w3" "frame w ?w3"
    using core_players [OF c2(1) post(2)] post(2) frame_trans [OF c2(2), of ?w3] by (simp_all add: frame_def)
  obtain m wa m2 wb where rem: "client_remove_invitation (client_unref F) a i ?w3 = Inr (m, wa)" "0 \<le> m"
      "client_remove_invitation (client_unref F) ?b i wa = Inr (m2, wb)" "0 \<le> m2"
      "core R wb" "frame ?w3 wb" "sy wb = s2" "players wb = h" "invs wb = (invs w)(i := None)"
    using remove_both [OF c3(1), of i v a ?b F] v lv party opp s(1) by auto
  have exec: "finish_game F (client_unref F) a n ?b k ro i win w =
      (if r1 = -1 then Inr (-1, sem_post_w OP_SEM ?w1)
       else if r2 = -1 then Inr (-1, sem_post_w OP_SEM ?w2) else Inr (0, sem_post_w OP_SEM wb))"
    using q(1) post(1) rem(1-4) by (simp add: finish_game_def told_exec [OF p])
  have up: "net_up s1 = net_up (sy w)" using env_same_net_up [OF t(1)] .
  have r: "net_up (sy w) \<longrightarrow> r1 = 0 \<and> r2 = 0"
    using t(5) q(6) up \<open>sized (pkt\<lparr>h_id := word_of_int n\<rparr>) None\<close> by simp
  have out: "net_up (sy w) \<longrightarrow> outp s2 = (let o1 = (outp (sy w))(c_fd bl := outp (sy w) (c_fd bl) @ wire pkt None)
            in o1(c_fd al := o1 (c_fd al) @ wire (pkt\<lparr>h_id := word_of_int n\<rparr>) None))"
    using t(4) q(4,5) up bl by (simp add: Let_def)
  show ?thesis
  proof (cases "r1 = -1 \<or> r2 = -1")
    case True
    then have "\<not> net_up (sy w)" using r by auto
    with True exec c1 c2 t(3) show ?thesis by (cases "r1 = -1") auto
  next
    case False
    then show ?thesis
      using exec rem(5,7-9) frame_trans [OF c3(2) rem(6)] t(3) out post(3)
      by (intro exI [of _ "0 :: int"] exI [of _ wb] exI [of _ pkt]) auto
  qed
qed


lemma set_game_same: "games w g = Some gm \<Longrightarrow> set_game g gm w = w"
  by (simp add: set_game_def fun_upd_idem)

text \<open>
  What a move did, on a working network, that was applied and announced: the opponent is sent the
  board, and if the game is over both players are sent an ENDED packet with the winner.
\<close>

definition announced :: "addr \<Rightarrow> int \<Rightarrow> GAME \<Rightarrow> bool \<Rightarrow> GAME_ROLE \<Rightarrow> CLIENT \<Rightarrow> CLIENT \<Rightarrow> sys \<Rightarrow> sys \<Rightarrow> bool" where
  "announced i n gm over win cl oc s s' \<longleftrightarrow> (\<exists>pkt epkt.
     header_for (pkt_val JEUX_MOVED_PKT) (id_of_inv (invite_list oc) i) 0 40 pkt
     \<and> header_for (pkt_val JEUX_ENDED_PKT) (id_of_inv (invite_list oc) i) (role_val win) 0 epkt
     \<and> outp s' = (let o1 = (outp s)(c_fd oc := outp s (c_fd oc) @ wire pkt (Some (bytes_of (state_string gm))));
                      o2 = o1(c_fd oc := o1 (c_fd oc) @ wire epkt None)
                  in if over then o2(c_fd cl := o2 (c_fd cl) @ wire (epkt\<lparr>h_id := word_of_int n\<rparr>) None) else o1))"

definition moved ::
  "fp \<Rightarrow> addr \<Rightarrow> INVITATION \<Rightarrow> CLIENT \<Rightarrow> CLIENT \<Rightarrow> addr \<Rightarrow> int \<Rightarrow> addr \<Rightarrow> GAME \<Rightarrow> world \<Rightarrow> world \<Rightarrow> bool" where
  "moved F c v cl oc i n gi gm w w' \<longleftrightarrow>
     (case game_is_over gm of Inl e \<Rightarrow> False
      | Inr (over, gm2) \<Rightarrow> announced i n gm (over \<noteq> 0) (winner gm2) cl oc (sy w) (sy w') \<and>
          (if over = 0 then games w' gi = Some gm2 \<and> invs w' = invs w
          else invs w' = (invs w)(i := None) \<and> (c_player cl \<noteq> None \<and> c_player oc \<noteq> None \<longrightarrow>
            player_post_result F (players w) (fst (ordered (my_role_of c v) (c_player cl) (c_player oc)))
              (snd (ordered (my_role_of c v) (c_player cl) (c_player oc))) (role_val (winner gm2)) = Inr (players w'))))"

lemma announce_move_ok:
  assumes c: "core R w" and v: "invs w i = Some v" and st: "i_state v = INV_ACCEPTED_STATE"
    and gi: "i_game v = Some gi" "games w gi = Some gm" "game_ok gm"
    and party: "c = i_source v \<or> c = i_target v" and s: "sems w CLIENT_INVITE_SEM = 1" "sems w CLIENT_UPDATE_ELO = 1"
    and cl: "clients w c = Some cl" and oc: "clients w (opponent c v) = Some oc"
  shows "\<exists>r w'. announce_move F (client_unref F) c n (opponent c v) (my_role_of c v) i gi w
      = Inr (r, sem_post_w OP_SEM w') \<and> core R w' \<and> frame w w' \<and> (invs w' = invs w \<or> invs w' = (invs w)(i := None))
    \<and> (net_up (sy w) \<longrightarrow> r = 0 \<and> moved F c v cl oc i n gi gm w w')"
proof -
  let ?b = "opponent c v"
  obtain s1 where s1: "game_unparse_state gm (sy w) = Inr (Some (state_string gm), gm, s1)"
      "env_same (sy w) s1" "outp s1 = outp (sy w)"
    using game_unparse_state_ok [of gm "sy w"] gi(3) coreD(4) [OF c] by (auto simp: game_ok_def)
  let ?w1 = "w\<lparr>sy := s1\<rparr>"
  have sg: "set_game gi gm ?w1 = ?w1" using gi(2) by (simp add: set_game_same)
  have c1: "core R ?w1" "frame w ?w1" using c core_sy s1(2) frame_sy by blast+
  have no1: "no_oom s1" using coreD(4) [OF c] env_same_no_oom [OF s1(2)] by simp
  obtain pkt r1 s2 where p: "told JEUX_MOVED_PKT (id_of_inv (invite_list oc) i) 0 40
      (Some (bytes_of (state_string gm))) ?b ?w1 pkt r1 s2"
    using notify_told [of ?w1 ?b oc "Some (bytes_of (state_string gm))" 40
        JEUX_MOVED_PKT "id_of_inv (invite_list oc) i" 0] oc objs_clientD(1) [OF coreD(1) [OF c] oc] no1
    by (auto simp: bytes_of_def)
  note t = toldD [OF p]
  let ?w2 = "w\<lparr>sy := s2\<rparr>"
  have es: "env_same (sy w) s2" using env_same_trans [OF s1(2)] t(1) by simp
  have c2: "core R ?w2" "frame w ?w2" using c core_sy es frame_sy by blast+
  obtain over gm2 where ov: "game_is_over gm = Inr (over, gm2)" "game_ok gm2" using game_is_over_ok [OF gi(3)] by blast
  let ?w3 = "set_game gi gm2 ?w2"
  have v2: "invs ?w2 i = Some v" using v by simp
  have c3: "core R ?w3" "frame w ?w3"
    using core_set_game [OF c2(1) v2 gi(1) _ ov(2)] st frame_trans [OF c2(2)] by simp_all
  have v3: "invs ?w3 i = Some v" using v by simp
  obtain r4 w4 epkt where fin: "finish_game F (client_unref F) c n ?b (id_of_inv (invite_list oc) i) (my_role_of c v) i
        (winner gm2) ?w3 = Inr (r4, sem_post_w OP_SEM w4)" "core R w4" "frame ?w3 w4"
      "invs w4 = invs w \<or> invs w4 = (invs w)(i := None)"
      "header_for (pkt_val JEUX_ENDED_PKT) (id_of_inv (invite_list oc) i) (role_val (winner gm2)) 0 epkt"
      "net_up s2 \<longrightarrow> r4 = 0 \<and> invs w4 = (invs w)(i := None) \<and> outp (sy w4) =
        (let o1 = (outp s2)(c_fd oc := outp s2 (c_fd oc) @ wire epkt None)
         in o1(c_fd cl := o1 (c_fd cl) @ wire (epkt\<lparr>h_id := word_of_int n\<rparr>) None)) \<and> (c_player cl \<noteq> None \<and> c_player oc \<noteq> None \<longrightarrow>
         player_post_result F (players w) (fst (ordered (my_role_of c v) (c_player cl) (c_player oc)))
           (snd (ordered (my_role_of c v) (c_player cl) (c_player oc))) (role_val (winner gm2)) = Inr (players w4))"
    using finish_game_ok [OF c3(1) v3 st party, of cl oc F n "id_of_inv (invite_list oc) i" "my_role_of c v" "winner gm2"]
      s cl oc by auto
  have exec: "announce_move F (client_unref F) c n ?b (my_role_of c v) i gi w =
      (if r1 = -1 then Inr (-1, sem_post_w OP_SEM ?w2)
       else if over = 0 then Inr (0, sem_post_w OP_SEM ?w3) else Inr (r4, sem_post_w OP_SEM w4))"
    using gi(2) s1(1) sg get_invitation_id_ok [OF c1(1), of ?b oc i] oc ov(1) fin(1)
    by (simp add: announce_move_def told_exec [OF p] game_get_winner_def)
  have up: "net_up s1 = net_up (sy w)" "net_up s2 = net_up (sy w)"
    using env_same_net_up [OF s1(2)] env_same_net_up [OF es] by simp_all
  have r1: "net_up (sy w) \<longrightarrow> r1 = 0" using t(5) up by (auto simp: bytes_of_def)
  have out: "net_up (sy w) \<longrightarrow> outp s2 = (outp (sy w))(c_fd oc := outp (sy w) (c_fd oc) @ wire pkt (Some (bytes_of (state_string gm))))"
    using t(4) up oc s1(3) by (simp add: Let_def)
  show ?thesis
  proof (cases "r1 = -1")
    case True
    with exec c2 r1 show ?thesis by (intro exI [of _ "-1 :: int"] exI [of _ ?w2]) auto
  next
    case False
    show ?thesis
    proof (cases "over = 0")
      case True
      have "net_up (sy w) \<longrightarrow> announced i n gm False (winner gm2) cl oc (sy w) s2"
        using out t(3) fin(5) unfolding announced_def by (auto simp: Let_def)
      with True False exec c3 ov(1) show ?thesis
        by (intro exI [of _ "0 :: int"] exI [of _ ?w3]) (simp add: moved_def)
    next
      case False
      have "net_up (sy w) \<longrightarrow> announced i n gm True (winner gm2) cl oc (sy w) (sy w4)"
        using out t(3) fin(5,6) up unfolding announced_def by (auto simp: Let_def)
      with \<open>over \<noteq> 0\<close> \<open>r1 \<noteq> -1\<close> exec fin(1-4,6) frame_trans [OF c3(2) fin(3)] up ov(1) show ?thesis
        by (intro exI [of _ r4] exI [of _ w4]) (simp add: moved_def)
    qed
  qed
qed

text \<open>
  The move that a party of an accepted invitation makes. The four ways it ends: the text is not a
  move, the move is not legal, the opponent is told and the game goes on, or the game is over.
\<close>

lemma move_accepted:
  assumes g: "good R w" and cl: "clients w c = Some cl" and i: "inv_of_id (invite_list cl) n = Some i"
    and v: "invs w i = Some v" and st: "i_state v = INV_ACCEPTED_STATE"
    and gi: "i_game v = Some gi" "games w gi = Some gm" and oc: "clients w (opponent c v) = Some oc"
  shows "\<exists>r w'. client_make_move F (client_unref F) c n str w = Inr (r, w') \<and> good R w' \<and> frame w w'
    \<and> (invs w' = invs w \<or> invs w' = (invs w)(i := None))
    \<and> (case fst (game_parse_move gm (my_role_of c v) str (sy w)) of
         None \<Rightarrow> r = -1 \<and> games w' gi = Some gm
       | Some mv \<Rightarrow> (case game_apply_move gm mv of Inl e \<Rightarrow> False
           | Inr (q, gm1) \<Rightarrow> if q = -1 then r = -1 \<and> games w' gi = Some gm
               else net_up (sy w) \<longrightarrow> r = 0 \<and> moved F c v cl oc i n gi gm1 w w'))"
proof -
  note c = goodD(1) [OF g]
  have gok: "game_ok gm" using accepted_game [OF c v st] gi by auto
  have party: "c = i_source v \<or> c = i_target v" using found_invitation(2) [OF c cl i] v by auto
  have ne: "i_source v \<noteq> i_target v" using objs_invD [OF coreD(1) [OF c] v] by (simp add: inv_ok_def)
  let ?b = "opponent c v" and ?ro = "my_role_of c v"
  obtain mv where mv: "game_parse_move gm ?ro str (sy w) = (mv, (sy w)\<lparr>res_n := Suc (res_n (sy w))\<rparr>)"
      "\<forall>m. mv = Some m \<longrightarrow> role m = ?ro \<and> 0 \<le> move m \<and> move m \<le> 8"
    using parse_move_ok [OF coreD(4) [OF c], of gm ?ro str] by blast
  obtain s0 where s0: "(sy w)\<lparr>res_n := Suc (res_n (sy w))\<rparr> = s0" "env_same (sy w) s0" by simp
  let ?w0 = "(busy w)\<lparr>sy := s0\<rparr>"
  have c0: "core R ?w0" "frame (busy w) ?w0" using core_sy [of "busy w" s0 R] c s0(2) frame_sy [of "busy w" s0] by simp_all
  note start = get_invitation_ok [of R "busy w" c cl n] c cl i v gi goodD(2) [OF g] parties_eq [of "busy w" i v c]
    party ne mv(1) s0(1)
  show ?thesis
  proof (cases mv)
    case None
    have "client_make_move F (client_unref F) c n str w = Inr (-1, sem_post_w OP_SEM ?w0)"
      using start None by (simp add: client_make_move_def sem_wait_op inv_get_game_def)
    then show ?thesis using handler_return [OF g c0(2,1)] None mv(1) gi
      by (intro exI [of _ "-1 :: int"] exI [of _ "?w0\<lparr>sems := sems w\<rparr>"]) simp
  next
    case (Some m)
    then obtain q gm1 where ap: "game_apply_move gm m = Inr (q, gm1)" "game_ok gm1" "q = 0 \<or> q = -1 \<and> gm1 = gm"
      using apply_move_ok [OF gok] mv(2) by blast
    let ?w1 = "set_game gi gm1 ?w0"
    have v0: "invs ?w0 i = Some v" using v by simp
    have c1: "core R ?w1" "frame (busy w) ?w1"
      using core_set_game [OF c0(1) v0 gi(1) _ ap(2)] st frame_trans [OF c0(2)] by simp_all
    show ?thesis
    proof (cases "q = -1")
      case True
      then have "client_make_move F (client_unref F) c n str w = Inr (-1, sem_post_w OP_SEM ?w1)"
        using start Some ap(1) by (simp add: client_make_move_def sem_wait_op inv_get_game_def)
      then show ?thesis using handler_return [OF g c1(2,1)] True Some mv(1) ap
        by (intro exI [of _ "-1 :: int"] exI [of _ "?w1\<lparr>sems := sems w\<rparr>"]) simp
    next
      case False
      have f1: "invs ?w1 i = Some v" "games ?w1 gi = Some gm1" "clients ?w1 c = Some cl" "clients ?w1 ?b = Some oc"
          "sems ?w1 = sems (busy w)"
        using v cl oc by simp_all
      obtain r2 w2 where an: "announce_move F (client_unref F) c n ?b ?ro i gi ?w1 = Inr (r2, sem_post_w OP_SEM w2)"
          "core R w2" "frame ?w1 w2" "invs w2 = invs ?w1 \<or> invs w2 = (invs ?w1)(i := None)"
          "net_up (sy ?w1) \<longrightarrow> r2 = 0 \<and> moved F c v cl oc i n gi gm1 ?w1 w2"
        using announce_move_ok [OF c1(1) f1(1) st gi(1) f1(2) ap(2) party _ _ f1(3,4), of F n] goodD(3,4) [OF g]
        unfolding f1(5) by blast
      have exec: "client_make_move F (client_unref F) c n str w = Inr (r2, sem_post_w OP_SEM w2)"
        using start Some ap(1) False an(1) by (simp add: client_make_move_def sem_wait_op inv_get_game_def)
      have "moved F c v cl oc i n gi gm1 ?w1 w2
          = moved F c v cl oc i n gi gm1 w (w2\<lparr>sems := sems w\<rparr>)"
        by (simp add: moved_def announced_def s0(1) [symmetric] split: sum.splits prod.splits)
      then show ?thesis
        using exec handler_return [OF g frame_trans [OF c1(2) an(3)] an(2)] an(4,5) Some mv(1) ap(1) False
          env_same_net_up [OF s0(2)]
        by (intro exI [of _ r2] exI [of _ "w2\<lparr>sems := sems w\<rparr>"]) simp
    qed
  qed
qed

text \<open>Every other move is refused: there is no game, or it was resigned.\<close>

lemma move_refused:
  assumes g: "good R w" and cl: "clients w c = Some cl"
    and no: "\<forall>i v gi. inv_of_id (invite_list cl) n = Some i \<and> invs w i = Some v \<and> i_game v = Some gi \<longrightarrow>
      i_state v = INV_CLOSED_STATE \<and> current_player (the (games w gi)) = NULL_ROLE"
  shows "\<exists>s. client_make_move F U c n str w = Inr (-1, w\<lparr>sy := s\<rparr>) \<and> env_same (sy w) s"
proof -
  note c = goodD(1) [OF g]
  have post: "sem_post_w OP_SEM ((busy w)\<lparr>sy := s\<rparr>) = w\<lparr>sy := s\<rparr>" for s
  proof -
    have "(sems w)(OP_SEM := Suc 0) = sems w" using goodD(2) [OF g] by (auto simp: fun_eq_iff)
    then show ?thesis by (simp add: sem_post_w_def busy_def)
  qed
  have "(busy w)\<lparr>sy := sy w\<rparr> = busy w" by (simp add: busy_def)
  then have idle: "sem_post_w OP_SEM (busy w) = w\<lparr>sy := sy w\<rparr>" using post [of "sy w"] by (simp only:)
  note get = get_invitation_ok [of R "busy w" c cl n]
  show ?thesis
  proof (cases "\<exists>i v gi. inv_of_id (invite_list cl) n = Some i \<and> invs w i = Some v \<and> i_game v = Some gi")
    case False
    then have "inv_get_game (inv_of_id (invite_list cl) n) (busy w) = Inr None"
      using found_invitation(2) [OF c cl] by (cases "inv_of_id (invite_list cl) n") (fastforce simp: inv_get_game_def)+
    then show ?thesis using get c cl goodD(2) [OF g] idle
      by (intro exI [of _ "sy w"]) (simp add: client_make_move_def sem_wait_op)
  next
    case True
    then obtain i v gi where i: "inv_of_id (invite_list cl) n = Some i" "invs w i = Some v" "i_game v = Some gi" by blast
    have vok: "inv_ok w i v" using objs_invD [OF coreD(1) [OF c] i(2)] .
    then obtain gm where gm: "games w gi = Some gm" "game_ok gm"
      using i(3) by (auto simp: inv_ok_def split: option.splits)
    have cp: "current_player gm = NULL_ROLE" using no i gm(1) by auto
    have party: "c = i_source v \<or> c = i_target v" using found_invitation(2) [OF c cl i(1)] i(2) by auto
    have ne: "i_source v \<noteq> i_target v" "my_role_of c v \<noteq> NULL_ROLE" using vok by (auto simp: inv_ok_def my_role_of_def)
    let ?s = "(sy w)\<lparr>res_n := Suc (res_n (sy w))\<rparr>"
    obtain mv where mv: "game_parse_move gm (my_role_of c v) str (sy w) = (mv, ?s)"
        "\<forall>m. mv = Some m \<longrightarrow> role m = my_role_of c v \<and> 0 \<le> move m \<and> move m \<le> 8"
      using parse_move_ok [OF coreD(4) [OF c], of gm "my_role_of c v" str] by blast
    have ap: "game_apply_move gm m = Inr (-1, gm)" if "mv = Some m" for m
      using apply_move_ok [OF gm(2), of m] mv(2) that cp ne(2) by auto
    have sg: "set_game gi gm ((busy w)\<lparr>sy := ?s\<rparr>) = (busy w)\<lparr>sy := ?s\<rparr>" using gm(1) by (simp add: set_game_same)
    have "client_make_move F U c n str w = Inr (-1, w\<lparr>sy := ?s\<rparr>)"
      using get c cl goodD(2) [OF g] i gm(1) parties_eq [of "busy w" i v c] party ne(1) mv(1) ap sg post [of ?s]
      by (cases mv) (simp_all add: client_make_move_def sem_wait_op inv_get_game_def)
    then show ?thesis by (intro exI [of _ ?s]) simp
  qed
qed

end
