(* ===== verification/Client_Registry.thy ===== *)
theory Client_Registry
  imports Client_Invitations Player_Registry
begin

text \<open>
  The client registry (\<^verbatim>\<open>src/client_registry.c\<close>): the array of connected clients, its length, the
  semaphores for room and for emptiness, and the flag that stops registration at shutdown; and
  \<open>client_login\<close> of \<^verbatim>\<open>src/client.c\<close>, which reads the registry. Every function of the file is a
  definition here.
\<close>

section \<open>Operations\<close>

definition creg_init :: "sys \<Rightarrow> CLIENT_REGISTRY option \<times> sys" where
  "creg_init s =
     (let (ok, s) = calloc s in
      if \<not> ok then (None, s)
      else let (ok, s) = pthread_mutex_init s in
        if \<not> ok then (None, s)
        else let (ok, s) = sem_init s in
          if \<not> ok then (None, s)
          else let (ok, s) = sem_init s in
            if \<not> ok then (None, s)
            else (Some \<lparr>cr_mutex = False, cr_sem = 0, cr_length = 0, cr_no = 0,
                    cr_clients = replicate MAX_CLIENTS None, cr_login_queue = MAX_CLIENTS\<rparr>, s))"

definition creg_fini :: "world \<Rightarrow> world result" where
  "creg_fini w = (case creg w of None \<Rightarrow> Inl NullDeref | Some _ \<Rightarrow> Inr (w\<lparr>creg := None\<rparr>))"

definition the_creg :: "world \<Rightarrow> CLIENT_REGISTRY result" where
  "the_creg w = (case creg w of None \<Rightarrow> Inl NullDeref | Some cr \<Rightarrow> Inr cr)"

text \<open>A client that could not be created is entered as NULL and counted all the same.\<close>

definition creg_register :: "int \<Rightarrow> ptr act" where
  "creg_register fd w =
     (case creg w of
        None \<Rightarrow> Inr (None, w)
      | Some cr \<Rightarrow>
          if cr_length cr \<ge> int MAX_CLIENTS then Inr (None, w)
          else if cr_no cr = 1 then Inr (None, w)
          else
            and_then (sem_wait (cr_login_queue cr)) (\<lambda>q.
            and_then (pthread_mutex_lock (cr_mutex cr)) (\<lambda>m.
            and_then (client_create fd w) (\<lambda>(client, w).
            and_then (arr_set (cr_clients cr) (cr_length cr) client) (\<lambda>cs.
            Inr (client, w\<lparr>creg := Some (cr\<lparr>cr_login_queue := q, cr_clients := cs,
                   cr_length := cr_length cr + 1, cr_mutex := pthread_mutex_unlock m\<rparr>)\<rparr>))))))"

text \<open>The inner loop that moves the entries behind position \<open>j\<close> up, for the positions in the list.\<close>

fun shift_up :: "nat list \<Rightarrow> ptr list \<Rightarrow> ptr list" where
  "shift_up [] cs = cs"
| "shift_up (j # js) cs = shift_up js (cs[j := cs ! (j + 1)])"

text \<open>The outer loop: the first of the given positions that holds the client.\<close>

fun find_client :: "ptr list \<Rightarrow> nat \<Rightarrow> addr \<Rightarrow> nat option" where
  "find_client [] i c = None"
| "find_client (x # xs) i c = (if x = Some c then Some i else find_client xs (Suc i) c)"

definition creg_unregister :: "fp \<Rightarrow> (addr \<Rightarrow> world \<Rightarrow> world result) \<Rightarrow> ptr \<Rightarrow> int act" where
  "creg_unregister F unref client w =
     (case (creg w, client) of
        (Some cr, Some c) \<Rightarrow>
          and_then (pthread_mutex_lock (cr_mutex cr)) (\<lambda>m.
          case find_client (take (nat (cr_length cr)) (cr_clients cr)) 0 c of
            None \<Rightarrow> Inr (-1, w)
          | Some i \<Rightarrow>
              let cs = shift_up [i..<nat (cr_length cr - 1)] ((cr_clients cr)[i := None]);
                  w = w\<lparr>creg := Some (cr\<lparr>cr_mutex := m, cr_clients := cs\<rparr>)\<rparr> in
              and_then (client_logout F unref c w) (\<lambda>(_, w).
              and_then (unref c w) (\<lambda>w.
              and_then (the_creg w) (\<lambda>cr.
              let cr = cr\<lparr>cr_length := cr_length cr - 1, cr_login_queue := sem_post (cr_login_queue cr)\<rparr>;
                  cr = (if cr_length cr = 0 then cr\<lparr>cr_sem := sem_post (cr_sem cr)\<rparr> else cr) in
              Inr (0, w\<lparr>creg := Some (cr\<lparr>cr_mutex := pthread_mutex_unlock m\<rparr>)\<rparr>)))))
      | _ \<Rightarrow> Inr (-1, w))"

text \<open>The entries below the length, in order.\<close>

definition creg_entries :: "CLIENT_REGISTRY \<Rightarrow> ptr list" where
  "creg_entries cr = take (nat (cr_length cr)) (cr_clients cr)"

fun lookup_loop :: "ptr list \<Rightarrow> string \<Rightarrow> world \<Rightarrow> ptr result" where
  "lookup_loop [] user w = Inr None"
| "lookup_loop (None # cs) user w = lookup_loop cs user w"
| "lookup_loop (Some c # cs) user w =
     and_then (client_get_player (Some c) w) (\<lambda>player.
     case player of
       None \<Rightarrow> lookup_loop cs user w
     | Some a \<Rightarrow>
         and_then (load (players w) a) (\<lambda>p.
         and_then (strcmp_eq (player_get_name p) (Some user)) (\<lambda>eq.
         if eq then Inr (Some c) else lookup_loop cs user w)))"

definition creg_lookup :: "string \<Rightarrow> ptr act" where
  "creg_lookup user w =
     (case creg w of
        None \<Rightarrow> Inr (None, w)
      | Some cr \<Rightarrow>
          and_then (pthread_mutex_lock (cr_mutex cr)) (\<lambda>_.
          and_then (lookup_loop (creg_entries cr) user w) (\<lambda>r.
          case r of
            None \<Rightarrow> Inr (None, w)
          | Some c \<Rightarrow> and_then (client_ref c w) (\<lambda>w. Inr (Some c, w)))))"

fun all_players_loop :: "ptr list \<Rightarrow> addr list act" where
  "all_players_loop [] w = Inr ([], w)"
| "all_players_loop (None # cs) w = all_players_loop cs w"
| "all_players_loop (Some c # cs) w =
     and_then (client_get_player (Some c) w) (\<lambda>player.
     case player of
       None \<Rightarrow> all_players_loop cs w
     | Some a \<Rightarrow>
         and_then (player_ref_w a w) (\<lambda>w.
         and_then (all_players_loop cs w) (\<lambda>(as, w). Inr (a # as, w))))"

text \<open>
  \<open>None\<close> when the array cannot be allocated, in which case the registry stays locked. The result of
  the resizing is written to without a check.
\<close>

definition creg_all_players :: "addr list option act" where
  "creg_all_players w =
     and_then (the_creg w) (\<lambda>cr.
     and_then (pthread_mutex_lock (cr_mutex cr)) (\<lambda>m.
     let (ok, w) = request_w w in
     if \<not> ok then Inr (None, w\<lparr>creg := Some (cr\<lparr>cr_mutex := m\<rparr>)\<rparr>)
     else
       and_then (all_players_loop (creg_entries cr) w) (\<lambda>(as, w).
       and_then (must_alloc w) (\<lambda>w. Inr (Some as, w)))))"

text \<open>The wait for the semaphore is a function of its own, because other threads run before it returns.\<close>

definition creg_sem_wait :: "world \<Rightarrow> world result" where
  "creg_sem_wait w =
     and_then (the_creg w) (\<lambda>cr.
     and_then (sem_wait (cr_sem cr)) (\<lambda>v. Inr (w\<lparr>creg := Some (cr\<lparr>cr_sem := v\<rparr>)\<rparr>)))"

definition creg_wait_for_empty :: "world \<Rightarrow> world result" where
  "creg_wait_for_empty w =
     and_then (the_creg w) (\<lambda>cr. if cr_length cr > 0 then creg_sem_wait w else Inr w)"

fun shutdown_loop :: "ptr list \<Rightarrow> world \<Rightarrow> world result" where
  "shutdown_loop [] w = Inr w"
| "shutdown_loop (None # cs) w = shutdown_loop cs w"
| "shutdown_loop (Some c # cs) w =
     and_then (client_get_fd c w) (\<lambda>fd.
     shutdown_loop cs (w\<lparr>sy := (sy w)\<lparr>rd_shut := (rd_shut (sy w))(fd := True)\<rparr>\<rparr>))"

definition creg_shutdown_all :: "world \<Rightarrow> world result" where
  "creg_shutdown_all w =
     and_then (the_creg w) (\<lambda>cr.
     and_then (pthread_mutex_lock (cr_mutex cr)) (\<lambda>_.
     shutdown_loop (creg_entries cr) (w\<lparr>creg := Some (cr\<lparr>cr_no := 1\<rparr>)\<rparr>)))"

section \<open>Logging in\<close>

text \<open>The loop over the players in use: is one of them called \<open>name\<close>; each is released again.\<close>

fun login_loop :: "addr list \<Rightarrow> string option \<Rightarrow> bool \<Rightarrow> bool act" where
  "login_loop [] name found w = Inr (found, w)"
| "login_loop (a # as) name found w =
     and_then (load (players w) a) (\<lambda>p.
     and_then (strcmp_eq (player_get_name p) name) (\<lambda>eq.
     and_then (player_unref_w a w) (\<lambda>w. login_loop as name (found \<or> eq) w)))"

text \<open>A client that is already logged in leaves with the login semaphore still taken.\<close>

definition client_login :: "addr \<Rightarrow> addr \<Rightarrow> int act" where
  "client_login c player w =
     and_then (sem_wait_w CLIENT_LOGIN_SEM w) (\<lambda>w.
     and_then (load (clients w) c) (\<lambda>cl.
     if logged_in cl \<noteq> CLIENT_LOGGED_OUT then Inr (-1, w)
     else
       and_then (creg_all_players w) (\<lambda>(ps, w).
       and_then (load (players w) player) (\<lambda>pl.
       and_then (assert_c (ps \<noteq> None) NullDeref) (\<lambda>_.
       and_then (login_loop (the ps) (player_get_name pl) False w) (\<lambda>(found, w).
       if found then Inr (-1, sem_post_w CLIENT_LOGIN_SEM w)
       else
         and_then (load (clients w) c) (\<lambda>cl.
         and_then (pthread_mutex_lock (c_lock cl)) (\<lambda>m.
         and_then (player_ref_w player w) (\<lambda>w.
         let w = set_client c (cl\<lparr>c_player := Some player, logged_in := CLIENT_LOGGED_IN,
                                 c_lock := pthread_mutex_unlock m\<rparr>) w in
         Inr (0, sem_post_w CLIENT_LOGIN_SEM w))))))))))"

end
