(* ===== verification/Server.thy ===== *)
theory Server
  imports Client_Registry
begin

text \<open>
  The service of one client (\<^verbatim>\<open>src/server.c\<close>): the handler of each request and the loop that
  receives packets and dispatches them. Every function of the file is a definition here. A
  connection is served by a thread of its own; the handlers are serialised by the semaphores of
  \<^verbatim>\<open>src/client.c\<close>, and the model executes each of them as one step.
\<close>

section \<open>Handlers\<close>

definition reply_nack :: "addr \<Rightarrow> int act" where
  "reply_nack c w = and_then (client_send_nack c w) (\<lambda>(_, w). Inr (-1, w))"

definition reply_ack :: "addr \<Rightarrow> int act" where
  "reply_ack c w = and_then (client_send_ack c None 0 w) (\<lambda>(_, w). Inr (0, w))"

text \<open>
  The payload is the string that the loop made of the bytes received, \<open>None\<close> for NULL. A client
  whose login fails is sent a NACK and then an ACK.
\<close>

definition process_login :: "string option \<Rightarrow> JEUX_PACKET_HEADER \<Rightarrow> addr \<Rightarrow> int act" where
  "process_login payload hdr c w =
     and_then (client_get_player (Some c) w) (\<lambda>player.
     if player \<noteq> None then reply_nack c w
     else
       case payload of
         None \<Rightarrow> reply_nack c w
       | Some str \<Rightarrow>
           and_then (must_alloc w) (\<lambda>w.
           let username = take (payload_size hdr) str in
           if str = [] then reply_nack c w
           else
             and_then (preg_register username w) (\<lambda>(new_player, w).
             case new_player of
               None \<Rightarrow> reply_nack c w
             | Some p \<Rightarrow>
                 and_then (client_login c p w) (\<lambda>(r, w).
                 and_then (if r = -1 then client_send_nack c w else Inr (0, w)) (\<lambda>(_, w).
                 and_then (player_unref_w p w) (\<lambda>w.
                 and_then (client_send_ack c None 0 w) (\<lambda>(_, w).
                 Inr (1, w))))))))"

text \<open>The conversion \<open>%d\<close>.\<close>

fun dec_nat :: "nat \<Rightarrow> string" where
  "dec_nat n = (if n < 10 then [char_of (48 + n)] else dec_nat (n div 10) @ [char_of (48 + n mod 10)])"

declare dec_nat.simps [simp del]

definition dec_int :: "int \<Rightarrow> string" where
  "dec_int z = (if z < 0 then CHR ''-'' # dec_nat (nat (- z)) else dec_nat (nat z))"

definition user_line :: "string \<Rightarrow> int \<Rightarrow> string" where
  "user_line name r = name @ [CHR 0x09] @ dec_int r @ [CHR 0x0A]"

text \<open>
  The loop over the players in use. The buffer of a line leaves four characters for the rating;
  \<open>sprintf\<close> writes the line and a NUL without looking at its size.
\<close>

fun users_loop :: "addr list \<Rightarrow> string act" where
  "users_loop [] w = Inr ([], w)"
| "users_loop (a # as) w =
     and_then (load (players w) a) (\<lambda>p.
     case player_get_name p of
       None \<Rightarrow> Inl NullDeref
     | Some name \<Rightarrow>
         let line = user_line name (player_get_rating p) in
         and_then (assert_c (length line + 1 \<le> length name + 4 + 2 + 1) BufferOverflow) (\<lambda>_.
         and_then (player_unref_w a w) (\<lambda>w.
         and_then (users_loop as w) (\<lambda>(rest, w). Inr (line @ rest, w)))))"

definition process_users :: "string option \<Rightarrow> addr \<Rightarrow> int act" where
  "process_users payload c w =
     (if payload \<noteq> None then reply_nack c w
      else
        and_then (must_alloc w) (\<lambda>w.
        and_then (creg_all_players w) (\<lambda>(ps, w).
        and_then (assert_c (ps \<noteq> None) NullDeref) (\<lambda>_.
        and_then (users_loop (the ps) w) (\<lambda>(send_payload, w).
        and_then (client_send_ack c (Some (bytes_of send_payload)) (int (length send_payload)) w)
          (\<lambda>(_, w). Inr (0, w)))))))"

definition process_invite :: "fp \<Rightarrow> string option \<Rightarrow> addr \<Rightarrow> JEUX_PACKET_HEADER \<Rightarrow> int act" where
  "process_invite F payload c hdr w =
     (case payload of
        None \<Rightarrow> reply_nack c w
      | Some user \<Rightarrow>
          and_then (creg_lookup user w) (\<lambda>(r, w).
          case r of
            None \<Rightarrow> reply_nack c w
          | Some invitee \<Rightarrow>
              and_then (client_unref F invitee w) (\<lambda>w.
              if c = invitee then reply_nack c w
              else
                let their_role = uint (h_role hdr) in
                if their_role \<noteq> role_val FIRST_PLAYER_ROLE \<and> their_role \<noteq> role_val SECOND_PLAYER_ROLE
                then reply_nack c w
                else
                  and_then
                    (if their_role = role_val FIRST_PLAYER_ROLE
                     then client_make_invitation (client_unref F) c invitee SECOND_PLAYER_ROLE FIRST_PLAYER_ROLE w
                     else client_make_invitation (client_unref F) c invitee FIRST_PLAYER_ROLE SECOND_PLAYER_ROLE w)
                    (\<lambda>(invitation_id, w).
                  and_then (create_header_w JEUX_ACK_PKT invitation_id 0 0 w) (\<lambda>(send_hdr, w).
                  and_then (client_send_packet c send_hdr None w) (\<lambda>(_, w). Inr (0, w)))))))"

definition process_revoke :: "fp \<Rightarrow> string option \<Rightarrow> addr \<Rightarrow> JEUX_PACKET_HEADER \<Rightarrow> int act" where
  "process_revoke F payload c hdr w =
     (if payload \<noteq> None then reply_nack c w
      else
        and_then (client_revoke_invitation (client_unref F) c (uint (h_id hdr)) w) (\<lambda>(r, w).
        if r = -1 then reply_nack c w else reply_ack c w))"

definition process_decline :: "fp \<Rightarrow> string option \<Rightarrow> addr \<Rightarrow> JEUX_PACKET_HEADER \<Rightarrow> int act" where
  "process_decline F payload c hdr w =
     (if payload \<noteq> None then reply_nack c w
      else
        and_then (client_decline_invitation (client_unref F) c (uint (h_id hdr)) w) (\<lambda>(r, w).
        if r = -1 then reply_nack c w else reply_ack c w))"

definition process_accept :: "string option \<Rightarrow> addr \<Rightarrow> JEUX_PACKET_HEADER \<Rightarrow> int act" where
  "process_accept payload c hdr w =
     (if payload \<noteq> None then reply_nack c w
      else
        and_then (client_accept_invitation c (uint (h_id hdr)) w) (\<lambda>((r, game_state), w).
        if r = -1 then reply_nack c w
        else
          case game_state of
            None \<Rightarrow> reply_ack c w
          | Some str \<Rightarrow>
              and_then (client_send_ack c (Some (bytes_of str)) (int (length str)) w) (\<lambda>(_, w). Inr (0, w))))"

definition process_move :: "fp \<Rightarrow> string option \<Rightarrow> addr \<Rightarrow> JEUX_PACKET_HEADER \<Rightarrow> int act" where
  "process_move F payload c hdr w =
     (case payload of
        None \<Rightarrow> reply_nack c w
      | Some str \<Rightarrow>
          and_then (must_alloc w) (\<lambda>w.
          and_then (client_make_move F (client_unref F) c (uint (h_id hdr)) (take (payload_size hdr) str) w)
            (\<lambda>(r, w).
          if r = -1 then reply_nack c w else reply_ack c w)))"

definition process_resign :: "fp \<Rightarrow> string option \<Rightarrow> addr \<Rightarrow> JEUX_PACKET_HEADER \<Rightarrow> int act" where
  "process_resign F payload c hdr w =
     (if payload \<noteq> None then reply_nack c w
      else
        and_then (client_resign_game F (client_unref F) c (uint (h_id hdr)) w) (\<lambda>(r, w).
        if r = -1 then reply_nack c w else reply_ack c w))"

section \<open>The service loop\<close>

text \<open>
  The \<open>switch\<close> on the type of a packet. \<open>flag\<close> is \<open>process_login_packet\<close>: 0 before the first
  LOGIN packet, then the result of the last one. The result is \<open>cont\<close> and the new flag.
\<close>

definition guarded :: "int \<Rightarrow> addr \<Rightarrow> int act \<Rightarrow> (bool \<times> int) act" where
  "guarded flag c handler w =
     and_then (if flag = 0 then client_send_nack c w else handler w) (\<lambda>(_, w). Inr ((True, flag), w))"

definition dispatch ::
  "fp \<Rightarrow> addr \<Rightarrow> int \<Rightarrow> JEUX_PACKET_HEADER \<Rightarrow> string option \<Rightarrow> (bool \<times> int) act" where
  "dispatch F c flag hdr payload w =
     (let t = uint (h_type hdr) in
      if t = pkt_val JEUX_LOGIN_PKT then
        and_then (process_login payload hdr c w) (\<lambda>(r, w). Inr ((True, r), w))
      else if t = pkt_val JEUX_USERS_PKT then guarded flag c (process_users None c) w
      else if t = pkt_val JEUX_INVITE_PKT then guarded flag c (process_invite F payload c hdr) w
      else if t = pkt_val JEUX_REVOKE_PKT then guarded flag c (process_revoke F None c hdr) w
      else if t = pkt_val JEUX_ACCEPT_PKT then guarded flag c (process_accept None c hdr) w
      else if t = pkt_val JEUX_DECLINE_PKT then guarded flag c (process_decline F None c hdr) w
      else if t = pkt_val JEUX_MOVE_PKT then guarded flag c (process_move F payload c hdr) w
      else if t = pkt_val JEUX_RESIGN_PKT then guarded flag c (process_resign F None c hdr) w
      else if t = pkt_val JEUX_NO_PKT then
        and_then (client_logout F (client_unref F) c w) (\<lambda>(_, w). Inr ((False, flag), w))
      else Inr ((True, flag), w))"

text \<open>The copy of the payload that ends in a NUL; the bytes behind a NUL in it are not seen.\<close>

definition payload_str :: "JEUX_PACKET_HEADER \<Rightarrow> byte list \<Rightarrow> string" where
  "payload_str hdr bs = cstr (map (\<lambda>b. char_of (unat b)) (take (payload_size hdr) bs))"

text \<open>One round of the loop: the next packet is received and served.\<close>

definition service_step :: "fp \<Rightarrow> addr \<Rightarrow> int \<Rightarrow> int \<Rightarrow> (bool \<times> int) act" where
  "service_step F c connfd flag w =
     and_then (proto_recv_packet connfd zero_header True (sy w)) (\<lambda>((ret, hdr, payload), s).
     let w = w\<lparr>sy := s\<rparr> in
     if ret = -1 then
       and_then (client_logout F (client_unref F) c w) (\<lambda>(_, w). Inr ((False, flag), w))
     else
       case payload of
         None \<Rightarrow> dispatch F c flag hdr None w
       | Some bs \<Rightarrow>
           and_then (must_alloc w) (\<lambda>w. dispatch F c flag hdr (Some (payload_str hdr bs)) w))"

text \<open>
  The loop. Each round consumes a header from the input, so the input of the connection bounds the
  number of rounds; the bound is an argument.
\<close>

fun service_loop :: "nat \<Rightarrow> fp \<Rightarrow> addr \<Rightarrow> int \<Rightarrow> int \<Rightarrow> world \<Rightarrow> world result" where
  "service_loop 0 F c connfd flag w = Inl OutOfFuel"
| "service_loop (Suc k) F c connfd flag w =
     and_then (service_step F c connfd flag w) (\<lambda>((cont, flag), w).
     if cont then service_loop k F c connfd flag w else Inr w)"

text \<open>
  \<open>Close\<close> of \<^verbatim>\<open>src/csapp.c\<close> ends the program when the descriptor cannot be closed, as a negative
  one never can.
\<close>

definition Close :: "int \<Rightarrow> world \<Rightarrow> world result" where
  "Close fd w = (let (ok, w) = request_w w in and_then (assert_c (ok \<and> 0 \<le> fd) (Exited 0)) (\<lambda>_. Inr w))"

definition rounds :: "int \<Rightarrow> world \<Rightarrow> nat" where
  "rounds connfd w = Suc (length (inp (sy w) connfd))"

definition jeux_client_service :: "fp \<Rightarrow> int \<Rightarrow> world \<Rightarrow> world result" where
  "jeux_client_service F connfd w =
     and_then (creg_register connfd w) (\<lambda>(client, w).
     case client of
       None \<Rightarrow> Close connfd w
     | Some c \<Rightarrow>
         and_then (service_loop (rounds connfd w) F c connfd 0 w) (\<lambda>w.
         and_then (creg_unregister F (client_unref F) (Some c) w) (\<lambda>(_, w).
         Close connfd w)))"

end
