(* ===== verification/Sessions.thy ===== *)
theory Sessions
  imports Handlers Server
begin

text \<open>
  Logging in and out, connecting and leaving: the invariant of the whole server, and that these
  operations keep it.
\<close>

section \<open>Logging out\<close>

lemma inv_of_id_node:
  "distinct (map n_id ns) \<Longrightarrow> m \<in> set ns \<Longrightarrow> inv_of_id ns (n_id m) = Some (n_inv m)"
  by (induction ns) auto

text \<open>The invitations in a set are closed or gone, no others are touched.\<close>

definition closes_all :: "addr set \<Rightarrow> world \<Rightarrow> world \<Rightarrow> bool" where
  "closes_all I w w' \<longleftrightarrow> (\<forall>j. j \<notin> I \<longrightarrow> invs w' j = invs w j)
     \<and> (\<forall>i v. i \<in> I \<and> invs w' i = Some v \<longrightarrow> i_state v = INV_CLOSED_STATE)
     \<and> (\<forall>d. {m \<in> nodes w d. n_inv m \<notin> I} \<subseteq> nodes w' d \<and> nodes w' d \<subseteq> nodes w d)"

lemma closes_all_empty [simp]: "closes_all {} w w"
  by (simp add: closes_all_def)

lemma closes_all_insert:
  assumes a: "closes i u v" and b: "closes_all I v w"
  shows "closes_all (insert i I) u w"
proof -
  have inv: "invs w j = invs u j" if "j \<notin> insert i I" for j
    using that a b by (simp add: closes_def closes_all_def)
  have st: "i_state x = INV_CLOSED_STATE" if "j \<in> insert i I" "invs w j = Some x" for j x
    using that a b unfolding closes_def closes_all_def by (cases "j \<in> I") auto
  have n1: "{m \<in> nodes u d. n_inv m \<notin> insert i I} \<subseteq> nodes w d" for d
    using a b unfolding closes_def closes_all_def by blast
  have n2: "nodes w d \<subseteq> nodes u d" for d using a b unfolding closes_def closes_all_def by blast
  show ?thesis unfolding closes_all_def using inv st n1 n2 by blast
qed

lemma closes_closed: "invs w i = Some v \<Longrightarrow> i_state v = INV_CLOSED_STATE \<Longrightarrow> closes i w w"
  by (auto simp: closes_def)

text \<open>A client is online when it is logged in. Only online clients have invitations that are not closed.\<close>

definition online :: "world \<Rightarrow> addr \<Rightarrow> bool" where
  "online w c \<longleftrightarrow> (\<exists>a fd. who w c = Some (Some a, CLIENT_LOGGED_IN, fd))"

definition parties_online :: "world \<Rightarrow> bool" where
  "parties_online w \<longleftrightarrow> (\<forall>i v. invs w i = Some v \<and> i_state v \<noteq> INV_CLOSED_STATE \<longrightarrow>
     online w (i_source v) \<and> online w (i_target v))"

lemma parties_online_closes:
  assumes "parties_online w" and "who w' = who w" and "closes i w w'"
  shows "parties_online w'"
proof -
  have on: "online w' = online w" by (simp add: online_def assms(2) fun_eq_iff)
  show ?thesis unfolding parties_online_def on
  proof (intro allI impI)
    fix j v
    assume j: "invs w' j = Some v \<and> i_state v \<noteq> INV_CLOSED_STATE"
    then have "j \<noteq> i" "invs w j = Some v" using assms(3) unfolding closes_def by metis+
    with j assms(1) show "online w (i_source v) \<and> online w (i_target v)" unfolding parties_online_def by blast
  qed
qed

text \<open>No closed invitation has a game. This is so as long as every packet can be written.\<close>

definition tidy :: "world \<Rightarrow> bool" where
  "tidy w \<longleftrightarrow> (\<forall>i v. invs w i = Some v \<and> i_state v = INV_CLOSED_STATE \<longrightarrow> i_game v = None)"

lemma tidy_invs: "invs w' = invs w \<Longrightarrow> tidy w' = tidy w"
  by (simp add: tidy_def)

lemma tidy_upd [simp]: "tidy (w\<lparr>sy := s\<rparr>) = tidy w" "tidy (w\<lparr>sems := q\<rparr>) = tidy w" "tidy (w\<lparr>creg := x\<rparr>) = tidy w"
    "tidy (w\<lparr>clients := f\<rparr>) = tidy w"
  by (simp_all add: tidy_def)

lemma tidy_closes:
  assumes "tidy w" and "closes i w w'" and "\<And>v. invs w i = Some v \<Longrightarrow> i_game v = None \<or> invs w' i = None"
  shows "tidy w'"
  unfolding tidy_def
proof (intro allI impI)
  fix j x
  assume x: "invs w' j = Some x \<and> i_state x = INV_CLOSED_STATE"
  show "i_game x = None"
  proof (cases "j = i")
    case True
    then obtain u where "invs w i = Some u" "i_game u = i_game x" using x assms(2) unfolding closes_def by blast
    then show ?thesis using assms(3) x True by auto
  next
    case False
    then have "invs w j = Some x" using x assms(2) by (simp add: closes_def)
    then show ?thesis using x assms(1) by (auto simp: tidy_def)
  qed
qed

text \<open>One round of the loop: the game is resigned, the offer revoked or declined, or it was closed before.\<close>

lemma logout_round:
  assumes g: "good R w" and cl: "clients w c = Some cl" and m: "m \<in> nodes w c"
    and v: "invs w (n_inv m) = Some v"
  shows "\<exists>r w'. (if i_game v \<noteq> None then client_resign_game F (client_unref F) c (n_id m) w
      else if i_source v = c then client_revoke_invitation (client_unref F) c (n_id m) w
      else client_decline_invitation (client_unref F) c (n_id m) w) = Inr (r, w')
    \<and> good R w' \<and> frame w w' \<and> closes (n_inv m) w w' \<and> (net_up (sy w) \<and> parties_online w \<and> tidy w \<longrightarrow> tidy w')"
proof -
  note c = goodD(1) [OF g]
  have "distinct (map n_id (invite_list cl))" using objs_clientD(2) [OF coreD(1) [OF c] cl] by (simp add: ids_ok_def)
  then have i: "inv_of_id (invite_list cl) (n_id m) = Some (n_inv m)"
    using m cl by (simp add: nodes_def inv_of_id_node)
  note vok = objs_invD [OF coreD(1) [OF c] v]
  obtain sc tc where parties: "clients w (i_source v) = Some sc" "clients w (i_target v) = Some tc"
    using vok by (auto simp: inv_ok_def)
  obtain oc where oc: "clients w (opponent c v) = Some oc" using parties by (metis opponent_def)
  have open_tidy: "tidy w'" if "closes (n_inv m) w w'" "tidy w" "i_state v = INV_OPEN_STATE" for w'
    using tidy_closes [OF that(2,1)] v open_no_game [OF c v that(3)] by auto
  show ?thesis
  proof (cases "i_state v")
    case INV_OPEN_STATE
    then have "i_game v = None" using open_no_game [OF c v] by simp
    then show ?thesis
      using revoke_open [OF g cl i v INV_OPEN_STATE parties(2), of F] decline_open [OF g cl i v INV_OPEN_STATE parties(1), of F]
        open_tidy [OF _ _ INV_OPEN_STATE]
      by (cases "i_source v = c") (simp, blast)+
  next
    case INV_ACCEPTED_STATE
    then have ga: "i_game v \<noteq> None" using accepted_game [OF c v] by auto
    obtain r w' where w': "client_resign_game F (client_unref F) c (n_id m) w = Inr (r, w')" "good R w'" "frame w w'"
        "closes (n_inv m) w w'" "net_up (sy w) \<and> c_player cl \<noteq> None \<and> c_player oc \<noteq> None \<longrightarrow> invs w' (n_inv m) = None"
      using resign_accepted [OF g cl i v INV_ACCEPTED_STATE oc, of F] by blast
    have "tidy w'" if t: "net_up (sy w)" "parties_online w" "tidy w"
    proof -
      have "online w (i_source v)" "online w (i_target v)" using t(2) v INV_ACCEPTED_STATE by (auto simp: parties_online_def)
      then have "c_player cl \<noteq> None" "c_player oc \<noteq> None"
        using cl oc found_invitation(2) [OF c cl i] v by (auto simp: online_def who_def opponent_def split: if_splits)
      then show ?thesis using tidy_closes [OF t(3) w'(4)] w'(5) t(1) by simp
    qed
    then show ?thesis using ga w' by auto
  next
    case INV_CLOSED_STATE
    then have "client_resign_game F (client_unref F) c (n_id m) w = Inr (-1, w)"
        "client_revoke_invitation (client_unref F) c (n_id m) w = Inr (-1, w)"
        "client_decline_invitation (client_unref F) c (n_id m) w = Inr (-1, w)"
      using resign_refused [OF g cl] revoke_refused [OF g cl] i v by auto
    then show ?thesis using g closes_closed [OF v INV_CLOSED_STATE] by auto
  qed
qed

lemma frame_client: "frame w w' \<Longrightarrow> clients w c = Some cl \<Longrightarrow>
    \<exists>cl'. clients w' c = Some cl' \<and> c_player cl' = c_player cl \<and> logged_in cl' = logged_in cl \<and> c_fd cl' = c_fd cl"
proof -
  assume "frame w w'" "clients w c = Some cl"
  then have "who w' c = Some (c_player cl, logged_in cl, c_fd cl)" by (simp add: frame_def who_def)
  then show ?thesis by (auto simp: who_def)
qed

lemma logout_loop_ok:
  assumes "good R w" and "c \<in> R" and "set ns \<subseteq> nodes w c" and "distinct (map n_inv ns)"
  shows "\<exists>w'. logout_loop F (client_unref F) c ns w = Inr w' \<and> good R w' \<and> frame w w'
    \<and> closes_all (n_inv ` set ns) w w' \<and> (net_up (sy w) \<and> parties_online w \<and> tidy w \<longrightarrow> tidy w')"
  using assms
proof (induction ns arbitrary: w)
  case Nil
  then show ?case by simp
next
  case (Cons m ns)
  note c = goodD(1) [OF Cons.prems(1)]
  obtain cl where cl: "clients w c = Some cl" using core_client [OF c Cons.prems(2)] by blast
  have m: "m \<in> nodes w c" using Cons.prems(3) by simp
  then have "listed w c (n_inv m)" by (auto simp: listed_nodes)
  then obtain v where v: "invs w (n_inv m) = Some v"
    using listed_held [OF coreD(1) [OF c]] by (auto simp: held_def)
  obtain r w1 where step: "(if i_game v \<noteq> None then client_resign_game F (client_unref F) c (n_id m) w
      else if i_source v = c then client_revoke_invitation (client_unref F) c (n_id m) w
      else client_decline_invitation (client_unref F) c (n_id m) w) = Inr (r, w1)"
      "good R w1" "frame w w1" "closes (n_inv m) w w1" "net_up (sy w) \<and> parties_online w \<and> tidy w \<longrightarrow> tidy w1"
    using logout_round [OF Cons.prems(1) cl m v, of F] by blast
  have "set ns \<subseteq> nodes w1 c"
  proof
    fix x
    assume x: "x \<in> set ns"
    then have "n_inv x \<noteq> n_inv m" using Cons.prems(4) by (metis distinct.simps(2) image_eqI list.set_map list.simps(9))
    moreover have "x \<in> nodes w c" using x Cons.prems(3) by auto
    moreover have "{m' \<in> nodes w c. n_inv m' \<noteq> n_inv m} \<subseteq> nodes w1 c" using step(4) by (simp add: closes_def)
    ultimately show "x \<in> nodes w1 c" by blast
  qed
  then obtain w2 where w2: "logout_loop F (client_unref F) c ns w1 = Inr w2" "good R w2" "frame w1 w2"
      "closes_all (n_inv ` set ns) w1 w2" "net_up (sy w1) \<and> parties_online w1 \<and> tidy w1 \<longrightarrow> tidy w2"
    using Cons.IH [OF step(2) Cons.prems(2)] Cons.prems(4) by auto
  have "logout_loop F (client_unref F) c (m # ns) w = logout_loop F (client_unref F) c ns w1"
    using cl m v step(1) by (auto simp: nodes_def inv_get_game_def inv_get_source_def split: if_splits)
  moreover have "tidy w2" if "net_up (sy w)" "parties_online w" "tidy w"
  proof -
    have f: "who w1 = who w" "net_up (sy w1)" using step(3) that(1) env_same_net_up by (auto simp: frame_def)
    show ?thesis using w2(5) step(5) that f(2) parties_online_closes [OF that(2) f(1) step(4)] by simp
  qed
  ultimately show ?case
    using w2 frame_trans [OF step(3) w2(3)] closes_all_insert [OF step(4) w2(4)] by simp
qed


section \<open>Players in use\<close>

definition logins :: "world \<Rightarrow> addr \<Rightarrow> addr set" where
  "logins w a = {c. \<exists>fd. who w c = Some (Some a, CLIENT_LOGGED_IN, fd)}"

text \<open>
  A registered player has one reference for the registry and one for every client that is logged
  in as it; every player a client points to is registered.
\<close>

definition players_ok :: "world \<Rightarrow> bool" where
  "players_ok w \<longleftrightarrow> preg_ok w \<and>
     (\<forall>a \<in> ran (preg_names w). \<exists>n. whose w a = Some (n, 1 + int (card (logins w a)), False))
     \<and> (\<forall>c a l fd. who w c = Some (Some a, l, fd) \<longrightarrow> a \<in> ran (preg_names w))"

lemma whose_name: "whose w a = Some (Some n, k, m) \<Longrightarrow> name_of (players w) a = n"
  by (auto simp: whose_def name_of_def)

lemma name_of_whose: "players w a \<noteq> None \<Longrightarrow> name_of (players w) a = the (fst (the (whose w a)))"
  by (auto simp: whose_def name_of_def)

lemma preg_list_names:
  assumes "preg_ok w" and "preg w = Some pr"
  shows "ran (preg_names w) = set (pr_list pr)"
proof -
  have "distinct (map fst (map (\<lambda>a. (name_of (players w) a, a)) (pr_list pr)))"
    using preg_okD(4) [OF assms] by (simp add: comp_def)
  from ran_distinct [OF this] show ?thesis by (simp add: preg_okD(5) [OF assms] image_comp comp_def)
qed

lemma preg_ok_frame:
  assumes ok: "preg_ok w" and "preg w' = preg w" and "whose w' = whose w" and "next_addr w \<le> next_addr w'"
  shows "preg_ok w'" and "preg_names w' = preg_names w"
proof -
  obtain pr where pr: "preg w = Some pr" using preg_ok_Some [OF ok] by blast
  note d = preg_okD [OF ok pr]
  have live: "\<forall>a \<in> set (pr_list pr). player_live w' a"
    using d(3) assms(3,4) by (auto simp: player_live_whose)
  have nm: "map (name_of (players w')) (pr_list pr) = map (name_of (players w)) (pr_list pr)"
  proof (rule map_cong [OF refl])
    fix a
    assume "a \<in> set (pr_list pr)"
    then obtain n k where "whose w a = Some (Some n, k, False)" using d(3) by (auto simp: player_live_whose)
    then show "name_of (players w') a = name_of (players w) a" using assms(3) by (metis whose_name)
  qed
  have "distinct (map (name_of (players w')) (pr_list pr))" unfolding nm by (rule d(4))
  then show "preg_ok w'" using d(1,2) live assms(2) pr by (simp add: preg_ok_def)
  have "\<forall>a \<in> set (pr_list pr). name_of (players w') a = name_of (players w) a" using nm by simp
  then show "preg_names w' = preg_names w" using assms(2) pr by (simp add: preg_names_def cong: map_cong)
qed

lemma players_ok_frame:
  assumes "players_ok w" and "frame w w'"
  shows "players_ok w'" and "preg_names w' = preg_names w"
proof -
  have f: "preg w' = preg w" "whose w' = whose w" "who w' = who w" "next_addr w \<le> next_addr w'"
    using assms(2) by (simp_all add: frame_def)
  have ok: "preg_ok w" using assms(1) by (simp add: players_ok_def)
  note p = preg_ok_frame [OF ok f(1,2,4)]
  show "preg_names w' = preg_names w" by (rule p(2))
  show "players_ok w'" using assms(1) p f(2,3) by (simp add: players_ok_def logins_def)
qed

section \<open>The invariant of the server\<close>

text \<open>The registry lists the registered clients once each, and counts them and the free places.\<close>

definition creg_ok :: "addr list \<Rightarrow> world \<Rightarrow> bool" where
  "creg_ok rs w \<longleftrightarrow> (case creg w of None \<Rightarrow> False | Some cr \<Rightarrow>
     \<not> cr_mutex cr \<and> length (cr_clients cr) = MAX_CLIENTS \<and> length rs \<le> MAX_CLIENTS
     \<and> take (length rs) (cr_clients cr) = map Some rs \<and> distinct rs
     \<and> cr_length cr = int (length rs) \<and> cr_login_queue cr = MAX_CLIENTS - length rs)"

definition all_sems :: "world \<Rightarrow> bool" where
  "all_sems w \<longleftrightarrow> (\<forall>i < CLIENT_SEM_FUNCTIONS. sems w i = 1)"

text \<open>
  The clients that point to a player: those that are logged in as it, and those that have logged out
  but are still in the registry. No two registered clients point to the same player.
\<close>

definition bound :: "world \<Rightarrow> addr \<Rightarrow> addr set" where
  "bound w a = {c. \<exists>l fd. who w c = Some (Some a, l, fd)}"

definition logins_ok :: "addr list \<Rightarrow> world \<Rightarrow> bool" where
  "logins_ok rs w \<longleftrightarrow>
     (\<forall>c a fd. who w c = Some (Some a, CLIENT_LOGGED_IN, fd) \<longrightarrow> c \<in> set rs)
     \<and> (\<forall>a. \<forall>c \<in> bound w a. \<forall>d \<in> bound w a. c \<in> set rs \<longrightarrow> d \<in> set rs \<longrightarrow> c = d)"

text \<open>
  A client is present when it is logged in or was never logged in. The others are between logging out
  and leaving the registry.
\<close>

definition present :: "world \<Rightarrow> addr \<Rightarrow> bool" where
  "present w c \<longleftrightarrow> (\<forall>a l fd. who w c = Some (Some a, l, fd) \<longrightarrow> l = CLIENT_LOGGED_IN)"

lemma bound_upd [simp]: "bound (w\<lparr>sy := s\<rparr>) = bound w" "present (w\<lparr>sy := s\<rparr>) = present w"
  by (simp_all add: bound_def present_def fun_eq_iff)

lemma bound_who: "who w' = who w \<Longrightarrow> bound w' = bound w"
  by (simp add: bound_def fun_eq_iff)

lemma present_who: "who w' = who w \<Longrightarrow> present w' = present w"
  by (simp add: present_def fun_eq_iff)

lemma presentD: "present w c \<Longrightarrow> who w c = Some (Some a, l, fd) \<Longrightarrow> l = CLIENT_LOGGED_IN"
  by (auto simp: present_def)

lemma present_none: "who w c = Some (None, l, fd) \<Longrightarrow> present w c"
  by (auto simp: present_def)

lemma present_in: "who w c = Some (x, CLIENT_LOGGED_IN, fd) \<Longrightarrow> present w c"
  by (auto simp: present_def)

lemma logins_bound: "logins w a \<subseteq> bound w a"
  by (auto simp: logins_def bound_def)

lemma logins_okD:
  assumes "logins_ok rs w"
  shows "who w c = Some (Some a, CLIENT_LOGGED_IN, fd) \<Longrightarrow> c \<in> set rs"
    and "c \<in> bound w a \<Longrightarrow> d \<in> bound w a \<Longrightarrow> c \<in> set rs \<Longrightarrow> d \<in> set rs \<Longrightarrow> c = d"
  using assms unfolding logins_ok_def by blast+

lemma logins_reg: "logins_ok rs w \<Longrightarrow> logins w a \<subseteq> set rs"
  using logins_okD(1) by (auto simp: logins_def)

lemma logins_le_1:
  assumes lo: "logins_ok rs w"
  shows "card (logins w a) \<le> 1"
proof -
  have "c = d" if "c \<in> logins w a" "d \<in> logins w a" for c d
    using logins_okD(2) [OF lo, of c a d] that logins_bound [of w a] logins_reg [OF lo, of a] by blast
  then have "is_singleton (logins w a) \<or> logins w a = {}" by (metis is_singletonI')
  then show ?thesis by (auto simp: is_singleton_def)
qed

lemma unbound_logins:
  assumes "logins_ok rs w" and "bound w a \<inter> set rs = {}"
  shows "logins w a = {}"
  using logins_reg [OF assms(1)] assms(2) logins_bound [of w a] by blast

definition server_ok :: "addr list \<Rightarrow> world \<Rightarrow> bool" where
  "server_ok rs w \<longleftrightarrow> core (set rs) w \<and> (rs \<noteq> [] \<longrightarrow> all_sems w) \<and> players_ok w \<and> parties_online w
     \<and> creg_ok rs w \<and> logins_ok rs w \<and> is_sem_init w = 0"

lemma all_semsD:
  assumes "all_sems w"
  shows "sems_free w" "sems w CLIENT_LOGIN_SEM = 1" "sems w CLIENT_LOGOUT_SEM = 1"
  using assms by (simp_all add: all_sems_def sems_free_def sem_ids CLIENT_SEM_FUNCTIONS_def)

lemma server_okD:
  assumes "server_ok rs w"
  shows "core (set rs) w" "players_ok w" "parties_online w" "creg_ok rs w" "logins_ok rs w"
    "c \<in> set rs \<Longrightarrow> all_sems w" "c \<in> set rs \<Longrightarrow> good (set rs) w" "is_sem_init w = 0"
  using assms all_semsD(1) [of w] by (auto simp: server_ok_def good_def)

text \<open>A handler that keeps the frame keeps the invariant, if it opens no invitation.\<close>

lemma server_ok_frame:
  assumes ok: "server_ok rs w" and g: "core (set rs) w'" and f: "frame w w'" and p: "parties_online w'"
  shows "server_ok rs w'"
proof -
  have e: "who w' = who w" "creg w' = creg w" "sems w' = sems w" "is_sem_init w' = is_sem_init w" using f by (simp_all add: frame_def)
  have "logins w' = logins w" by (simp add: logins_def e fun_eq_iff)
  then show ?thesis
    using ok g p players_ok_frame(1) [OF _ f] e
    by (simp add: server_ok_def creg_ok_def logins_ok_def bound_def all_sems_def)
qed

section \<open>Logging out keeps the invariant\<close>

lemma core_players_live:
  assumes c: "core R w" and live: "\<And>a. player_live w a \<Longrightarrow> player_live (w\<lparr>players := h\<rparr>) a"
  shows "core R (w\<lparr>players := h\<rparr>)"
proof -
  have "client_ok (w\<lparr>players := h\<rparr>) d dl" if "client_ok w d dl" for d dl
    using that live by (auto simp: client_ok_def split: option.splits)
  moreover have "inv_ok (w\<lparr>players := h\<rparr>) = inv_ok w"
    by (simp add: inv_ok_def fun_eq_iff cong: option.case_cong)
  moreover have "games_owned (w\<lparr>players := h\<rparr>) = games_owned w" by (simp add: games_owned_def game_of_def)
  ultimately have "objs_ok R (w\<lparr>players := h\<rparr>)"
    using coreD(1) [OF c] by (simp add: objs_ok_def refs_ok_def)
  then show ?thesis using c by (simp add: core_def)
qed

text \<open>Changing what a client is logged in as.\<close>

lemma core_session:
  assumes c: "core R w" and cl: "clients w c = Some cl"
    and x: "case x of None \<Rightarrow> y = CLIENT_LOGGED_OUT | Some a \<Rightarrow> player_live w a"
  shows "core R (set_client c (cl\<lparr>c_player := x, logged_in := y\<rparr>) w)"
proof -
  let ?cl = "cl\<lparr>c_player := x, logged_in := y\<rparr>"
  let ?w = "set_client c ?cl w"
  have li: "listed ?w = listed w" using cl by (auto simp: listed_def set_client_def fun_eq_iff)
  have cok: "client_ok ?w d dl \<and> refs_ok R ?w d dl" if "clients ?w d = Some dl" for d dl
  proof (cases "d = c")
    case True
    have "client_ok w c cl" "refs_ok R w c cl" using coreD(1) [OF c] cl by (simp_all add: objs_ok_def)
    with True that x show ?thesis
      by (auto simp: set_client_def client_ok_def refs_ok_def ids_ok_def split: option.splits)
  next
    case False
    then have "client_ok w d dl" "refs_ok R w d dl" using that coreD(1) [OF c] by (simp_all add: objs_ok_def set_client_def)
    then show ?thesis by (simp add: set_client_def client_ok_def refs_ok_def cong: option.case_cong)
  qed
  have iok: "inv_ok ?w i v" if "inv_ok w i v" for i v
    using that unfolding inv_ok_def li by (auto simp: set_client_def split: option.splits)
  have "games_owned ?w" "\<forall>d \<in> R. clients ?w d \<noteq> None"
    using coreD(1) [OF c] by (auto simp: objs_ok_def games_owned_def game_of_def set_client_def)
  then have "objs_ok R ?w" using cok iok coreD(1) [OF c] by (simp add: objs_ok_def set_client_def)
  moreover have "invs ?w = invs w" by (simp add: set_client_def)
  then have "live_ok R ?w" using coreD(2) [OF c] unfolding live_ok_def li by (simp only:)
  ultimately show ?thesis using coreD(3,4) [OF c] by (simp add: core_def set_client_def)
qed

lemma finite_logins:
  assumes "core R w"
  shows "finite (logins w a)"
proof (rule finite_subset)
  show "logins w a \<subseteq> {..<next_addr w}"
    using objs_clientD(3) [OF coreD(1) [OF assms]] by (auto simp: logins_def who_def)
qed simp

text \<open>What logging out does: nothing but to close the client's invitations and to drop its player.\<close>

lemma logout_effect:
  assumes g: "good R w" and po: "players_ok w" and s: "sems w CLIENT_LOGOUT_SEM = 1" and R: "c \<in> R"
    and on: "who w c = Some (Some a, CLIENT_LOGGED_IN, fd)"
  shows "\<exists>n w'. client_logout F (client_unref F) c w = Inr (0, w') \<and> core R w'
    \<and> creg w' = creg w \<and> preg w' = preg w \<and> is_sem_init w' = is_sem_init w \<and> sems w' = sems w
    \<and> env_same (sy w) (sy w') \<and> next_addr w \<le> next_addr w'
    \<and> who w' = (who w)(c \<mapsto> (Some a, CLIENT_LOGGED_OUT, fd))
    \<and> whose w a = Some (n, 1 + int (card (logins w a)), False)
    \<and> whose w' = (whose w)(a \<mapsto> (n, int (card (logins w a)), False))
    \<and> (\<forall>i v. invs w' i = Some v \<and> i_state v \<noteq> INV_CLOSED_STATE \<longrightarrow>
         invs w i = Some v \<and> c \<noteq> i_source v \<and> c \<noteq> i_target v)
    \<and> (net_up (sy w) \<and> parties_online w \<and> tidy w \<longrightarrow> tidy w') \<and> dom (invs w') \<subseteq> dom (invs w)"
proof -
  note c = goodD(1) [OF g]
  obtain cl where cl: "clients w c = Some cl" "c_player cl = Some a" "logged_in cl = CLIENT_LOGGED_IN" "c_fd cl = fd"
    using on by (auto simp: who_def)
  have a: "a \<in> ran (preg_names w)" using po on by (simp add: players_ok_def) blast
  obtain n where n: "whose w a = Some (n, 1 + int (card (logins w a)), False)" using po a by (auto simp: players_ok_def)
  have "c \<in> logins w a" using on by (auto simp: logins_def)
  then have pos: "0 < card (logins w a)" using finite_logins [OF c] by (auto simp: card_gt_0_iff)
  let ?wb = "w\<lparr>sems := (sems w)(CLIENT_LOGOUT_SEM := 0)\<rparr>"
  have gb: "good R ?wb" using g by (simp add: good_def sems_free_def)
  have nd: "set (invite_list cl) \<subseteq> nodes ?wb c" using cl(1) by (simp add: nodes_def)
  have di: "distinct (map n_inv (invite_list cl))" using objs_clientD(2) [OF coreD(1) [OF c] cl(1)] by (simp add: ids_ok_def)
  obtain w1 where w1: "logout_loop F (client_unref F) c (invite_list cl) ?wb = Inr w1" "good R w1" "frame ?wb w1"
      "closes_all (n_inv ` set (invite_list cl)) ?wb w1" "net_up (sy w) \<and> parties_online ?wb \<and> tidy ?wb \<longrightarrow> tidy w1"
    using logout_loop_ok [OF gb R nd di, of F] by auto
  note c1 = goodD(1) [OF w1(2)]
  obtain cl1 where cl1: "clients w1 c = Some cl1" "c_player cl1 = Some a" "logged_in cl1 = CLIENT_LOGGED_IN" "c_fd cl1 = fd"
    using frame_client [OF w1(3), of c cl] cl by auto
  have wh: "whose w1 = whose w" "who w1 = who w" using w1(3) by (simp_all add: frame_def)
  obtain p where p: "players w1 a = Some p" "p_name p = n" "p_ref_count p = 1 + int (card (logins w a))" "\<not> p_mutex p"
    using n wh(1) by (auto simp: whose_def dest!: fun_cong [of _ _ a])
  let ?p = "p\<lparr>p_ref_count := int (card (logins w a))\<rparr>"
  let ?w2 = "w1\<lparr>players := (players w1)(a \<mapsto> ?p)\<rparr>"
  let ?cl = "cl1\<lparr>c_player := Some a, logged_in := CLIENT_LOGGED_OUT\<rparr>"
  have live: "player_live ?w2 b" if "player_live w1 b" for b
    using that p pos by (auto simp: player_live_def)
  have "player_live w1 a" using objs_playerD [OF coreD(1) [OF c1] cl1(1,2)] .
  then have c3: "core R (set_client c ?cl ?w2)"
    using core_session [OF core_players_live [OF c1 live], where x = "Some a" and y = CLIENT_LOGGED_OUT] cl1(1) live
    by simp
  have exec: "client_logout F (client_unref F) c w = Inr (0, sem_post_w CLIENT_LOGOUT_SEM (set_client c ?cl ?w2))"
  proof -
    have e: "?cl = cl1\<lparr>logged_in := CLIENT_LOGGED_OUT\<rparr>" using cl1(2) by (intro CLIENT.equality) simp_all
    show ?thesis unfolding e using cl s w1(1) cl1 p pos
      by (simp add: client_logout_def sem_wait_w_1 player_unref_w_def with_client_def)
  qed
  let ?w = "sem_post_w CLIENT_LOGOUT_SEM (set_client c ?cl ?w2)"
  have sm: "sems ?w = sems w" using w1(3) s by (auto simp: sem_post_w_def set_client_def frame_def fun_eq_iff)
  have "who ?w = (who w)(c \<mapsto> (Some a, CLIENT_LOGGED_OUT, fd))"
    unfolding wh(2) [symmetric] using cl1 by (auto simp: who_def sem_post_w_def set_client_def fun_eq_iff)
  moreover have "whose ?w = (whose w)(a \<mapsto> (n, int (card (logins w a)), False))"
    unfolding wh(1) [symmetric] using p by (auto simp: whose_def sem_post_w_def set_client_def fun_eq_iff)
  moreover have "core R ?w" using c3 by (simp add: sem_post_w_def)
  moreover have "invs w i = Some v \<and> c \<noteq> i_source v \<and> c \<noteq> i_target v"
    if "invs ?w i = Some v" "i_state v \<noteq> INV_CLOSED_STATE" for i v
  proof -
    have i1: "invs w1 i = Some v" using that(1) by (simp add: sem_post_w_def set_client_def)
    have ni: "i \<notin> n_inv ` set (invite_list cl)" using w1(4) i1 that(2) unfolding closes_all_def by blast
    then have "invs w i = Some v" using w1(4) i1 by (simp add: closes_all_def)
    moreover have "listed w (i_source v) i" "listed w (i_target v) i"
      using coreD(2) [OF c] calculation that(2) by (simp_all add: live_ok_def)
    moreover have "\<not> listed w c i" using ni cl(1) by (simp add: listed_def)
    ultimately show ?thesis by auto
  qed
  moreover have "net_up (sy w) \<and> parties_online w \<and> tidy w \<longrightarrow> tidy ?w"
    using w1(5) tidy_invs [of ?w w1] tidy_invs [of ?wb w]
    by (simp add: parties_online_def online_def sem_post_w_def set_client_def)
  moreover have "dom (invs ?w) \<subseteq> dom (invs w)"
  proof
    fix i
    assume i: "i \<in> dom (invs ?w)"
    show "i \<in> dom (invs w)"
    proof (cases "i \<in> n_inv ` set (invite_list cl)")
      case True
      then show ?thesis using objs_clientD(4) [OF coreD(1) [OF c] cl(1)] by (auto simp: held_def)
    next
      case False
      then show ?thesis using i w1(4) by (auto simp: closes_all_def sem_post_w_def set_client_def)
    qed
  qed
  moreover have "creg ?w = creg w" "preg ?w = preg w" "is_sem_init ?w = is_sem_init w" "env_same (sy w) (sy ?w)"
      "next_addr w \<le> next_addr ?w"
    using w1(3) by (simp_all add: frame_def sem_post_w_def set_client_def)
  ultimately show ?thesis using exec n sm by (intro exI [of _ n] exI [of _ ?w] conjI) (assumption | blast)+
qed

end
