(* ===== verification/Logins.thy ===== *)
theory Logins
  imports Sessions
begin

text \<open>
  Logging in, listing the users, and looking a user up: what the walks over the client registry
  do, and that the handlers for LOGIN and USERS keep the invariant of the server.
\<close>

section \<open>References taken and dropped by a walk over the registry\<close>

text \<open>The players with one more reference for each time they are in the list.\<close>

definition plus_refs :: "addr list \<Rightarrow> PLAYER heap \<Rightarrow> PLAYER heap" where
  "plus_refs as h a = map_option (\<lambda>p. p\<lparr>p_ref_count := p_ref_count p + int (count_list as a)\<rparr>) (h a)"

lemma plus_refs_Nil [simp]: "plus_refs [] h = h"
  by (simp add: plus_refs_def fun_eq_iff option.map_ident)

lemma plus_refs_upd:
  "h a = Some p \<Longrightarrow> plus_refs as (h(a \<mapsto> p\<lparr>p_ref_count := p_ref_count p + 1\<rparr>)) = plus_refs (a # as) h"
  by (auto simp: plus_refs_def fun_eq_iff)

lemma plus_refs_Cons:
  "h a = Some p \<Longrightarrow> (plus_refs (a # as) h)(a \<mapsto> p\<lparr>p_ref_count := p_ref_count p + int (count_list as a)\<rparr>)
     = plus_refs as h"
  by (auto simp: plus_refs_def fun_eq_iff)

lemma player_unref_plus:
  assumes "player_live (w\<lparr>players := h\<rparr>) a"
  shows "player_unref_w a (w\<lparr>players := plus_refs (a # as) h\<rparr>) = Inr (w\<lparr>players := plus_refs as h\<rparr>)"
proof -
  obtain p where p: "h a = Some p" "\<not> p_mutex p" "0 < p_ref_count p"
    using assms by (auto simp: player_live_def split: option.splits)
  have l: "plus_refs (a # as) h a = Some (p\<lparr>p_ref_count := p_ref_count p + int (count_list as a) + 1\<rparr>)"
    using p(1) by (simp add: plus_refs_def)
  have "p_ref_count p + int (count_list as a) \<noteq> 0" using p(3) by linarith
  then show ?thesis using p(2) l plus_refs_Cons [of h a p as, OF p(1)] by (simp add: player_unref_w_def)
qed

lemma name_of_plus_refs [simp]: "h a \<noteq> None \<Longrightarrow> name_of (plus_refs as h) a = name_of h a"
  by (auto simp: name_of_def plus_refs_def)

text \<open>The players of the clients in a list of entries, in order.\<close>

fun players_of :: "world \<Rightarrow> ptr list \<Rightarrow> addr list" where
  "players_of w [] = []"
| "players_of w (None # cs) = players_of w cs"
| "players_of w (Some c # cs) =
     (case Option.bind (clients w c) c_player of None \<Rightarrow> players_of w cs | Some a \<Rightarrow> a # players_of w cs)"

lemma players_of_cong: "clients w' = clients w \<Longrightarrow> players_of w' cs = players_of w cs"
  by (induction w cs rule: players_of.induct) (auto split: option.splits)

lemma set_players_of:
  "set (players_of w cs) = {a. \<exists>c l fd. Some c \<in> set cs \<and> who w c = Some (Some a, l, fd)}"
  by (induction w cs rule: players_of.induct) (auto simp: who_def bind_eq_Some_conv split: option.splits)

text \<open>Every entry is a client, and the players of these are alive.\<close>

definition walkable :: "world \<Rightarrow> ptr list \<Rightarrow> bool" where
  "walkable w cs \<longleftrightarrow> (\<forall>c. Some c \<in> set cs \<longrightarrow> (\<exists>cl. clients w c = Some cl
     \<and> (\<forall>a. c_player cl = Some a \<longrightarrow> player_live w a)))"

lemma walkable_live: "walkable w cs \<Longrightarrow> a \<in> set (players_of w cs) \<Longrightarrow> player_live w a"
  by (auto simp: walkable_def set_players_of who_def)

lemma all_players_loop_ok:
  "walkable w cs \<Longrightarrow> all_players_loop cs w
     = Inr (players_of w cs, w\<lparr>players := plus_refs (players_of w cs) (players w)\<rparr>)"
proof (induction cs w rule: all_players_loop.induct)
  case (3 c cs w)
  obtain cl where cl: "clients w c = Some cl" using "3.prems" by (auto simp: walkable_def)
  have wk: "walkable w cs" using "3.prems" by (simp add: walkable_def)
  show ?case
  proof (cases "c_player cl")
    case None
    with 3 wk cl show ?thesis by (simp add: client_get_player_def)
  next
    case (Some a)
    then have "player_live w a" using "3.prems" cl by (auto simp: walkable_def)
    then obtain p where p: "players w a = Some p" "\<not> p_mutex p" "0 < p_ref_count p" using player_liveD by blast
    let ?w = "w\<lparr>players := (players w)(a \<mapsto> p\<lparr>p_ref_count := p_ref_count p + 1\<rparr>)\<rparr>"
    have r: "player_ref_w a w = Inr ?w" using p(1,2) by (simp add: player_ref_w_def set_player_def)
    have "player_live ?w b" if "player_live w b" for b
      using that p by (auto simp: player_live_def)
    then have "walkable ?w cs" using wk by (auto simp: walkable_def)
    then have "all_players_loop cs ?w = Inr (players_of ?w cs, ?w\<lparr>players := plus_refs (players_of ?w cs) (players ?w)\<rparr>)"
      using "3.IH"(2) [of "Some a" a ?w] cl Some r by (simp add: client_get_player_def fun_upd_def)
    then show ?thesis
      using cl Some r p(1) players_of_cong [of ?w w cs] by (simp add: client_get_player_def plus_refs_upd)
  qed
qed (simp_all add: walkable_def)

lemma login_loop_ok:
  assumes "\<forall>a \<in> set as. player_live (w\<lparr>players := h\<rparr>) a"
  shows "login_loop as (Some n) found (w\<lparr>players := plus_refs as h\<rparr>)
    = Inr (found \<or> (\<exists>a \<in> set as. name_of h a = n), w\<lparr>players := h\<rparr>)"
  using assms
proof (induction as arbitrary: found)
  case Nil
  then show ?case by simp
next
  case (Cons a as)
  then obtain p where p: "h a = Some p" "p_name p = Some (name_of h a)"
    using player_liveD [of "w\<lparr>players := h\<rparr>" a] by auto
  have "plus_refs (a # as) h a = Some (p\<lparr>p_ref_count := p_ref_count p + int (count_list (a # as) a)\<rparr>)"
    using p by (simp add: plus_refs_def)
  then show ?case
    using Cons p player_unref_plus [of h w a as] by (auto simp: player_get_name_def)
qed

section \<open>The walks on the registry\<close>

lemma creg_okD:
  assumes "creg_ok rs w"
  obtains cr where "creg w = Some cr" "\<not> cr_mutex cr" "creg_entries cr = map Some rs"
    "length (cr_clients cr) = MAX_CLIENTS" "length rs \<le> MAX_CLIENTS" "distinct rs"
    "cr_length cr = int (length rs)" "cr_login_queue cr = MAX_CLIENTS - length rs"
  using assms by (auto simp: creg_ok_def creg_entries_def split: option.splits)

lemma core_walkable: "core (set rs) w \<Longrightarrow> walkable w (map Some rs)"
  unfolding walkable_def using core_client objs_playerD [OF coreD(1)] by (metis image_iff list.set_map option.inject)

lemma creg_all_players_ok:
  assumes "core (set rs) w" and "creg_ok rs w"
  defines "as \<equiv> players_of w (map Some rs)"
  shows "creg_all_players w = Inr (Some as, w\<lparr>sy := (sy w)\<lparr>res_n := res_n (sy w) + 2\<rparr>,
      players := plus_refs as (players w)\<rparr>)"
proof -
  obtain cr where cr: "creg w = Some cr" "\<not> cr_mutex cr" "creg_entries cr = map Some rs"
    using creg_okD [OF assms(2)] by blast
  let ?w = "w\<lparr>sy := (sy w)\<lparr>res_n := Suc (res_n (sy w))\<rparr>\<rparr>"
  have "walkable ?w (map Some rs)" using core_walkable [OF assms(1)] by (simp add: walkable_def)
  note l = all_players_loop_ok [OF this]
  have "players_of ?w (map Some rs) = as" unfolding as_def by (rule players_of_cong) simp
  with cr l coreD(4) [OF assms(1)] show ?thesis
    by (simp add: creg_all_players_def the_creg_def request_w_ok must_alloc_ok)
qed

text \<open>A player in use is one that a registered client points to.\<close>

lemma client_login_ok:
  assumes c: "core (set rs) w" and cr: "creg_ok rs w" and sm: "sems w CLIENT_LOGIN_SEM = 1"
    and cl: "clients w c = Some cl" "logged_in cl = CLIENT_LOGGED_OUT"
    and p: "player_live w a" "players w a = Some p"
  shows "\<exists>s. env_same (sy w) s \<and> outp s = outp (sy w) \<and> client_login c a w =
    (if \<exists>b \<in> set (players_of w (map Some rs)). name_of (players w) b = name_of (players w) a
     then Inr (-1, w\<lparr>sy := s\<rparr>)
     else Inr (0, set_client c (cl\<lparr>c_player := Some a, logged_in := CLIENT_LOGGED_IN\<rparr>)
            (set_player a (p\<lparr>p_ref_count := p_ref_count p + 1\<rparr>) (w\<lparr>sy := s\<rparr>))))"
proof -
  let ?as = "players_of w (map Some rs)" and ?s = "(sy w)\<lparr>res_n := res_n (sy w) + 2\<rparr>"
  let ?q = "(sems w)(CLIENT_LOGIN_SEM := 0)"
  let ?w = "w\<lparr>sems := ?q\<rparr>" and ?w1 = "w\<lparr>sems := ?q, sy := ?s\<rparr>"
  have as: "players_of ?w (map Some rs) = ?as" by (rule players_of_cong) simp
  have "core (set rs) ?w" "creg_ok rs ?w" using c cr by (simp_all add: creg_ok_def)
  note all = creg_all_players_ok [OF this, unfolded as]
  have "\<forall>b \<in> set ?as. player_live (?w1\<lparr>players := players w\<rparr>) b"
    using walkable_live [OF core_walkable [OF c]] by (simp add: player_live_def)
  note loop = login_loop_ok [OF this]
  have pn: "p_name p = Some (name_of (players w) a)" "\<not> p_mutex p" using player_liveD [OF p(1)] p(2) by auto
  have pl: "plus_refs ?as (players w) a = Some (p\<lparr>p_ref_count := p_ref_count p + int (count_list ?as a)\<rparr>)"
    using p(2) by (simp add: plus_refs_def)
  have q: "?q(CLIENT_LOGIN_SEM := 1) = sems w" using sm by (auto simp: fun_eq_iff)
  have nl: "\<not> c_lock cl" using objs_clientD(1) [OF coreD(1) [OF c] cl(1)] .
  then have e: "cl\<lparr>c_player := Some a, logged_in := CLIENT_LOGGED_IN, c_lock := False\<rparr>
      = cl\<lparr>c_player := Some a, logged_in := CLIENT_LOGGED_IN\<rparr>" by (intro CLIENT.equality) simp_all
  show ?thesis
    using cl all loop [where found = False] pn pl q nl sm p(2)
    by (intro exI [of _ ?s])
      (simp add: client_login_def sem_wait_w_1 player_get_name_def player_ref_w_def set_player_def set_client_def
        sem_post_w_def e)
qed

section \<open>Replies\<close>

text \<open>A packet was written to a descriptor and nothing else, if the network works.\<close>

definition sent :: "JEUX_PACKET_TYPE \<Rightarrow> int \<Rightarrow> byte list option \<Rightarrow> int \<Rightarrow> sys \<Rightarrow> sys \<Rightarrow> bool" where
  "sent t i data fd s s' \<longleftrightarrow> env_same s s' \<and> (net_up s \<longrightarrow>
     (\<exists>pkt. header_for (pkt_val t) i 0 (case data of None \<Rightarrow> 0 | Some d \<Rightarrow> int (length d)) pkt
        \<and> outp s' = (outp s)(fd := outp s fd @ wire pkt data)))"

lemma sentD: "sent t i data fd s s' \<Longrightarrow> env_same s s'"
  by (simp add: sent_def)

lemma sent_res_n [simp]: "sent t i data fd (s\<lparr>res_n := k\<rparr>) s' = sent t i data fd s s'"
  by (simp add: sent_def env_same_def)

lemma sent_later: "env_same s0 s \<Longrightarrow> outp s = outp s0 \<Longrightarrow> sent t i data fd s s' \<Longrightarrow> sent t i data fd s0 s'"
  using env_same_trans [of s0 s s'] env_same_net_up [of s0 s] by (auto simp: sent_def)

text \<open>The client of \<open>c\<close> is connected on \<open>fd\<close> and not locked.\<close>

lemma core_fd: "core R w \<Longrightarrow> who w c = Some (x, l, fd) \<Longrightarrow> \<exists>cl. clients w c = Some cl \<and> \<not> c_lock cl
    \<and> c_fd cl = fd \<and> c_player cl = x \<and> logged_in cl = l"
  using objs_clientD(1) [OF coreD(1)] by (fastforce simp: who_def)

lemma idle_client:
  assumes "core R w" and "clients w c = Some cl" and "c_player cl = None"
  shows "logged_in cl = CLIENT_LOGGED_OUT"
proof -
  have "client_ok w c cl" using coreD(1) [OF assms(1)] assms(2) by (simp add: objs_ok_def)
  then show ?thesis using assms(3) by (simp add: client_ok_def)
qed

lemma send_nack_sent:
  assumes "core R w" and "who w c = Some (x, l, fd)"
  shows "\<exists>r s. client_send_nack c w = Inr (r, w\<lparr>sy := s\<rparr>) \<and> sent JEUX_NACK_PKT 0 None fd (sy w) s"
proof -
  obtain cl where "clients w c = Some cl" "\<not> c_lock cl" "c_fd cl = fd" using core_fd [OF assms] by blast
  then show ?thesis using send_nack_ok [of w c cl] coreD(4) [OF assms(1)] by (fastforce simp: sent_def)
qed

lemma send_ack_sent:
  assumes "core R w" and "who w c = Some (x, l, fd)"
    and "n = (case data of None \<Rightarrow> 0 | Some d \<Rightarrow> int (length d))"
  shows "\<exists>r s. client_send_ack c data n w = Inr (r, w\<lparr>sy := s\<rparr>) \<and> sent JEUX_ACK_PKT 0 data fd (sy w) s"
proof -
  obtain cl where cl: "clients w c = Some cl" "\<not> c_lock cl" "c_fd cl = fd" using core_fd [OF assms(1,2)] by blast
  have "fits data n" using assms(3) by (simp add: fits_def split: option.splits)
  then show ?thesis using send_ack_ok [of w c cl data n] cl coreD(4) [OF assms(1)] assms(3) by (fastforce simp: sent_def)
qed

lemma reply_nack_sent:
  assumes "core R w" and "who w c = Some (x, l, fd)"
  shows "\<exists>s. reply_nack c w = Inr (-1, w\<lparr>sy := s\<rparr>) \<and> sent JEUX_NACK_PKT 0 None fd (sy w) s"
  using send_nack_sent [OF assms] by (auto simp: reply_nack_def)

lemma reply_ack_sent:
  assumes "core R w" and "who w c = Some (x, l, fd)"
  shows "\<exists>s. reply_ack c w = Inr (0, w\<lparr>sy := s\<rparr>) \<and> sent JEUX_ACK_PKT 0 None fd (sy w) s"
  using send_ack_sent [OF assms, of 0 None] by (auto simp: reply_ack_def)

text \<open>The invariant does not depend on what was written.\<close>

lemma server_ok_sy:
  assumes "server_ok rs w" and "env_same (sy w) s"
  shows "server_ok rs (w\<lparr>sy := s\<rparr>)"
proof (rule server_ok_frame [OF assms(1)])
  show "core (set rs) (w\<lparr>sy := s\<rparr>)" using server_okD(1) [OF assms(1)] core_sy [OF assms(2)] by simp
  show "frame w (w\<lparr>sy := s\<rparr>)" by (rule frame_sy [OF assms(2)])
  show "parties_online (w\<lparr>sy := s\<rparr>)" using server_okD(3) [OF assms(1)] by (simp add: parties_online_def online_def)
qed

lemma preg_upd [simp]:
  "preg_ok (w\<lparr>sy := s\<rparr>) = preg_ok w" "preg_ok (w\<lparr>clients := f\<rparr>) = preg_ok w"
  "preg_ok (w\<lparr>sems := q\<rparr>) = preg_ok w" "preg_ok (w\<lparr>creg := x\<rparr>) = preg_ok w"
  "preg_names (w\<lparr>sy := s\<rparr>) = preg_names w" "preg_names (w\<lparr>clients := f\<rparr>) = preg_names w"
  "preg_names (w\<lparr>sems := q\<rparr>) = preg_names w" "preg_names (w\<lparr>creg := x\<rparr>) = preg_names w"
  by (simp_all add: preg_ok_def preg_names_def cong: option.case_cong)

lemma logins_upd [simp]:
  "logins (w\<lparr>sy := s\<rparr>) = logins w" "logins (w\<lparr>sems := q\<rparr>) = logins w" "logins (w\<lparr>players := ps\<rparr>) = logins w"
  by (simp_all add: logins_def fun_eq_iff)

section \<open>Registering a player\<close>

lemma core_grow:
  assumes c: "core R w" and "clients w' = clients w" and "invs w' = invs w" and "games w' = games w"
    and "next_addr w \<le> next_addr w'" and "no_oom (sy w')" and live: "\<And>a. player_live w a \<Longrightarrow> player_live w' a"
  shows "core R w'"
proof -
  have e: "listed w' = listed w" "held w' = held w" using assms(2,3) by (simp_all add: listed_def held_def fun_eq_iff)
  have "client_ok w' d dl" if "client_ok w d dl" for d dl
    using that live assms(5) by (auto simp: client_ok_def e split: option.splits)
  moreover have "inv_ok w' i v" if "inv_ok w i v" for i v
    using that assms(2,4,5) by (auto simp: inv_ok_def e split: option.splits)
  moreover have "games_owned w'" using coreD(1) [OF c] assms(3,4,5) by (auto simp: objs_ok_def games_owned_def game_of_def)
  ultimately have "objs_ok R w'"
    using coreD(1) [OF c] assms(2,3) by (simp add: objs_ok_def refs_ok_def e)
  moreover have "live_ok R w'" "pos_refs w'"
    using coreD(2,3) [OF c] unfolding live_ok_def pos_refs_def assms(3) e by blast+
  ultimately show ?thesis using assms(6) by (simp add: core_def)
qed

lemma names_ran: "preg_ok w \<Longrightarrow> a \<in> ran (preg_names w) \<Longrightarrow> preg_names w (name_of (players w) a) = Some a"
  using preg_names_Some(2) by (fastforce simp: ran_def)

lemma player_below: "players_ok w \<Longrightarrow> a \<in> ran (preg_names w) \<Longrightarrow> player_live w a"
  using preg_names_Some(1) by (fastforce simp: players_ok_def ran_def)

lemma register_effect:
  assumes po: "players_ok w" and c: "core R w"
  shows "\<exists>a w'. preg_register n w = Inr (Some a, w') \<and> core R w' \<and> env_same (sy w) (sy w') \<and> outp (sy w') = outp (sy w)
    \<and> clients w' = clients w \<and> invs w' = invs w \<and> sems w' = sems w \<and> creg w' = creg w
    \<and> is_sem_init w' = is_sem_init w \<and> preg_ok w' \<and> preg_names w' = (preg_names w)(n \<mapsto> a) \<and> (\<forall>b. preg_names w n = Some b \<longrightarrow> a = b)
    \<and> (preg_names w n = None \<longrightarrow> a \<notin> ran (preg_names w))
    \<and> whose w' = (whose w)(a \<mapsto> (Some n, 2 + int (card (logins w a)), False)) \<and> player_live w' a"
proof (cases "preg_names w n")
  case None
  let ?a = "next_addr w"
  have ok: "preg_ok w" using po by (simp add: players_ok_def)
  obtain pr where pr: "preg w = Some pr" using preg_ok_Some [OF ok] by blast
  note x = preg_register_new [OF ok None coreD(4) [OF c] pr]
  let ?w = "w\<lparr>sy := (sy w)\<lparr>res_n := res_n (sy w) + 4\<rparr>,
      players := (players w)(?a \<mapsto> (new_player n)\<lparr>p_ref_count := 2\<rparr>), next_addr := Suc ?a,
      preg := Some (pr\<lparr>pr_list := pr_list pr @ [?a], pr_length := pr_length pr + 1\<rparr>)\<rparr>"
  have below: "a < ?a" if "a \<in> ran (preg_names w)" for a using player_below [OF po that] by (simp add: player_live_def)
  then have new: "?a \<notin> ran (preg_names w)" by blast
  have "logins w ?a = {}" using new po unfolding logins_def players_ok_def by blast
  then have wh: "whose ?w = (whose w)(?a \<mapsto> (Some n, 2 + int (card (logins w ?a)), False))"
    by (auto simp: whose_def new_player_def)
  have live: "player_live ?w b" if "player_live w b" for b using that by (auto simp: player_live_def less_SucI)
  have pl: "player_live ?w ?a" by (simp add: player_live_def new_player_def)
  have "core R ?w" using c coreD(4) [OF c] live by (elim core_grow) simp_all
  then show ?thesis
    using x preg_ok_new [OF ok None pr] None new wh pl by (intro exI [of _ ?a] exI [of _ ?w]) simp
next
  case (Some a)
  have ok: "preg_ok w" using po by (simp add: players_ok_def)
  have a: "a \<in> ran (preg_names w)" using Some by (auto simp: ran_def)
  note nm = preg_names_Some [OF ok Some]
  obtain m where "whose w a = Some (m, 1 + int (card (logins w a)), False)" using po a by (auto simp: players_ok_def)
  then obtain p where p: "players w a = Some p" "p_ref_count p = 1 + int (card (logins w a))" "\<not> p_mutex p"
      "p_name p = Some n" using player_liveD [OF nm(1)] nm(2) by (auto simp: whose_def)
  let ?w = "set_player a (p\<lparr>p_ref_count := p_ref_count p + 1\<rparr>) w"
  have live: "player_live ?w b" if "player_live w b" for b
    using that p by (auto simp: player_live_def set_player_def)
  have "core R ?w" using core_players_live [OF c, of "players ?w"] live by (simp add: set_player_def)
  moreover have "whose ?w = (whose w)(a \<mapsto> (Some n, 2 + int (card (logins w a)), False))"
    using p by (auto simp: whose_def set_player_def)
  ultimately show ?thesis
    using preg_register_found [OF ok Some p(1)] preg_ok_ref [OF ok p(1), of "p_ref_count p + 1"] p Some live [OF nm(1)]
    by (intro exI [of _ a] exI [of _ ?w]) (auto simp: set_player_def)
qed

section \<open>Logging in\<close>

lemma login_refused:
  assumes c: "core R w" and on: "who w c = Some (x, l, fd)"
    and no: "x \<noteq> None \<or> payload = None \<or> payload = Some []"
  shows "\<exists>s. process_login payload hdr c w = Inr (-1, w\<lparr>sy := s\<rparr>) \<and> sent JEUX_NACK_PKT 0 None fd (sy w) s"
proof -
  obtain cl where cl: "clients w c = Some cl" "c_player cl = x" using core_fd [OF c on] by blast
  let ?w = "w\<lparr>sy := (sy w)\<lparr>res_n := Suc (res_n (sy w))\<rparr>\<rparr>"
  have "core R ?w" "who ?w c = Some (x, l, fd)" using c on by (simp_all add: core_sy)
  from reply_nack_sent [OF this] obtain s1 where "reply_nack c ?w = Inr (-1, w\<lparr>sy := s1\<rparr>)"
      "sent JEUX_NACK_PKT 0 None fd (sy w) s1" by force
  moreover obtain s where "reply_nack c w = Inr (-1, w\<lparr>sy := s\<rparr>)" "sent JEUX_NACK_PKT 0 None fd (sy w) s"
    using reply_nack_sent [OF c on] by blast
  ultimately show ?thesis
    using cl no coreD(4) [OF c] by (auto simp: process_login_def client_get_player_def must_alloc_ok)
qed

text \<open>Whether the name is in use, seen from the players that are walked over.\<close>

lemma in_use_iff:
  assumes po: "players_ok w"
    and w1: "clients w1 = clients w" "preg_ok w1" "preg_names w1 = (preg_names w)(n \<mapsto> a)"
      "\<forall>b. preg_names w n = Some b \<longrightarrow> a = b" "preg_names w n = None \<longrightarrow> a \<notin> ran (preg_names w)"
  shows "(\<exists>b \<in> set (players_of w1 (map Some rs)). name_of (players w1) b = name_of (players w1) a) \<longleftrightarrow> bound w a \<inter> set rs \<noteq> {}"
proof -
  have who: "who w1 = who w" using w1(1) by (simp add: who_def fun_eq_iff)
  have a: "name_of (players w1) a = n" using preg_names_Some(2) [OF w1(2)] w1(3) by simp
  have eq: "b = a" if "who w c = Some (Some b, l, fd)" "name_of (players w1) b = n" for b c l fd
  proof -
    have "b \<in> ran (preg_names w)" using po that(1) unfolding players_ok_def by blast
    then obtain m where m: "preg_names w m = Some b" by (auto simp: ran_def)
    then have "preg_names w1 m = Some b" using w1(3,4) by auto
    from preg_names_Some(2) [OF w1(2) this] that(2) have "m = n" by simp
    with m w1(4) show ?thesis by simp
  qed
  have used: "(\<exists>b \<in> set (players_of w1 (map Some rs)). name_of (players w1) b = n)
      \<longleftrightarrow> (\<exists>c l fd. c \<in> set rs \<and> who w c = Some (Some a, l, fd))"
    using eq a by (auto simp: set_players_of who)
  have "(\<exists>c l fd. c \<in> set rs \<and> who w c = Some (Some a, l, fd)) \<longleftrightarrow> bound w a \<inter> set rs \<noteq> {}"
    by (auto simp: bound_def)
  with used a show ?thesis by simp
qed

text \<open>The parts of the invariant after the player was bound to the name and the client perhaps logged in.\<close>

lemma players_ok_bound:
  assumes po: "players_ok w" and ok: "preg_ok w'" "preg_names w' = (preg_names w)(n \<mapsto> a)"
    and new: "\<forall>b. preg_names w n = Some b \<longrightarrow> a = b"
    and who: "who w' = who w \<or> (\<exists>fd. who w' = (who w)(c \<mapsto> (Some a, CLIENT_LOGGED_IN, fd)) \<and> (\<exists>l. who w c = Some (None, l, fd)))"
    and whose: "whose w' = (whose w)(a \<mapsto> (Some n, 1 + int (card (logins w' a)), False))"
  shows "players_ok w'"
proof -
  have lg: "logins w' b = logins w b" if "b \<noteq> a" for b using who that by (auto simp: logins_def split: if_splits)
  have rn: "ran (preg_names w') = insert a (ran (preg_names w))"
    using ok(2) new by (auto simp: ran_def split: if_splits)
  have "\<exists>m. whose w' b = Some (m, 1 + int (card (logins w' b)), False)" if "b \<in> ran (preg_names w')" for b
    using that po lg [of b] whose unfolding rn players_ok_def by (cases "b = a") auto
  moreover have "b \<in> ran (preg_names w')" if "who w' d = Some (Some b, l, fd)" for d b l fd
  proof (cases "who w' d = who w d")
    case True
    then have "who w d = Some (Some b, l, fd)" using that by simp
    then show ?thesis using po unfolding rn players_ok_def by blast
  next
    case False
    then obtain fd' where "who w' = (who w)(c \<mapsto> (Some a, CLIENT_LOGGED_IN, fd'))" using who by metis
    then have "b = a" using that False by (simp split: if_splits)
    then show ?thesis by (simp add: rn)
  qed
  ultimately show ?thesis using ok(1) unfolding players_ok_def by blast
qed

lemma login_result:
  assumes ok: "server_ok rs w" and c: "c \<in> set rs" and on: "who w c = Some (None, l, fd)"
    and new: "\<forall>b. preg_names w n = Some b \<longrightarrow> a = b"
    and w': "core (set rs) w'" "preg_ok w'" "preg_names w' = (preg_names w)(n \<mapsto> a)" "invs w' = invs w"
      "sems w' = sems w" "creg w' = creg w" "is_sem_init w' = is_sem_init w"
    and who: "who w' = (if bound w a \<inter> set rs = {} then (who w)(c \<mapsto> (Some a, CLIENT_LOGGED_IN, fd)) else who w)"
    and whose: "whose w' = (whose w)(a \<mapsto> (Some n, 1 + int (card (logins w' a)), False))"
  shows "server_ok rs w'"
proof -
  have po: "players_ok w'" using players_ok_bound [OF server_okD(2) [OF ok] w'(2,3) new _ whose, of c] who on by auto
  have "online w' d" if "online w d" for d using that who on by (auto simp: online_def)
  then have "parties_online w'" using server_okD(3) [OF ok] unfolding parties_online_def w'(4) by blast
  moreover have "creg_ok rs w'" using server_okD(4) [OF ok] w'(6) by (simp add: creg_ok_def)
  moreover have "logins_ok rs w'"
  proof -
    note lo = logins_okD [OF server_okD(5) [OF ok]]
    have "d = e" if "d \<in> bound w' b" "e \<in> bound w' b" "d \<in> set rs" "e \<in> set rs" for b d e
    proof (cases "bound w a \<inter> set rs = {} \<and> b = a")
      case True
      then have "bound w' b \<subseteq> insert c (bound w a)" using who by (auto simp: bound_def split: if_splits)
      then show ?thesis using that True by blast
    next
      case False
      then have "bound w' b = bound w b" using who on by (auto simp: bound_def split: if_splits)
      then show ?thesis using that lo(2) by simp
    qed
    moreover have "\<forall>d b fd. who w' d = Some (Some b, CLIENT_LOGGED_IN, fd) \<longrightarrow> d \<in> set rs"
      using lo(1) who c by (auto split: if_splits)
    ultimately show ?thesis by (simp add: logins_ok_def)
  qed
  ultimately show ?thesis using w'(1,5,7) po ok by (simp add: server_ok_def all_sems_def)
qed

lemma player_unref_eq:
  "players w a = Some p \<Longrightarrow> \<not> p_mutex p \<Longrightarrow> p_ref_count p \<noteq> 1 \<Longrightarrow>
     player_unref_w a w = Inr (set_player a (p\<lparr>p_ref_count := p_ref_count p - 1\<rparr>) w)"
  by (simp add: player_unref_w_def set_player_def)

lemma player_unref_again:
  "players w a = Some p \<Longrightarrow> \<not> p_mutex p \<Longrightarrow> 0 < p_ref_count p \<Longrightarrow>
     player_unref_w a (set_client c cl (set_player a (p\<lparr>p_ref_count := p_ref_count p + 1\<rparr>) w)) = Inr (set_client c cl w)"
  by (cases w) (simp add: player_unref_w_def set_player_def set_client_def fun_upd_idem)

lemma core_set_refs:
  assumes "core R w" and "players w a = Some p" and "\<not> p_mutex p" and "0 < k"
  shows "core R (set_player a (p\<lparr>p_ref_count := k\<rparr>) w)"
  unfolding set_player_def
proof (rule core_players_live [OF assms(1)])
  show "player_live (w\<lparr>players := (players w)(a \<mapsto> p\<lparr>p_ref_count := k\<rparr>)\<rparr>) b" if "player_live w b" for b
    using that assms(2-4) by (auto simp: player_live_def)
qed

text \<open>The part of the handler after its checks.\<close>

definition login_as :: "string \<Rightarrow> addr \<Rightarrow> int act" where
  "login_as n c w =
     and_then (preg_register n w) (\<lambda>(new_player, w).
     case new_player of
       None \<Rightarrow> reply_nack c w
     | Some p \<Rightarrow>
         and_then (client_login c p w) (\<lambda>(r, w).
         and_then (if r = -1 then client_send_nack c w else Inr (0, w)) (\<lambda>(_, w).
         and_then (player_unref_w p w) (\<lambda>w.
         and_then (client_send_ack c None 0 w) (\<lambda>(_, w).
         Inr (1, w))))))"

text \<open>
  The client is now logged in as the player of that name, or that player was in use. In both cases
  the last packet sent is an ACK.
\<close>

definition login_outcome :: "addr list \<Rightarrow> addr \<Rightarrow> string \<Rightarrow> int \<Rightarrow> world \<Rightarrow> addr \<Rightarrow> world \<Rightarrow> bool" where
  "login_outcome rs c n fd w a w' \<longleftrightarrow> server_ok rs w' \<and> invs w' = invs w
     \<and> preg_names w' = (preg_names w)(n \<mapsto> a) \<and> (\<forall>b. preg_names w n = Some b \<longrightarrow> a = b)
     \<and> (if bound w a \<inter> set rs = {}
        then who w' = (who w)(c \<mapsto> (Some a, CLIENT_LOGGED_IN, fd)) \<and> sent JEUX_ACK_PKT 0 None fd (sy w) (sy w')
        else who w' = who w \<and> (\<exists>s. sent JEUX_NACK_PKT 0 None fd (sy w) s \<and> sent JEUX_ACK_PKT 0 None fd s (sy w')))"

lemma login_as_ok:
  assumes ok: "server_ok rs w" and c: "c \<in> set rs" and on: "who w c = Some (None, l, fd)"
  shows "\<exists>a w'. login_as n c w = Inr (1, w') \<and> login_outcome rs c n fd w a w'"
proof -
  obtain a w1 where r: "preg_register n w = Inr (Some a, w1)" "core (set rs) w1" "env_same (sy w) (sy w1)"
      "outp (sy w1) = outp (sy w)" "clients w1 = clients w" "invs w1 = invs w" "sems w1 = sems w" "creg w1 = creg w"
      "is_sem_init w1 = is_sem_init w" "preg_ok w1" "preg_names w1 = (preg_names w)(n \<mapsto> a)" "\<forall>b. preg_names w n = Some b \<longrightarrow> a = b"
      "preg_names w n = None \<longrightarrow> a \<notin> ran (preg_names w)"
      "whose w1 = (whose w)(a \<mapsto> (Some n, 2 + int (card (logins w a)), False))" "player_live w1 a"
    using register_effect [OF server_okD(2,1) [OF ok], of n] by (elim exE conjE) (rule that)
  have who1: "who w1 = who w" using r(5) by (simp add: who_def fun_eq_iff)
  obtain p where p: "players w1 a = Some p" "p_ref_count p = 2 + int (card (logins w a))" "\<not> p_mutex p"
    using fun_cong [OF r(14), of a] by (auto simp: whose_def)
  have "who w1 c = Some (None, l, fd)" using who1 on by simp
  from core_fd [OF r(2) this] obtain cl where cl: "clients w1 c = Some cl" "\<not> c_lock cl" "c_fd cl = fd"
      "c_player cl = None" by blast
  note out = idle_client [OF r(2) cl(1,4)]
  have sm: "sems w1 CLIENT_LOGIN_SEM = 1" using all_semsD(2) server_okD(6) [OF ok c] r(7) by simp
  have cr: "creg_ok rs w1" using server_okD(4) [OF ok] r(8) by (simp add: creg_ok_def)
  note use = in_use_iff [OF server_okD(2) [OF ok] r(5,10,11,12,13)]
  obtain s where s: "env_same (sy w1) s" "outp s = outp (sy w1)"
      "client_login c a w1 = (if bound w a \<inter> set rs \<noteq> {} then Inr (-1, w1\<lparr>sy := s\<rparr>)
       else Inr (0, set_client c (cl\<lparr>c_player := Some a, logged_in := CLIENT_LOGGED_IN\<rparr>)
            (set_player a (p\<lparr>p_ref_count := p_ref_count p + 1\<rparr>) (w1\<lparr>sy := s\<rparr>))))"
    using client_login_ok [OF r(2) cr sm cl(1) out r(15) p(1)] unfolding use by blast
  show ?thesis
  proof (cases "bound w a \<inter> set rs = {}")
    case True
    note un0 = unbound_logins [OF server_okD(5) [OF ok] True]
    let ?cl = "cl\<lparr>c_player := Some a, logged_in := CLIENT_LOGGED_IN\<rparr>"
    let ?w = "set_client c ?cl (w1\<lparr>sy := s\<rparr>)"
    have un: "player_unref_w a (set_client c ?cl (set_player a (p\<lparr>p_ref_count := p_ref_count p + 1\<rparr>) (w1\<lparr>sy := s\<rparr>))) = Inr ?w"
      using p by (intro player_unref_again) simp_all
    have c3: "core (set rs) ?w"
      using core_session [where R = "set rs" and w = "w1\<lparr>sy := s\<rparr>" and c = c and cl = cl and x = "Some a" and y = CLIENT_LOGGED_IN] r(2,15) core_sy [OF s(1)] cl(1) by simp
    have who3: "who ?w = (who w)(c \<mapsto> (Some a, CLIENT_LOGGED_IN, fd))"
      using who1 cl(3) by (auto simp: who_def set_client_def fun_eq_iff)
    then obtain k s' where ack: "client_send_ack c None 0 ?w = Inr (k, ?w\<lparr>sy := s'\<rparr>)" "sent JEUX_ACK_PKT 0 None fd s s'"
      using send_ack_sent [OF c3, of c "Some a" CLIENT_LOGGED_IN fd 0 None] by (auto simp: set_client_def)
    let ?w' = "?w\<lparr>sy := s'\<rparr>"
    have "core (set rs) ?w'" using core_sy [of ?w s'] c3 sentD [OF ack(2)] by (simp add: set_client_def)
    moreover have names: "preg_ok ?w'" "preg_names ?w' = (preg_names w)(n \<mapsto> a)"
      using r(10,11) by (simp_all add: set_client_def)
    moreover have "whose ?w' = (whose w)(a \<mapsto> (Some n, 1 + int (card (logins ?w' a)), False))"
    proof -
      have "logins ?w' a = {c}" using who3 un0 by (auto simp: logins_def split: if_splits)
      moreover have "whose ?w' = whose w1" by (simp add: set_client_def)
      ultimately show ?thesis using r(14) un0 by simp
    qed
    moreover have who': "who ?w' = (if bound w a \<inter> set rs = {} then (who w)(c \<mapsto> (Some a, CLIENT_LOGGED_IN, fd)) else who w)"
      using who3 True by simp
    moreover have inv': "invs ?w' = invs w" "sems ?w' = sems w" "creg ?w' = creg w" "is_sem_init ?w' = is_sem_init w"
      using r(6,7,8,9) by (simp_all add: set_client_def)
    ultimately have ok': "server_ok rs ?w'" using login_result [OF ok c on r(12), of ?w'] by blast
    have "sent JEUX_ACK_PKT 0 None fd (sy w) s'"
      using sent_later [OF env_same_trans [OF r(3) s(1)] _ ack(2)] s(2) r(4) by simp
    then have "login_outcome rs c n fd w a ?w'"
      using ok' names(2) r(12) inv'(1) who' True unfolding login_outcome_def by simp
    moreover have "login_as n c w = Inr (1, ?w')"
      using r(1) s(3) True un ack(1) by (simp add: login_as_def)
    ultimately show ?thesis by blast
  next
    case False
    have cs: "core (set rs) (w1\<lparr>sy := s\<rparr>)" "who (w1\<lparr>sy := s\<rparr>) c = Some (None, l, fd)"
      using r(2) core_sy [OF s(1)] who1 on by simp_all
    obtain k2 s2 where nack: "client_send_nack c (w1\<lparr>sy := s\<rparr>) = Inr (k2, w1\<lparr>sy := s2\<rparr>)" "sent JEUX_NACK_PKT 0 None fd s s2"
      using send_nack_sent [OF cs] by auto
    let ?p = "p\<lparr>p_ref_count := 1 + int (card (logins w a))\<rparr>"
    let ?w = "set_player a ?p (w1\<lparr>sy := s2\<rparr>)"
    have un: "player_unref_w a (w1\<lparr>sy := s2\<rparr>) = Inr ?w"
      using player_unref_eq [of "w1\<lparr>sy := s2\<rparr>" a p] p by simp
    have e2: "env_same (sy w1) s2" using env_same_trans [OF s(1) sentD [OF nack(2)]] .
    have c3: "core (set rs) ?w"
      using core_set_refs [of "set rs" "w1\<lparr>sy := s2\<rparr>" a p "1 + int (card (logins w a))"] p core_sy [OF e2] r(2) by simp
    have who3: "who ?w = who w" using who1 by (simp add: set_player_def)
    obtain k s' where ack: "client_send_ack c None 0 ?w = Inr (k, ?w\<lparr>sy := s'\<rparr>)" "sent JEUX_ACK_PKT 0 None fd s2 s'"
      using send_ack_sent [OF c3, of c None l fd 0 None] who3 on by (auto simp: set_player_def)
    let ?w' = "?w\<lparr>sy := s'\<rparr>"
    have "core (set rs) ?w'" using core_sy [of ?w s'] c3 sentD [OF ack(2)] by (simp add: set_player_def)
    moreover have names: "preg_ok ?w'" "preg_names ?w' = (preg_names w)(n \<mapsto> a)"
      using preg_ok_ref [of "w1\<lparr>sy := s2\<rparr>" a p "1 + int (card (logins w a))"] p(1,3) r(10,11) by simp_all
    moreover have "whose ?w' = (whose w)(a \<mapsto> (Some n, 1 + int (card (logins ?w' a)), False))"
    proof -
      have "logins ?w' a = logins w a" using who3 by (simp add: logins_def)
      moreover have "whose ?w' = (whose w1)(a \<mapsto> (Some n, 1 + int (card (logins w a)), False))"
        using p fun_cong [OF r(14), of a] by (auto simp: whose_def set_player_def)
      ultimately show ?thesis using r(14) by simp
    qed
    moreover have who': "who ?w' = (if bound w a \<inter> set rs = {} then (who w)(c \<mapsto> (Some a, CLIENT_LOGGED_IN, fd)) else who w)"
      using who3 False by simp
    moreover have inv': "invs ?w' = invs w" "sems ?w' = sems w" "creg ?w' = creg w" "is_sem_init ?w' = is_sem_init w"
      using r(6,7,8,9) by (simp_all add: set_player_def)
    ultimately have ok': "server_ok rs ?w'" using login_result [OF ok c on r(12), of ?w'] by blast
    have "sent JEUX_NACK_PKT 0 None fd (sy w) s2"
      using sent_later [OF env_same_trans [OF r(3) s(1)] _ nack(2)] s(2) r(4) by simp
    then have "login_outcome rs c n fd w a ?w'"
      using ok' names(2) r(12) inv'(1) who' False ack(2) unfolding login_outcome_def by auto
    moreover have "login_as n c w = Inr (1, ?w')"
      using r(1) s(3) False un ack(1) nack(1) by (simp add: login_as_def)
    ultimately show ?thesis by blast
  qed
qed

lemma login_accepted:
  assumes ok: "server_ok rs w" and c: "c \<in> set rs" and on: "who w c = Some (None, l, fd)" and "str \<noteq> []"
  shows "\<exists>a w'. process_login (Some str) hdr c w = Inr (1, w')
    \<and> login_outcome rs c (take (payload_size hdr) str) fd w a w'"
proof -
  let ?w = "w\<lparr>sy := (sy w)\<lparr>res_n := Suc (res_n (sy w))\<rparr>\<rparr>"
  have "server_ok rs ?w" "who ?w c = Some (None, l, fd)" using server_ok_sy [OF ok] on by simp_all
  from login_as_ok [OF this(1) c this(2)] obtain a w'
    where w': "login_as (take (payload_size hdr) str) c ?w = Inr (1, w')"
      "login_outcome rs c (take (payload_size hdr) str) fd ?w a w'" by blast
  have "login_outcome rs c (take (payload_size hdr) str) fd w a w'"
    using w'(2) by (simp add: login_outcome_def cong: if_cong)
  moreover have "process_login (Some str) hdr c w = Inr (1, w')"
    using w'(1) assms(4) core_fd [OF server_okD(1) [OF ok] on] coreD(4) [OF server_okD(1) [OF ok]]
    by (auto simp: process_login_def login_as_def client_get_player_def must_alloc_ok)
  ultimately show ?thesis by blast
qed

section \<open>Listing the users\<close>

definition rating_of :: "PLAYER heap \<Rightarrow> addr \<Rightarrow> int" where
  "rating_of h a = rating (the (h a))"

definition users_text :: "PLAYER heap \<Rightarrow> addr list \<Rightarrow> string" where
  "users_text h as = concat (map (\<lambda>a. user_line (name_of h a) (rating_of h a)) as)"

lemma length_dec_nat: "length (dec_nat n) \<le> Suc k \<longleftrightarrow> n < 10 ^ Suc k"
proof (induction k arbitrary: n)
  case 0
  show ?case by (subst dec_nat.simps) (simp add: dec_nat.simps [of "n div 10"])
next
  case (Suc k)
  show ?case
  proof (cases "n < 10")
    case True
    have "(10 :: nat) \<le> 10 ^ Suc (Suc k)" by simp
    with True have "n < 10 ^ Suc (Suc k)" by linarith
    with True show ?thesis by (subst dec_nat.simps) simp
  next
    case False
    then have "length (dec_nat n) \<le> Suc (Suc k) \<longleftrightarrow> n div 10 < 10 ^ Suc k"
      using Suc.IH [of "n div 10"] by (subst dec_nat.simps) simp
    then show ?thesis by (simp add: div_less_iff_less_mult mult.commute)
  qed
qed

lemma length_dec_int: "length (dec_int r) \<le> 4 \<longleftrightarrow> -999 \<le> r \<and> r \<le> 9999"
  using length_dec_nat [of "nat (- r)" 2] length_dec_nat [of "nat r" 3] by (auto simp: dec_int_def)

lemma users_loop_ok:
  assumes "\<forall>a \<in> set as. player_live (w\<lparr>players := h\<rparr>) a \<and> -999 \<le> rating_of h a \<and> rating_of h a \<le> 9999"
  shows "users_loop as (w\<lparr>players := plus_refs as h\<rparr>) = Inr (users_text h as, w\<lparr>players := h\<rparr>)"
  using assms
proof (induction as)
  case Nil
  then show ?case by (simp add: users_text_def)
next
  case (Cons a as)
  then obtain p where p: "h a = Some p" "p_name p = Some (name_of h a)" "rating p = rating_of h a"
    using player_liveD [of "w\<lparr>players := h\<rparr>" a] by (auto simp: rating_of_def)
  have "plus_refs (a # as) h a = Some (p\<lparr>p_ref_count := p_ref_count p + int (count_list (a # as) a)\<rparr>)"
    using p by (simp add: plus_refs_def)
  moreover have "length (dec_int (rating_of h a)) \<le> 4" using Cons.prems length_dec_int by simp
  ultimately show ?case
    using Cons p player_unref_plus [of h w a as]
    by (simp add: player_get_name_def player_get_rating_def user_line_def users_text_def)
qed

lemma users_loop_overflow:
  assumes "player_live (w\<lparr>players := h\<rparr>) a" and "\<not> (-999 \<le> rating_of h a \<and> rating_of h a \<le> 9999)"
    and "\<forall>b \<in> set pre. player_live (w\<lparr>players := h\<rparr>) b \<and> -999 \<le> rating_of h b \<and> rating_of h b \<le> 9999"
  shows "users_loop (pre @ a # as) (w\<lparr>players := plus_refs (pre @ a # as) h\<rparr>) = Inl BufferOverflow"
  using assms(3)
proof (induction pre)
  case Nil
  obtain p where p: "h a = Some p" "p_name p = Some (name_of h a)" "rating p = rating_of h a"
    using player_liveD [OF assms(1)] by (auto simp: rating_of_def)
  have "plus_refs (a # as) h a = Some (p\<lparr>p_ref_count := p_ref_count p + int (count_list (a # as) a)\<rparr>)"
    using p by (simp add: plus_refs_def)
  moreover have "\<not> length (dec_int (rating_of h a)) \<le> 4" using assms(2) length_dec_int by simp
  ultimately show ?case using p by (simp add: player_get_name_def player_get_rating_def user_line_def)
next
  case (Cons b pre)
  then obtain p where p: "h b = Some p" "p_name p = Some (name_of h b)" "rating p = rating_of h b"
    using player_liveD [of "w\<lparr>players := h\<rparr>" b] by (auto simp: rating_of_def)
  have "plus_refs (b # pre @ a # as) h b = Some (p\<lparr>p_ref_count := p_ref_count p + int (count_list (b # pre @ a # as) b)\<rparr>)"
    using p by (simp add: plus_refs_def)
  moreover have "length (dec_int (rating_of h b)) \<le> 4" using Cons.prems length_dec_int by simp
  ultimately show ?case
    using Cons p player_unref_plus [of h w b "pre @ a # as"]
    by (simp add: player_get_name_def player_get_rating_def user_line_def)
qed

lemma creg_users:
  assumes c: "core (set rs) w" and cr: "creg_ok rs w"
  defines "as \<equiv> players_of w (map Some rs)"
  shows "process_users None c w = and_then (users_loop as (w\<lparr>sy := (sy w)\<lparr>res_n := res_n (sy w) + 3\<rparr>,
       players := plus_refs as (players w)\<rparr>))
     (\<lambda>(text, w). and_then (client_send_ack c (Some (bytes_of text)) (int (length text)) w) (\<lambda>(_, w). Inr (0, w)))"
    and "\<forall>a \<in> set as. player_live (w\<lparr>sy := (sy w)\<lparr>res_n := res_n (sy w) + 3\<rparr>, players := players w\<rparr>) a"
proof -
  let ?w = "w\<lparr>sy := (sy w)\<lparr>res_n := Suc (res_n (sy w))\<rparr>\<rparr>"
  have "core (set rs) ?w" "creg_ok rs ?w" using c cr by (simp_all add: core_sy creg_ok_def)
  note all = creg_all_players_ok [OF this]
  have as: "players_of ?w (map Some rs) = as" unfolding as_def by (rule players_of_cong) simp
  show "\<forall>a \<in> set as. player_live (w\<lparr>sy := (sy w)\<lparr>res_n := res_n (sy w) + 3\<rparr>, players := players w\<rparr>) a"
    using walkable_live [OF core_walkable [OF c]] by (simp add: as_def player_live_def)
  show "process_users None c w = and_then (users_loop as (w\<lparr>sy := (sy w)\<lparr>res_n := res_n (sy w) + 3\<rparr>,
       players := plus_refs as (players w)\<rparr>))
     (\<lambda>(text, w). and_then (client_send_ack c (Some (bytes_of text)) (int (length text)) w) (\<lambda>(_, w). Inr (0, w)))"
    using all as coreD(4) [OF c] by (simp add: process_users_def must_alloc_ok numeral_3_eq_3)
qed

lemma users_listed:
  assumes c: "core (set rs) w" and cr: "creg_ok rs w" and on: "who w c = Some (x, l, fd)"
    and "\<forall>a \<in> set (players_of w (map Some rs)). -999 \<le> rating_of (players w) a \<and> rating_of (players w) a \<le> 9999"
  defines "text \<equiv> users_text (players w) (players_of w (map Some rs))"
  shows "\<exists>s. process_users None c w = Inr (0, w\<lparr>sy := s\<rparr>) \<and> sent JEUX_ACK_PKT 0 (Some (bytes_of text)) fd (sy w) s"
proof -
  note u = creg_users [OF c cr]
  let ?w = "w\<lparr>sy := (sy w)\<lparr>res_n := res_n (sy w) + 3\<rparr>\<rparr>"
  have "core (set rs) ?w" "who ?w c = Some (x, l, fd)" using c on by (simp_all add: core_sy)
  from send_ack_sent [OF this, of "int (length text)" "Some (bytes_of text)"] obtain r s
    where "client_send_ack c (Some (bytes_of text)) (int (length text)) ?w = Inr (r, w\<lparr>sy := s\<rparr>)"
      "sent JEUX_ACK_PKT 0 (Some (bytes_of text)) fd (sy w) s" by (force simp: bytes_of_def)
  then show ?thesis
    using u users_loop_ok [where h = "players w" and w = ?w] assms(4)
    by (intro exI [of _ s]) (simp add: text_def)
qed

lemma users_overflow:
  assumes c: "core (set rs) w" and cr: "creg_ok rs w" and a: "a \<in> set (players_of w (map Some rs))"
    and r: "\<not> (-999 \<le> rating_of (players w) a \<and> rating_of (players w) a \<le> 9999)"
  shows "process_users None c w = Inl BufferOverflow"
proof -
  note u = creg_users [OF c cr]
  let ?as = "players_of w (map Some rs)"
  have "\<exists>x \<in> set ?as. \<not> (-999 \<le> rating_of (players w) x \<and> rating_of (players w) x \<le> 9999)" using a r by blast
  from split_list_first_prop [OF this] obtain pre b post where s: "?as = pre @ b # post"
      "\<not> (-999 \<le> rating_of (players w) b \<and> rating_of (players w) b \<le> 9999)"
      "\<forall>y \<in> set pre. -999 \<le> rating_of (players w) y \<and> rating_of (players w) y \<le> 9999" by blast
  have "users_loop ?as (w\<lparr>sy := (sy w)\<lparr>res_n := res_n (sy w) + 3\<rparr>, players := plus_refs ?as (players w)\<rparr>)
      = Inl BufferOverflow"
    unfolding s(1) by (rule users_loop_overflow) (use u(2) s in auto)
  then show ?thesis using u(1) by simp
qed

end
