(* ===== verification/Service.thy ===== *)
theory Service
  imports Logins
begin

text \<open>
  Connections and requests: looking a client up, inviting, connecting, leaving, and the dispatch of
  a packet; each of them keeps the invariant of the server.
\<close>

section \<open>Looking a client up\<close>

definition called :: "world \<Rightarrow> addr \<Rightarrow> string \<Rightarrow> bool" where
  "called w c n \<longleftrightarrow> (\<exists>a l fd. who w c = Some (Some a, l, fd) \<and> name_of (players w) a = n)"

lemma lookup_loop_ok:
  assumes "walkable w cs"
  shows "\<exists>r. lookup_loop cs n w = Inr r \<and>
    (case r of None \<Rightarrow> \<forall>c. Some c \<in> set cs \<longrightarrow> \<not> called w c n | Some c \<Rightarrow> Some c \<in> set cs \<and> called w c n)"
  using assms
proof (induction cs n w rule: lookup_loop.induct)
  case (3 c cs n w)
  obtain cl where cl: "clients w c = Some cl" "\<And>a. c_player cl = Some a \<Longrightarrow> player_live w a"
    using "3.prems" by (auto simp: walkable_def)
  have wk: "walkable w cs" using "3.prems" by (simp add: walkable_def)
  have call: "called w c n \<longleftrightarrow> (\<exists>a. c_player cl = Some a \<and> name_of (players w) a = n)"
    using cl(1) by (auto simp: called_def who_def)
  show ?case
  proof (cases "called w c n")
    case True
    then obtain a where a: "c_player cl = Some a" "name_of (players w) a = n" using call by blast
    then obtain p where "players w a = Some p" "p_name p = Some n" using player_liveD [OF cl(2)] by blast
    then have "lookup_loop (Some c # cs) n w = Inr (Some c)"
      using cl(1) a(1) by (simp add: client_get_player_def player_get_name_def)
    with True show ?thesis by simp
  next
    case False
    have "lookup_loop (Some c # cs) n w = lookup_loop cs n w"
    proof (cases "c_player cl")
      case None
      then show ?thesis using cl(1) by (simp add: client_get_player_def)
    next
      case (Some a)
      then obtain p where "players w a = Some p" "p_name p = Some (name_of (players w) a)"
        using player_liveD [OF cl(2)] by blast
      then show ?thesis using cl(1) Some False call by (simp add: client_get_player_def player_get_name_def)
    qed
    moreover have "\<exists>r. lookup_loop cs n w = Inr r \<and>
      (case r of None \<Rightarrow> \<forall>c. Some c \<in> set cs \<longrightarrow> \<not> called w c n | Some c \<Rightarrow> Some c \<in> set cs \<and> called w c n)"
    proof (cases "c_player cl")
      case None
      then show ?thesis using "3.IH"(1) [of "None"] cl(1) wk by (simp add: client_get_player_def)
    next
      case (Some a)
      then obtain p where "players w a = Some p" "p_name p = Some (name_of (players w) a)"
        using player_liveD [OF cl(2)] by blast
      then show ?thesis using "3.IH"(2) [of "Some a" a p False] cl(1) wk Some False call
        by (simp add: client_get_player_def player_get_name_def)
    qed
    ultimately show ?thesis using False by (auto split: option.splits)
  qed
qed (simp_all add: walkable_def cong: option.case_cong)

text \<open>The lookup takes a reference to the client it finds, which the caller drops again.\<close>

lemma reg_client:
  assumes "core (set rs) w" and "c \<in> set rs"
  obtains cl where "clients w c = Some cl" "\<not> c_lock cl" "0 < c_ref_count cl"
proof -
  obtain cl where cl: "clients w c = Some cl" "\<not> c_lock cl" using core_client [OF assms] by blast
  then have "refs_ok (set rs) w c cl" using coreD(1) [OF assms(1)] by (simp add: objs_ok_def)
  then have "0 < c_ref_count cl" using assms(2) by (simp add: refs_ok_def)
  with cl that show ?thesis by blast
qed

lemma lookup_ok:
  assumes c: "core (set rs) w" and cr: "creg_ok rs w"
  shows "(creg_lookup n w = Inr (None, w) \<and> (\<forall>d \<in> set rs. \<not> called w d n))
    \<or> (\<exists>d w1. creg_lookup n w = Inr (Some d, w1) \<and> client_unref F d w1 = Inr w \<and> d \<in> set rs \<and> called w d n)"
proof -
  obtain cr where cr: "creg w = Some cr" "\<not> cr_mutex cr" "creg_entries cr = map Some rs"
    using creg_okD [OF cr] by blast
  obtain r where r: "lookup_loop (map Some rs) n w = Inr r"
      "case r of None \<Rightarrow> \<forall>c. Some c \<in> set (map Some rs) \<longrightarrow> \<not> called w c n
       | Some c \<Rightarrow> Some c \<in> set (map Some rs) \<and> called w c n"
    using lookup_loop_ok [OF core_walkable [OF c]] by blast
  show ?thesis
  proof (cases r)
    case None
    then show ?thesis using r cr by (simp add: creg_lookup_def image_iff)
  next
    case (Some d)
    then have d: "d \<in> set rs" "called w d n" using r(2) by auto
    obtain cl where cl: "clients w d = Some cl" "\<not> c_lock cl" "0 < c_ref_count cl" using reg_client [OF c d(1)] .
    let ?cl = "cl\<lparr>c_ref_count := c_ref_count cl + 1\<rparr>"
    let ?w = "w\<lparr>clients := (clients w)(d \<mapsto> ?cl)\<rparr>"
    have e: "cl\<lparr>c_ref_count := c_ref_count cl + 1, c_lock := False\<rparr> = ?cl" using cl(2) by (intro CLIENT.equality) simp_all
    have ref: "client_ref d w = Inr ?w" using cl by (simp add: client_ref_def set_client_def e)
    have "less_ref d (clients ?w) = clients w" using cl(1) by (auto simp: less_ref_def fun_eq_iff)
    then have "client_unref F d ?w = Inr w" using client_unref_alive [of ?w d ?cl F] cl by simp
    then show ?thesis using r(1) Some cr ref d by (simp add: creg_lookup_def)
  qed
qed

lemma players_okD:
  assumes "players_ok w"
  shows "preg_ok w" and "who w c = Some (Some a, l, fd) \<Longrightarrow> a \<in> ran (preg_names w)"
  using assms unfolding players_ok_def by blast+

lemma called_unique:
  assumes ok: "server_ok rs w" and "c \<in> set rs" "called w c n" and "d \<in> set rs" "called w d n"
  shows "c = d"
proof -
  note lo = logins_okD [OF server_okD(5) [OF ok]] and po = players_okD [OF server_okD(2) [OF ok]]
  obtain a l fd b k fe where w: "who w c = Some (Some a, l, fd)" "name_of (players w) a = n"
      "who w d = Some (Some b, k, fe)" "name_of (players w) b = n"
    using assms(3,5) by (auto simp: called_def)
  have "preg_names w n = Some a" "preg_names w n = Some b"
    using names_ran [OF po(1) po(2) [OF w(1)]] names_ran [OF po(1) po(2) [OF w(3)]] w(2,4) by simp_all
  then have "a = b" by simp
  then have "c \<in> bound w a" "d \<in> bound w a" using w(1,3) by (auto simp: bound_def)
  then show ?thesis using lo(2) assms(2,4) by blast
qed

lemma lookup_called:
  assumes "server_ok rs w" and "d \<in> set rs" "called w d n"
  shows "\<exists>w1. creg_lookup n w = Inr (Some d, w1) \<and> client_unref F d w1 = Inr w"
  using lookup_ok [OF server_okD(1,4) [OF assms(1)], of n F] called_unique [OF assms(1)] assms(2,3) by blast

section \<open>Inviting\<close>

text \<open>The roles of a request: the header carries that of the invited client.\<close>

definition roles_of :: "JEUX_PACKET_HEADER \<Rightarrow> (GAME_ROLE \<times> GAME_ROLE) option" where
  "roles_of hdr =
     (if uint (h_role hdr) = role_val FIRST_PLAYER_ROLE then Some (SECOND_PLAYER_ROLE, FIRST_PLAYER_ROLE)
      else if uint (h_role hdr) = role_val SECOND_PLAYER_ROLE then Some (FIRST_PLAYER_ROLE, SECOND_PLAYER_ROLE)
      else None)"

lemma roles_of_ok: "roles_of hdr = Some (sr, tr) \<Longrightarrow> sr \<noteq> NULL_ROLE \<and> tr \<noteq> NULL_ROLE \<and> sr \<noteq> tr"
  by (auto simp: roles_of_def split: if_splits)

lemma invite_refused:
  assumes ok: "server_ok rs w" and on: "who w c = Some (x, l, fd)"
    and no: "payload = None \<or> (\<exists>n. payload = Some n \<and> (\<forall>d \<in> set rs. called w d n \<longrightarrow> d = c \<or> roles_of hdr = None))"
  shows "\<exists>s. process_invite F payload c hdr w = Inr (-1, w\<lparr>sy := s\<rparr>) \<and> sent JEUX_NACK_PKT 0 None fd (sy w) s"
proof -
  obtain s where s: "reply_nack c w = Inr (-1, w\<lparr>sy := s\<rparr>)" "sent JEUX_NACK_PKT 0 None fd (sy w) s"
    using reply_nack_sent [OF server_okD(1) [OF ok] on] by blast
  have "process_invite F payload c hdr w = reply_nack c w"
  proof (cases payload)
    case (Some n)
    from lookup_ok [OF server_okD(1,4) [OF ok], of n F] show ?thesis
    proof (elim disjE exE conjE)
      fix d w1
      assume l: "creg_lookup n w = Inr (Some d, w1)" "client_unref F d w1 = Inr w" "d \<in> set rs" "called w d n"
      then have "d = c \<or> roles_of hdr = None" using no Some by auto
      then show ?thesis using l Some by (auto simp: process_invite_def roles_of_def Let_def split: if_splits)
    qed (simp add: process_invite_def Some)
  qed (simp add: process_invite_def)
  with s show ?thesis by (intro exI [of _ s]) simp
qed

text \<open>
  The world after an invitation keeps the invariant, if both parties are online.
\<close>

lemma server_ok_make:
  assumes ok: "server_ok rs w" and ne: "c \<noteq> d" and c: "c \<in> set rs" "who w c = Some (Some a, l, fd)"
    and on: "present w c" "online w d" and d: "d \<in> set rs" and ro: "sr \<noteq> NULL_ROLE" "tr \<noteq> NULL_ROLE" "sr \<noteq> tr"
  shows "server_ok rs (make_w c d sr tr w)"
proof (rule server_ok_frame [OF ok])
  have on: "online w c" "online w d"
    using presentD [OF on(1) c(2)] c(2) on(2) by (auto simp: online_def)
  show "core (set rs) (make_w c d sr tr w)" and f: "frame w (make_w c d sr tr w)"
    using make_w_core [OF server_okD(1) [OF ok] ne c(1) d ro] by auto
  have "online (make_w c d sr tr w) = online w" using f by (simp add: frame_def online_def fun_eq_iff)
  then show "parties_online (make_w c d sr tr w)"
    using server_okD(3) [OF ok] on by (auto simp: parties_online_def make_inv_def)
qed

text \<open>An invitation was sent to \<open>d\<close> and then the client told its identifier.\<close>

definition invited :: "addr \<Rightarrow> addr \<Rightarrow> GAME_ROLE \<Rightarrow> addr \<Rightarrow> int \<Rightarrow> world \<Rightarrow> sys \<Rightarrow> bool" where
  "invited c d tr a fd w s \<longleftrightarrow> env_same (sy w) s \<and> (net_up (sy w) \<longrightarrow>
     (\<exists>pkt s1. header_for (pkt_val JEUX_INVITED_PKT) (int (free_id (invite_list (the (clients w d)))))
          (role_val tr) (int (length (name_of (players w) a))) pkt
        \<and> outp s1 = (let fe = c_fd (the (clients w d)) in
             (outp (sy w))(fe := outp (sy w) fe @ wire pkt (Some (bytes_of (name_of (players w) a)))))
        \<and> net_up s1 \<and> sent JEUX_ACK_PKT (int (free_id (invite_list (the (clients w c))))) None fd s1 s))"

lemma invite_exec:
  assumes g: "good (set rs) w" and cr: "creg_ok rs w" and c: "c \<in> set rs" "who w c = Some (Some a, l, fd)"
    and d: "d \<in> set rs" "called w d n" "d \<noteq> c" "\<forall>e \<in> set rs. called w e n \<longrightarrow> e = d" and ro: "roles_of hdr = Some (sr, tr)"
  shows "\<exists>s. process_invite F (Some n) c hdr w = Inr (0, (make_w c d sr tr w)\<lparr>sy := s\<rparr>)
    \<and> core (set rs) (make_w c d sr tr w) \<and> frame w (make_w c d sr tr w) \<and> invited c d tr a fd w s"
proof -
  note co = goodD(1) [OF g]
  obtain w1 where l: "creg_lookup n w = Inr (Some d, w1)" "client_unref F d w1 = Inr w"
    using lookup_ok [OF co cr, of n F] d by blast
  obtain cl where cl: "clients w c = Some cl" "c_player cl = Some a" "c_fd cl = fd" "\<not> c_lock cl" using core_fd [OF co c(2)] by blast
  obtain dl where dl: "clients w d = Some dl" using core_client [OF co d(1)] by blast
  obtain p where p: "players w a = Some p" "p_name p = Some (name_of (players w) a)"
    using player_liveD [OF objs_playerD [OF coreD(1) [OF co] cl(1,2)]] by blast
  have ne: "c \<noteq> d" using d(3) by simp
  obtain s1 pkt where mk: "client_make_invitation (client_unref F) c d sr tr w
      = Inr (int (free_id (invite_list cl)), (make_w c d sr tr w)\<lparr>sy := s1\<rparr>)" "env_same (sy w) s1"
      "header_for (pkt_val JEUX_INVITED_PKT) (int (free_id (invite_list dl))) (role_val tr) (int (length (name_of (players w) a))) pkt"
      "net_up (sy w) \<longrightarrow> outp s1 = (outp (sy w))(c_fd dl := outp (sy w) (c_fd dl) @ wire pkt (Some (bytes_of (name_of (players w) a))))"
    using make_invitation_ok [OF g ne cl(1) dl cl(2) p, of F sr tr] by blast
  let ?w = "(make_w c d sr tr w)\<lparr>sy := s1\<rparr>"
  have mw: "core (set rs) (make_w c d sr tr w)" "frame w (make_w c d sr tr w)"
    using make_w_core [OF co ne c(1) d(1)] roles_of_ok [OF ro] by blast+
  have no: "no_oom s1" using coreD(4) [OF co] env_same_no_oom [OF mk(2)] by simp
  have cw: "clients ?w c = Some (add_node (next_addr w) (more_ref cl))" using make_w_clients(1) [OF ne, of sr tr w] cl(1) by simp
  obtain pk r s where t: "told JEUX_ACK_PKT (int (free_id (invite_list cl))) 0 0 None c ?w pk r s"
    using notify_told [of ?w c, OF _ cw, of None 0 JEUX_ACK_PKT "int (free_id (invite_list cl))" 0] no cl(4) by auto
  have "process_invite F (Some n) c hdr w = and_then (create_header_w JEUX_ACK_PKT (int (free_id (invite_list cl))) 0 0 ?w)
      (\<lambda>(pkt, w). and_then (client_send_packet c pkt None w) (\<lambda>(_, w). Inr (0, w)))"
    using l ro ne mk(1) by (auto simp: process_invite_def roles_of_def Let_def split: if_splits)
  then have "process_invite F (Some n) c hdr w = Inr (0, ?w\<lparr>sy := s\<rparr>)" by (simp add: told_exec [OF t])
  moreover have "invited c d tr a fd w s"
  proof -
    have "sent JEUX_ACK_PKT (int (free_id (invite_list cl))) None fd s1 s"
      using toldD [OF t] cw cl(3) by (auto simp: sent_def Let_def)
    then show ?thesis
      using mk(2-4) cl(1) dl env_same_trans [OF mk(2)] toldD(1) [OF t] env_same_net_up [OF mk(2)]
      by (auto simp: invited_def Let_def)
  qed
  ultimately show ?thesis using mw by (intro exI [of _ s]) simp
qed

lemma invite_ok:
  assumes ok: "server_ok rs w" and c: "c \<in> set rs" "who w c = Some (Some a, l, fd)"
    and d: "d \<in> set rs" "called w d n" "d \<noteq> c" and on: "present w c" "online w d" and ro: "roles_of hdr = Some (sr, tr)"
  shows "\<exists>s. process_invite F (Some n) c hdr w = Inr (0, (make_w c d sr tr w)\<lparr>sy := s\<rparr>)
    \<and> server_ok rs ((make_w c d sr tr w)\<lparr>sy := s\<rparr>) \<and> invited c d tr a fd w s"
proof -
  have "\<forall>e \<in> set rs. called w e n \<longrightarrow> e = d" using called_unique [OF ok] d(1,2) by blast
  from invite_exec [OF server_okD(7) [OF ok c(1)] server_okD(4) [OF ok] c d this ro, of F] obtain s
    where s: "process_invite F (Some n) c hdr w = Inr (0, (make_w c d sr tr w)\<lparr>sy := s\<rparr>)" "invited c d tr a fd w s" by blast
  moreover have "server_ok rs (make_w c d sr tr w)"
    using server_ok_make [OF ok _ c on d(1)] d(3) roles_of_ok [OF ro] by blast
  ultimately show ?thesis using server_ok_sy [of rs "make_w c d sr tr w" s] by (intro exI [of _ s]) (simp add: invited_def)
qed

text \<open>A client that is not logged in but passes the check of the service loop brings the server down.\<close>

lemma invite_crash:
  assumes ok: "server_ok rs w" and c: "c \<in> set rs" "who w c = Some (None, l, fd)"
    and d: "d \<in> set rs" "called w d n" and ro: "roles_of hdr = Some (sr, tr)"
  shows "process_invite F (Some n) c hdr w = Inl NullDeref"
proof -
  obtain w1 where l: "creg_lookup n w = Inr (Some d, w1)" "client_unref F d w1 = Inr w" using lookup_called [OF ok d(1,2)] by blast
  obtain cl where cl: "clients w c = Some cl" "c_player cl = None" using core_fd [OF server_okD(1) [OF ok] c(2)] by blast
  obtain dl where dl: "clients w d = Some dl" using core_client [OF server_okD(1) [OF ok] d(1)] by blast
  have ne: "c \<noteq> d" using d(2) c(2) by (auto simp: called_def)
  from make_invitation_crash [OF server_okD(7) [OF ok c(1)] ne cl(1) dl cl(2)] show ?thesis
    using l ro ne by (auto simp: process_invite_def roles_of_def Let_def split: if_splits)
qed

end
