(* ===== verification/Connections.thy ===== *)
theory Connections
  imports Service
begin

text \<open>
  Leaving the server: logging out and unregistering, and connecting to it.
\<close>

section \<open>Logging out\<close>

text \<open>The state of a client that is not logged in (any more) and has not been unregistered yet.\<close>

definition leaving :: "addr list \<Rightarrow> addr \<Rightarrow> world \<Rightarrow> bool" where
  "leaving rs c w \<longleftrightarrow> server_ok rs w \<and> c \<in> set rs \<and> (\<exists>x fd. who w c = Some (x, CLIENT_LOGGED_OUT, fd))"

lemma leaving_server_ok: "leaving rs c w \<Longrightarrow> server_ok rs w"
  by (simp add: leaving_def)

lemma players_ok_out:
  assumes po: "players_ok w" and fin: "finite (logins w a)" and c: "who w c = Some (Some a, CLIENT_LOGGED_IN, fd)"
    and w': "preg w' = preg w" "next_addr w \<le> next_addr w'" "who w' = (who w)(c \<mapsto> (Some a, CLIENT_LOGGED_OUT, fd))"
    and n: "whose w a = Some (n, 1 + int (card (logins w a)), False)"
    and n': "whose w' = (whose w)(a \<mapsto> (n, int (card (logins w a)), False))"
  shows "players_ok w'" and "logins w' b = logins w b - {c}"
proof -
  have ca: "c \<in> logins w a" using c by (auto simp: logins_def)
  have lg: "logins w' b = logins w b - {c}" for b using w'(3) c by (auto simp: logins_def)
  then show "logins w' b = logins w b - {c}" .
  have pos: "0 < card (logins w a)" using ca fin by (auto simp: card_gt_0_iff)
  then have "card (logins w a) = Suc (card (logins w' a))" unfolding lg using ca fin by (simp add: card_Suc_Diff1)
  then have wa: "whose w' a = Some (n, 1 + int (card (logins w' a)), False)" using n' by simp
  obtain pr where pr: "preg w = Some pr" using preg_ok_Some [OF players_okD(1) [OF po]] by blast
  note d = preg_okD [OF players_okD(1) [OF po] pr]
  have live: "player_live w' b" if "player_live w b" for b
    using that w'(2) n n' pos by (auto simp: player_live_whose)
  have nm: "name_of (players w') b = name_of (players w) b" if "player_live w b" for b
  proof -
    obtain m k where m: "whose w b = Some (Some m, k, False)" using \<open>player_live w b\<close> by (auto simp: player_live_whose)
    moreover have "\<exists>k. whose w' b = Some (Some m, k, False)" using m n n' by (auto split: if_splits)
    ultimately show ?thesis by (metis whose_name)
  qed
  have nms: "map (name_of (players w')) (pr_list pr) = map (name_of (players w)) (pr_list pr)"
    using d(3) nm by simp
  have ok': "preg_ok w'" using d live pr w'(1) unfolding preg_ok_def by (simp add: nms)
  have "\<forall>b \<in> set (pr_list pr). name_of (players w') b = name_of (players w) b" using nms by simp
  then have names: "preg_names w' = preg_names w" using w'(1) pr by (simp add: preg_names_def cong: map_cong)
  have c1: "\<exists>m. whose w' b = Some (m, 1 + int (card (logins w' b)), False)" if b: "b \<in> ran (preg_names w)" for b
  proof (cases "b = a")
    case False
    have "c \<notin> logins w b" using c False by (auto simp: logins_def)
    then have "logins w' b = logins w b" using lg by blast
    then show ?thesis using po b n' False by (simp add: players_ok_def)
  qed (use wa in blast)
  have c2: "b \<in> ran (preg_names w)" if "who w' d = Some (Some b, l, fe)" for d b l fe
  proof (cases "d = c")
    case True
    then show ?thesis using that w'(3) players_okD(2) [OF po c] by simp
  next
    case False
    then have "who w d = Some (Some b, l, fe)" using that w'(3) by simp
    then show ?thesis by (rule players_okD(2) [OF po])
  qed
  show "players_ok w'" unfolding players_ok_def names using ok' c1 c2 by blast
qed

lemma logout_leaving:
  assumes ok: "server_ok rs w" and c: "c \<in> set rs"
  shows "\<exists>r w'. client_logout F (client_unref F) c w = Inr (r, w') \<and> leaving rs c w' \<and> env_same (sy w) (sy w')
    \<and> (\<forall>d. d \<noteq> c \<longrightarrow> who w' d = who w d)
    \<and> (\<forall>i v. invs w' i = Some v \<and> i_state v \<noteq> INV_CLOSED_STATE \<longrightarrow>
         invs w i = Some v \<and> c \<noteq> i_source v \<and> c \<noteq> i_target v)
    \<and> (net_up (sy w) \<and> tidy w \<longrightarrow> tidy w') \<and> creg w' = creg w"
proof -
  note co = server_okD(1) [OF ok] and lo = logins_okD [OF server_okD(5) [OF ok]]
  obtain x l fd where wc: "who w c = Some (x, l, fd)" using core_client [OF co c] by (auto simp: who_def)
  obtain cl where cl: "clients w c = Some cl" "c_player cl = x" "logged_in cl = l" using wc by (auto simp: who_def)
  show ?thesis
  proof (cases "online w c")
    case False
    have out: "l = CLIENT_LOGGED_OUT"
    proof (cases x)
      case None
      then show ?thesis using idle_client [OF co cl(1)] cl by simp
    next
      case (Some a)
      then show ?thesis using False wc by (cases l) (auto simp: online_def)
    qed
    then have "client_logout F (client_unref F) c w = Inr (-1, w)" using cl by (simp add: client_logout_def)
    moreover have "c \<noteq> i_source v \<and> c \<noteq> i_target v" if "invs w i = Some v" "i_state v \<noteq> INV_CLOSED_STATE" for i v
      using server_okD(3) [OF ok] that False unfolding parties_online_def by auto
    ultimately show ?thesis using wc ok c out by (auto simp: leaving_def)
  next
    case True
    then obtain a where wc: "who w c = Some (Some a, CLIENT_LOGGED_IN, fd)" using wc by (auto simp: online_def)
    note sm = server_okD(6) [OF ok c]
    obtain n w' where w': "client_logout F (client_unref F) c w = Inr (0, w')" "core (set rs) w'"
        "creg w' = creg w" "preg w' = preg w" "is_sem_init w' = is_sem_init w" "sems w' = sems w"
        "env_same (sy w) (sy w')" "next_addr w \<le> next_addr w'"
        "who w' = (who w)(c \<mapsto> (Some a, CLIENT_LOGGED_OUT, fd))"
        "whose w a = Some (n, 1 + int (card (logins w a)), False)"
        "whose w' = (whose w)(a \<mapsto> (n, int (card (logins w a)), False))"
        "\<forall>i v. invs w' i = Some v \<and> i_state v \<noteq> INV_CLOSED_STATE \<longrightarrow>
         invs w i = Some v \<and> c \<noteq> i_source v \<and> c \<noteq> i_target v"
        "net_up (sy w) \<and> parties_online w \<and> tidy w \<longrightarrow> tidy w'" "dom (invs w') \<subseteq> dom (invs w)"
      using logout_effect [OF server_okD(7) [OF ok c] server_okD(2) [OF ok] all_semsD(3) [OF sm] c wc, of F]
      by (elim exE conjE) (rule that)
    note po = players_ok_out [OF server_okD(2) [OF ok] finite_logins [OF co] wc w'(4,8,9,10,11)]
    have "online w' d" if "online w d" "d \<noteq> c" for d using that w'(9) by (simp add: online_def)
    then have "parties_online w'" using server_okD(3) [OF ok] w'(12) unfolding parties_online_def by metis
    moreover have "logins_ok rs w'"
    proof -
      have "bound w' b = bound w b" for b using w'(9) wc by (auto simp: bound_def)
      then show ?thesis unfolding logins_ok_def using lo w'(9) by (auto split: if_splits)
    qed
    moreover have "creg_ok rs w'" "all_sems w'" using server_okD(4) [OF ok] sm w'(3,6) by (simp_all add: creg_ok_def all_sems_def)
    ultimately have "server_ok rs w'" using w'(2,5) po(1) server_okD(8) [OF ok] by (simp add: server_ok_def)
    then have "leaving rs c w'" using c w'(9) by (simp add: leaving_def)
    then show ?thesis using w'(1,3,7,9,12,13) server_okD(3) [OF ok] by (intro exI [of _ 0] exI [of _ w']) auto
  qed
qed

section \<open>The array of the registry\<close>

text \<open>The two loops of \<open>creg_unregister\<close> remove the entry from the part of the array that is in use.\<close>

lemma length_shift_up [simp]: "length (shift_up js cs) = length cs"
  by (induction js cs rule: shift_up.induct) simp_all

lemma nth_shift_up:
  "m < length cs \<Longrightarrow> k < length cs \<Longrightarrow>
     shift_up [i..<m] cs ! k = (if i \<le> k \<and> k < m then cs ! Suc k else cs ! k)"
proof (induction "m - i" arbitrary: i cs)
  case (Suc n)
  then have "i < m" by simp
  then have e: "shift_up [i..<m] cs = shift_up [Suc i..<m] (cs[i := cs ! Suc i])" by (simp add: upt_conv_Cons)
  have "n = m - Suc i" using Suc.hyps(2) by simp
  from Suc.hyps(1) [OF this, of "cs[i := cs ! Suc i]"] Suc.prems \<open>i < m\<close> show ?case
    unfolding e by (auto simp: nth_list_update)
qed auto

lemma shift_up_remove:
  assumes "n \<le> length cs" and "i < n"
  shows "take (n - 1) (shift_up [i..<n - 1] (cs[i := x])) = take i cs @ drop (Suc i) (take n cs)"
proof (rule nth_equalityI)
  show "length (take (n - 1) (shift_up [i..<n - 1] (cs[i := x]))) = length (take i cs @ drop (Suc i) (take n cs))"
    using assms by simp
  fix k
  assume "k < length (take (n - 1) (shift_up [i..<n - 1] (cs[i := x])))"
  then have k: "k < n - 1" using assms by simp
  then show "take (n - 1) (shift_up [i..<n - 1] (cs[i := x])) ! k = (take i cs @ drop (Suc i) (take n cs)) ! k"
    using assms nth_shift_up [of "n - 1" "cs[i := x]" k i] by (auto simp: nth_append nth_list_update)
qed

lemma find_client_some:
  "c \<in> set rs \<Longrightarrow> distinct rs \<Longrightarrow>
     \<exists>i < length rs. find_client (map Some rs) k c = Some (k + i) \<and> rs ! i = c \<and> take i rs @ drop (Suc i) rs = remove1 c rs"
proof (induction rs arbitrary: k)
  case (Cons d rs)
  show ?case
  proof (cases "d = c")
    case False
    then obtain i where "i < length rs" "find_client (map Some rs) (Suc k) c = Some (Suc k + i)" "rs ! i = c"
        "take i rs @ drop (Suc i) rs = remove1 c rs" using Cons.IH [of "Suc k"] Cons.prems False by auto
    then show ?thesis using False by (intro exI [of _ "Suc i"]) simp
  qed (use Cons in auto)
qed simp

section \<open>Unregistering\<close>

text \<open>The reference of the registration is dropped: the client is freed unless an invitation still holds it.\<close>

definition unreg_clients :: "addr \<Rightarrow> world \<Rightarrow> CLIENT heap" where
  "unreg_clients c w = (if held w c = {} then (clients w)(c := None) else less_ref c (clients w))"

lemma client_unref_registered:
  assumes co: "core R w" and c: "c \<in> R" and out: "who w c = Some (x, CLIENT_LOGGED_OUT, fd)"
  shows "client_unref F c w = Inr (w\<lparr>clients := unreg_clients c w\<rparr>)"
proof -
  obtain cl where cl: "clients w c = Some cl" "\<not> c_lock cl" "logged_in cl = CLIENT_LOGGED_OUT" using core_fd [OF co out] by blast
  have "refs_ok R w c cl" using coreD(1) [OF co] cl(1) by (simp add: objs_ok_def)
  then have ref: "c_ref_count cl = 1 + int (card (held w c))" using c by (simp add: refs_ok_def)
  show ?thesis
  proof (cases "held w c = {}")
    case True
    then show ?thesis using cl ref
      by (simp add: client_unref_def call_depth_def eval_nat_numeral set_client_def unreg_clients_def)
  next
    case False
    then have "0 < card (held w c)" using finite_held [OF coreD(1) [OF co], of c] by (simp add: card_gt_0_iff)
    then show ?thesis using client_unref_alive [OF cl(1,2)] ref False by (simp add: unreg_clients_def)
  qed
qed

lemma core_unref_registered:
  assumes co: "core R w" and c: "c \<in> R"
    and no: "\<forall>i v. invs w i = Some v \<and> i_state v \<noteq> INV_CLOSED_STATE \<longrightarrow> c \<noteq> i_source v \<and> c \<noteq> i_target v"
  shows "core (R - {c}) (w\<lparr>clients := unreg_clients c w\<rparr>)"
proof -
  let ?w = "w\<lparr>clients := unreg_clients c w\<rparr>"
  note ok = coreD(1) [OF co]
  obtain cl where cl: "clients w c = Some cl" using core_client [OF co c] by blast
  have other: "unreg_clients c w d = clients w d" if "d \<noteq> c" for d
    using that by (simp add: unreg_clients_def less_ref_apply)
  have self: "unreg_clients c w c = (if held w c = {} then None else Some (cl\<lparr>c_ref_count := c_ref_count cl - 1\<rparr>))"
    using cl by (simp add: unreg_clients_def less_ref_apply)
  have li: "listed ?w = listed w"
  proof (intro ext)
    fix d i
    show "listed ?w d i = listed w d i"
    proof (cases "d = c")
      case True
      have "n_inv ` set (invite_list cl) \<subseteq> held w c" using objs_clientD(4) [OF ok cl] .
      then show ?thesis using True cl self by (auto simp: listed_def)
    qed (simp add: listed_def other)
  qed
  have "client_ok ?w d dl \<and> refs_ok (R - {c}) ?w d dl" if d: "clients ?w d = Some dl" for d dl
  proof (cases "d = c")
    case True
    have "client_ok w c cl" "refs_ok R w c cl" using ok cl by (simp_all add: objs_ok_def)
    then show ?thesis using d True self c
      by (auto simp: client_ok_def refs_ok_def ids_ok_def split: if_splits option.splits)
  next
    case False
    then have "client_ok w d dl" "refs_ok R w d dl" using d other ok by (simp_all add: objs_ok_def)
    then show ?thesis using False by (simp add: client_ok_def refs_ok_def cong: option.case_cong)
  qed
  moreover have "\<forall>d \<in> R - {c}. clients ?w d \<noteq> None" using ok other by (simp add: objs_ok_def)
  moreover have "inv_ok ?w i v" if "invs w i = Some v" for i v
  proof -
    have "d \<noteq> c \<or> unreg_clients c w d \<noteq> None" if "d = i_source v \<or> d = i_target v" for d
      using that \<open>invs w i = Some v\<close> self by (auto simp: held_def)
    then have "clients ?w (i_source v) \<noteq> None" "clients ?w (i_target v) \<noteq> None"
      using objs_invD [OF ok that] other by (metis (no_types) inv_ok_def select_convs(3) surjective update_convs(3))+
    then show ?thesis using objs_invD [OF ok that] unfolding inv_ok_def li by (simp cong: option.case_cong)
  qed
  moreover have "games_owned ?w" using ok by (simp add: objs_ok_def games_owned_def game_of_def)
  ultimately have "objs_ok (R - {c}) ?w" by (simp add: objs_ok_def)
  moreover have "live_ok (R - {c}) ?w" using coreD(2) [OF co] no unfolding live_ok_def li by auto
  ultimately show ?thesis using coreD(3,4) [OF co] by (simp add: core_def)
qed

definition unreg_creg :: "addr list \<Rightarrow> addr \<Rightarrow> CLIENT_REGISTRY \<Rightarrow> CLIENT_REGISTRY" where
  "unreg_creg rs c cr =
     (case find_client (map Some rs) 0 c of None \<Rightarrow> cr
      | Some i \<Rightarrow> cr\<lparr>cr_mutex := False,
          cr_clients := shift_up [i..<nat (cr_length cr - 1)] ((cr_clients cr)[i := None]),
          cr_length := cr_length cr - 1, cr_login_queue := Suc (cr_login_queue cr),
          cr_sem := (if cr_length cr = 1 then Suc (cr_sem cr) else cr_sem cr)\<rparr>)"

lemma core_creg [simp]: "core R (w\<lparr>creg := x\<rparr>) = core R w"
  by (simp add: core_def)

lemma who_creg [simp]: "who (w\<lparr>creg := x\<rparr>) = who w" "who (w\<lparr>preg := y\<rparr>) = who w"
  by (simp_all add: who_def fun_eq_iff)

lemma unregister_exec:
  assumes ok: "core (set rs) w" "c \<in> set rs" "creg_ok rs w" and out: "who w c = Some (x, CLIENT_LOGGED_OUT, fd)"
    and cr: "creg w = Some cr"
  shows "creg_unregister F (client_unref F) (Some c) w
    = Inr (0, w\<lparr>clients := unreg_clients c w, creg := Some (unreg_creg rs c cr)\<rparr>)"
proof -
  have cr': "\<not> cr_mutex cr" "take (nat (cr_length cr)) (cr_clients cr) = map Some rs" "distinct rs"
    using ok(3) cr by (simp_all add: creg_ok_def)
  obtain i where i: "find_client (map Some rs) 0 c = Some i" using find_client_some [OF ok(2) cr'(3), of 0] by auto
  let ?cs = "shift_up [i..<nat (cr_length cr - 1)] ((cr_clients cr)[i := None])"
  let ?w = "w\<lparr>creg := Some (cr\<lparr>cr_mutex := True, cr_clients := ?cs\<rparr>)\<rparr>"
  obtain cl where cl: "clients w c = Some cl" "logged_in cl = CLIENT_LOGGED_OUT" using core_fd [OF ok(1) out] by blast
  have lo: "client_logout F (client_unref F) c ?w = Inr (-1, ?w)" using cl by (simp add: client_logout_def)
  have un: "client_unref F c ?w = Inr (?w\<lparr>clients := unreg_clients c ?w\<rparr>)"
    using client_unref_registered [of "set rs" ?w c x fd F] ok out by simp
  have e: "unreg_clients c ?w = unreg_clients c w" by (simp add: unreg_clients_def)
  have "creg_unregister F (client_unref F) (Some c) w
      = Inr (0, w\<lparr>creg := Some (unreg_creg rs c cr), clients := unreg_clients c w\<rparr>)"
    using cr cr' i lo un unfolding e by (simp add: creg_unregister_def the_creg_def unreg_creg_def Let_def)
  then show ?thesis by simp
qed

lemma unreg_creg_ok:
  assumes ok: "creg_ok rs w" and cr: "creg w = Some cr" and c: "c \<in> set rs"
  shows "creg_ok (remove1 c rs) (w'\<lparr>creg := Some (unreg_creg rs c cr)\<rparr>)"
    and "cr_sem (unreg_creg rs c cr) = (if rs = [c] then Suc (cr_sem cr) else cr_sem cr)"
    and "cr_no (unreg_creg rs c cr) = cr_no cr"
proof -
  have d: "length (cr_clients cr) = MAX_CLIENTS" "length rs \<le> MAX_CLIENTS" "distinct rs"
      "take (length rs) (cr_clients cr) = map Some rs"
      "cr_length cr = int (length rs)" "cr_login_queue cr = MAX_CLIENTS - length rs"
    using ok cr by (simp_all add: creg_ok_def)
  obtain i where i: "i < length rs" "find_client (map Some rs) 0 c = Some i" "rs ! i = c"
      "take i rs @ drop (Suc i) rs = remove1 c rs" using find_client_some [OF c d(3), of 0] by auto
  have n: "nat (int (length rs) - 1) = length rs - 1" using i(1) by simp
  have len: "length (remove1 c rs) = length rs - 1" using c by (simp add: length_remove1)
  have "take (length rs - 1) (shift_up [i..<length rs - 1] ((cr_clients cr)[i := None]))
      = take i (cr_clients cr) @ drop (Suc i) (take (length rs) (cr_clients cr))"
    using shift_up_remove [of "length rs" "cr_clients cr" i None] d(1,2) i(1) by simp
  also have "take i (cr_clients cr) = map Some (take i rs)"
    using arg_cong [OF d(4), of "take i"] i(1) by (simp add: take_map min_def)
  also have "map Some (take i rs) @ drop (Suc i) (take (length rs) (cr_clients cr)) = map Some (remove1 c rs)"
    unfolding d(4) i(4) [symmetric] by (simp add: drop_map)
  finally have tk: "take (length rs - 1) (shift_up [i..<length rs - 1] ((cr_clients cr)[i := None]))
      = map Some (remove1 c rs)" .
  show "creg_ok (remove1 c rs) (w'\<lparr>creg := Some (unreg_creg rs c cr)\<rparr>)"
    using d tk i(1,2) n len Suc_diff_le [OF d(2)] le_trans [OF diff_le_self d(2)]
    by (simp add: creg_ok_def unreg_creg_def)
  have "length rs = 1 \<longleftrightarrow> rs = [c]" using c by (cases rs) auto
  then show "cr_sem (unreg_creg rs c cr) = (if rs = [c] then Suc (cr_sem cr) else cr_sem cr)"
    using i(2) d(5) by (simp add: unreg_creg_def)
  show "cr_no (unreg_creg rs c cr) = cr_no cr" using i(2) by (simp add: unreg_creg_def)
qed

lemma unregister_ok:
  assumes l: "leaving rs c w"
  shows "\<exists>cr w'. creg w = Some cr \<and> creg_unregister F (client_unref F) (Some c) w = Inr (0, w')
    \<and> w' = w\<lparr>clients := unreg_clients c w, creg := Some (unreg_creg rs c cr)\<rparr> \<and> server_ok (remove1 c rs) w'
    \<and> (\<forall>d. d \<noteq> c \<longrightarrow> who w' d = who w d)"
proof -
  note ok = leaving_server_ok [OF l]
  note co = server_okD(1) [OF ok] and cok = server_okD(4) [OF ok] and po = server_okD(2) [OF ok]
    and lo = logins_okD [OF server_okD(5) [OF ok]] and pa = server_okD(3) [OF ok]
  have c: "c \<in> set rs" using l by (simp add: leaving_def)
  note sm = server_okD(6) [OF ok c] server_okD(8) [OF ok]
  obtain x fd where out: "who w c = Some (x, CLIENT_LOGGED_OUT, fd)" using l by (auto simp: leaving_def)
  obtain cr where cr: "creg w = Some cr" and dist: "distinct rs" using creg_okD [OF cok] by blast
  let ?w = "w\<lparr>clients := unreg_clients c w, creg := Some (unreg_creg rs c cr)\<rparr>"
  have no: "c \<noteq> i_source v \<and> c \<noteq> i_target v" if "invs w i = Some v" "i_state v \<noteq> INV_CLOSED_STATE" for i v
    using pa that out unfolding parties_online_def online_def by fastforce
  have "core (set rs - {c}) (w\<lparr>clients := unreg_clients c w\<rparr>)" using core_unref_registered [OF co c] no by blast
  then have c1: "core (set (remove1 c rs)) ?w" using dist by simp
  have whd: "who ?w d = who w d" if "d \<noteq> c" for d
    using that by (auto simp: who_def unreg_clients_def less_ref_apply)
  have whc: "who ?w c = (if held w c = {} then None else who w c)"
    by (auto simp: who_def unreg_clients_def less_ref_apply option.map_comp comp_def)
  have lg: "logins ?w b = logins w b" for b
  proof (rule set_eqI)
    fix d
    show "d \<in> logins ?w b \<longleftrightarrow> d \<in> logins w b" using whd [of d] whc out by (cases "d = c") (auto simp: logins_def)
  qed
  have sub: "who w d = y" if "who ?w d = y" "y \<noteq> None" for d y
    using that whd [of d] whc by (cases "d = c") (auto split: if_splits)
  have on: "online ?w d \<longleftrightarrow> online w d" for d
    using whd [of d] whc out by (cases "d = c") (auto simp: online_def)
  have "players_ok ?w"
  proof -
    have "preg_ok ?w" "preg_names ?w = preg_names w" "whose ?w = whose w"
      using po by (simp_all add: players_ok_def whose_def fun_eq_iff)
    moreover have "b \<in> ran (preg_names w)" if "who ?w d = Some (Some b, k, fe)" for d b k fe
      using players_okD(2) [OF po] sub [OF that] by blast
    ultimately show ?thesis using po lg unfolding players_ok_def by auto
  qed
  moreover have "parties_online ?w" using pa by (simp add: parties_online_def on)
  moreover have "logins_ok (remove1 c rs) ?w"
    unfolding logins_ok_def
  proof (intro conjI ballI allI impI)
    show "d \<in> set (remove1 c rs)" if d: "who ?w d = Some (Some b, CLIENT_LOGGED_IN, fe)" for d b fe
    proof -
      have w: "who w d = Some (Some b, CLIENT_LOGGED_IN, fe)" using sub [OF d] by blast
      then have "d \<noteq> c" using out by auto
      then show ?thesis using lo(1) [OF w] by simp
    qed
    show "d = e" if "d \<in> bound ?w b" "e \<in> bound ?w b" "d \<in> set (remove1 c rs)" "e \<in> set (remove1 c rs)" for b d e
    proof -
      have "bound ?w b \<subseteq> bound w b" using sub by (fastforce simp: bound_def)
      then show ?thesis using lo(2) [of d b e] that set_remove1_subset [of c rs] by blast
    qed
  qed
  moreover have "creg_ok (remove1 c rs) ?w" using unreg_creg_ok(1) [OF cok cr c] .
  ultimately have "server_ok (remove1 c rs) ?w" using c1 sm by (simp add: server_ok_def all_sems_def)
  then show ?thesis using unregister_exec [OF co c cok out cr, of F] cr whd by blast
qed

section \<open>Connecting\<close>

lemma init_sems_ok:
  "no_oom (sy w) \<Longrightarrow> init_sems is w = (True, w\<lparr>sy := (sy w)\<lparr>res_n := res_n (sy w) + length is\<rparr>,
     sems := (\<lambda>i. if i \<in> set is then 1 else sems w i)\<rparr>)"
proof (induction "is" arbitrary: w)
  case (Cons i "is")
  let ?w = "w\<lparr>sy := (sy w)\<lparr>res_n := Suc (res_n (sy w))\<rparr>, sems := (sems w)(i := 1)\<rparr>"
  have "init_sems (i # is) w = init_sems is ?w" using Cons.prems by (simp add: request_w_ok)
  also have "\<dots> = (True, ?w\<lparr>sy := (sy ?w)\<lparr>res_n := res_n (sy ?w) + length is\<rparr>,
     sems := (\<lambda>j. if j \<in> set is then 1 else sems ?w j)\<rparr>)" using Cons.prems by (intro Cons.IH) simp
  also have "(\<lambda>j. if j \<in> set is then 1 else sems ?w j) = (\<lambda>j. if j \<in> set (i # is) then 1 else sems w j)" by auto
  finally show ?case by simp
qed simp

definition new_client :: "int \<Rightarrow> CLIENT" where
  "new_client fd = \<lparr>c_lock = False, c_fd = fd, c_ref_count = 1, c_player = None, logged_in = CLIENT_LOGGED_OUT,
     available_ids = map int [0..<100], id_usage = 0, current_id_size = 100, invite_list = []\<rparr>"

lemma new_client_fields [simp]:
  "c_lock (new_client fd) = False" "c_fd (new_client fd) = fd" "c_ref_count (new_client fd) = 1"
  "c_player (new_client fd) = None" "logged_in (new_client fd) = CLIENT_LOGGED_OUT" "invite_list (new_client fd) = []"
  by (simp_all add: new_client_def)

lemma new_client_ids [simp]: "ids_ok (new_client fd)"
  by (simp add: ids_ok_def new_client_def pool_of_def)

text \<open>The world with one more client; the semaphores are set to one again.\<close>

definition created_w :: "int \<Rightarrow> world \<Rightarrow> world" where
  "created_w fd w = w\<lparr>sy := (sy w)\<lparr>res_n := res_n (sy w) + 13\<rparr>,
     sems := (\<lambda>i. if i < CLIENT_SEM_FUNCTIONS then 1 else sems w i), next_addr := Suc (next_addr w),
     clients := (clients w)(next_addr w \<mapsto> new_client fd)\<rparr>"

lemma client_create_ok:
  assumes "no_oom (sy w)" and "is_sem_init w = 0"
  shows "client_create fd w = Inr (Some (next_addr w), created_w fd w)"
  using assms init_sems_ok [of w "[0..<CLIENT_SEM_FUNCTIONS]"]
  by (simp add: client_create_def request_w_ok client_ref_def set_client_def created_w_def new_client_def
      CLIENT_SEM_FUNCTIONS_def Let_def add.commute)

lemma fresh_client:
  assumes "objs_ok R w"
  shows "clients w (next_addr w) = None" and "held w (next_addr w) = {}" and "next_addr w \<notin> R"
proof -
  have lt: "c < next_addr w" if "clients w c \<noteq> None" for c using objs_clientD(3) [OF assms] that by auto
  then show n: "clients w (next_addr w) = None" by blast
  show "held w (next_addr w) = {}" using objs_invD [OF assms] n by (fastforce simp: held_def inv_ok_def)
  show "next_addr w \<notin> R" using objs_regD [OF assms] n by fastforce
qed

lemma core_created:
  assumes co: "core R w"
  shows "core (insert (next_addr w) R) (created_w fd w)"
proof -
  let ?c = "next_addr w" and ?w = "created_w fd w"
  note ok = coreD(1) [OF co] and fr = fresh_client [OF coreD(1) [OF co]]
  have f: "invs ?w = invs w" "games ?w = games w" "players ?w = players w" "next_addr ?w = Suc ?c"
      "clients ?w = (clients w)(?c \<mapsto> new_client fd)"
    by (simp_all add: created_w_def)
  have li: "listed ?w = listed w" using fr(1) by (auto simp: listed_def f(5) fun_eq_iff)
  have he: "held ?w = held w" by (simp add: held_def f(1) fun_eq_iff)
  have pl: "player_live ?w a" if "player_live w a" for a using that by (simp add: player_live_def f(3,4))
  have "client_ok ?w d dl \<and> refs_ok (insert ?c R) ?w d dl" if d: "clients ?w d = Some dl" for d dl
  proof (cases "d = ?c")
    case True
    then show ?thesis using d fr(2) by (auto simp: f(4,5) client_ok_def refs_ok_def he)
  next
    case False
    then have "client_ok w d dl" "refs_ok R w d dl" using d ok by (simp_all add: f(5) objs_ok_def)
    then show ?thesis using False pl by (auto simp: client_ok_def refs_ok_def he f(4) split: option.splits)
  qed
  moreover have "inv_ok ?w i v" if "invs w i = Some v" for i v
    using objs_invD [OF ok that] unfolding inv_ok_def li f(2,4,5) by (auto split: option.splits)
  moreover have "games_owned ?w" using ok by (auto simp: objs_ok_def games_owned_def game_of_def f)
  moreover have "\<forall>d \<in> insert ?c R. clients ?w d \<noteq> None" using ok by (simp add: f(5) objs_ok_def)
  ultimately have "objs_ok (insert ?c R) ?w" by (simp add: objs_ok_def f(1))
  moreover have "live_ok (insert ?c R) ?w" using coreD(2) [OF co] unfolding live_ok_def li f(1) by blast
  moreover have "no_oom (sy ?w)" using coreD(4) [OF co] by (simp add: created_w_def)
  ultimately show ?thesis using coreD(3) [OF co] by (simp add: core_def pos_refs_def f(1))
qed

lemma register_refused:
  assumes "creg w = Some cr" and "int MAX_CLIENTS \<le> cr_length cr \<or> cr_no cr = 1"
  shows "creg_register fd w = Inr (None, w)"
  using assms by (auto simp: creg_register_def)

definition connected_w :: "int \<Rightarrow> world \<Rightarrow> world" where
  "connected_w fd w = (created_w fd w)\<lparr>creg := map_option (\<lambda>cr. cr\<lparr>cr_login_queue := cr_login_queue cr - 1,
     cr_clients := (cr_clients cr)[nat (cr_length cr) := Some (next_addr w)],
     cr_length := cr_length cr + 1\<rparr>) (creg w)\<rparr>"

lemma register_ok:
  assumes ok: "server_ok rs w" and cr: "creg w = Some cr" "cr_no cr \<noteq> 1" and room: "length rs < MAX_CLIENTS"
  shows "creg_register fd w = Inr (Some (next_addr w), connected_w fd w)"
    and "server_ok (rs @ [next_addr w]) (connected_w fd w)"
    and "who (connected_w fd w) = (who w)(next_addr w \<mapsto> (None, CLIENT_LOGGED_OUT, fd))"
proof -
  let ?c = "next_addr w" and ?w = "connected_w fd w"
  note co = server_okD(1) [OF ok]
  have d: "\<not> cr_mutex cr" "length (cr_clients cr) = MAX_CLIENTS" "distinct rs"
      "take (length rs) (cr_clients cr) = map Some rs"
      "cr_length cr = int (length rs)" "cr_login_queue cr = MAX_CLIENTS - length rs"
    using server_okD(4) [OF ok] cr by (simp_all add: creg_ok_def)
  have sw: "sem_wait (cr_login_queue cr) = Inr (cr_login_queue cr - 1)" using d(6) room by (intro sem_wait_pos) simp
  have ar: "arr_set (cr_clients cr) (cr_length cr) x = Inr ((cr_clients cr)[nat (cr_length cr) := x])" for x
    using d(2,5) room by (simp add: arr_set_def)
  show "creg_register fd w = Inr (Some ?c, ?w)"
    using cr d(1,5) room sw ar client_create_ok [OF coreD(4) [OF co] server_okD(8) [OF ok]]
    by (cases cr) (simp add: creg_register_def connected_w_def)
  have fr: "who w ?c = None" using fresh_client(1) [OF coreD(1) [OF co]] by (simp add: who_def)
  show who: "who ?w = (who w)(?c \<mapsto> (None, CLIENT_LOGGED_OUT, fd))"
    by (auto simp: who_def connected_w_def created_w_def fun_eq_iff)
  have lg: "logins ?w = logins w" using fr by (auto simp: logins_def who fun_eq_iff)
  have c1: "core (set (rs @ [?c])) ?w" using core_created [OF co, of fd] by (simp add: connected_w_def)
  have s1: "all_sems ?w" by (simp add: all_sems_def connected_w_def created_w_def)
  have p1: "players_ok ?w"
  proof -
    have p: "preg_ok ?w" "preg_names ?w = preg_names w" "whose ?w = whose w"
      using preg_ok_frame [OF players_okD(1) [OF server_okD(2) [OF ok]], of ?w]
      by (simp_all add: connected_w_def created_w_def whose_def fun_eq_iff)
    show ?thesis using server_okD(2) [OF ok] unfolding players_ok_def p lg who by (auto split: if_splits intro: p)
  qed
  have "online ?w x" if "online w x" for x using that fr by (auto simp: online_def who)
  moreover have "invs ?w = invs w" by (simp add: connected_w_def created_w_def)
  ultimately have "parties_online ?w" using server_okD(3) [OF ok] unfolding parties_online_def by metis
  moreover have "creg_ok (rs @ [?c]) ?w"
  proof -
    have "?c \<notin> set rs" using fresh_client(3) [OF coreD(1) [OF co]] .
    moreover have "take (Suc (length rs)) ((cr_clients cr)[length rs := Some ?c]) = map Some rs @ [Some ?c]"
      using d(2,4) room by (simp add: take_Suc_conv_app_nth)
    ultimately show ?thesis using d cr(1) room by (simp add: creg_ok_def connected_w_def)
  qed
  moreover have "logins_ok (rs @ [?c]) ?w"
  proof -
    have "bound ?w a = bound w a" for a using fr by (auto simp: bound_def who)
    moreover have "?c \<notin> bound w a" for a using fr by (auto simp: bound_def)
    ultimately show ?thesis using server_okD(5) [OF ok] unfolding logins_ok_def who by (auto split: if_splits)
  qed
  moreover have "is_sem_init ?w = 0" using server_okD(8) [OF ok] by (simp add: connected_w_def created_w_def)
  ultimately show "server_ok (rs @ [?c]) ?w" using c1 s1 p1 by (simp add: server_ok_def)
qed

end
