(* ===== verification/Requests.thy ===== *)
theory Requests
  imports Connections
begin

text \<open>
  The dispatch of a packet (\<^verbatim>\<open>jeux_client_service\<close> of \<^verbatim>\<open>src/server.c\<close>): every request of a registered
  client is served without a fault, and leaves the server in a state that satisfies the invariant;
  the requests for which this fails are characterised exactly.
\<close>

section \<open>Handlers for invitations and games\<close>

text \<open>A handler neither opens an invitation nor changes the parties of one.\<close>

definition parties_kept :: "world \<Rightarrow> world \<Rightarrow> bool" where
  "parties_kept w w' \<longleftrightarrow> (\<forall>i v'. invs w' i = Some v' \<and> i_state v' \<noteq> INV_CLOSED_STATE \<longrightarrow>
     (\<exists>v. invs w i = Some v \<and> i_state v \<noteq> INV_CLOSED_STATE \<and> i_source v = i_source v' \<and> i_target v = i_target v'
        \<and> i_state v \<le> i_state v'))"

text \<open>No invitation goes back to an earlier state.\<close>

definition states_up :: "world \<Rightarrow> world \<Rightarrow> bool" where
  "states_up w w' \<longleftrightarrow> (\<forall>i v v'. invs w i = Some v \<and> invs w' i = Some v' \<longrightarrow> i_state v \<le> i_state v')"

lemma states_up_same: "invs w' = invs w \<Longrightarrow> states_up w w'"
  by (auto simp: states_up_def)

lemma states_up_kept: "parties_kept w w' \<Longrightarrow> states_up w w'"
  unfolding states_up_def parties_kept_def by (metis option.inject state_order(2))

lemma states_up_sy [simp]: "states_up w (w'\<lparr>sy := s\<rparr>) = states_up w w'"
  by (simp add: states_up_def)

lemma server_ok_handled:
  assumes ok: "server_ok rs w" and g: "good (set rs) w'" and f: "frame w w'" and p: "parties_kept w w'"
  shows "server_ok rs w'"
proof (rule server_ok_frame [OF ok goodD(1) [OF g] f])
  have "online w' = online w" using f by (simp add: frame_def online_def fun_eq_iff)
  then show "parties_online w'" using server_okD(3) [OF ok] p unfolding parties_online_def parties_kept_def by metis
qed

lemma closesD:
  assumes "closes i w w'"
  shows "\<forall>j. j \<noteq> i \<longrightarrow> invs w' j = invs w j" and "\<forall>v'. invs w' i = Some v' \<longrightarrow> i_state v' = INV_CLOSED_STATE"
  using assms unfolding closes_def by blast+

lemma closes_parties_kept: "closes i w w' \<Longrightarrow> parties_kept w w'"
  unfolding closes_def parties_kept_def by (smt (verit) option.inject order_refl)

text \<open>What every served request does: it returns, with the invariant kept and the same clients registered.\<close>

definition served :: "addr list \<Rightarrow> world \<Rightarrow> (int \<times> world) result \<Rightarrow> bool" where
  "served rs w res \<longleftrightarrow> (\<exists>r w'. res = Inr (r, w') \<and> server_ok rs w' \<and> env_same (sy w) (sy w') \<and> who w' = who w
     \<and> states_up w w' \<and> (net_up (sy w) \<and> tidy w \<longrightarrow> tidy w'))"

lemma served_reply:
  assumes "server_ok rs w'" and "env_same (sy w) (sy w')" and "who w' = who w" and "c \<in> set rs"
    and ti: "states_up w w'" "net_up (sy w) \<and> tidy w \<longrightarrow> tidy w'"
  shows "served rs w (reply_nack c w')" and "served rs w (reply_ack c w')"
proof -
  obtain x l fd where on: "who w' c = Some (x, l, fd)"
    using core_client [OF server_okD(1) [OF assms(1)] assms(4)] by (auto simp: who_def)
  obtain s where "reply_nack c w' = Inr (-1, w'\<lparr>sy := s\<rparr>)" "sent JEUX_NACK_PKT 0 None fd (sy w') s"
    using reply_nack_sent [OF server_okD(1) [OF assms(1)] on] by blast
  then show "served rs w (reply_nack c w')"
    using server_ok_sy [OF assms(1)] sentD env_same_trans [OF assms(2)] assms(3) ti tidy_invs [of "w'\<lparr>sy := s\<rparr>" w']
    by (force simp: served_def)
  obtain s where "reply_ack c w' = Inr (0, w'\<lparr>sy := s\<rparr>)" "sent JEUX_ACK_PKT 0 None fd (sy w') s"
    using reply_ack_sent [OF server_okD(1) [OF assms(1)] on] by blast
  then show "served rs w (reply_ack c w')"
    using server_ok_sy [OF assms(1)] sentD env_same_trans [OF assms(2)] assms(3) ti tidy_invs [of "w'\<lparr>sy := s\<rparr>" w']
    by (force simp: served_def)
qed

text \<open>What an operation of \<^verbatim>\<open>src/client.c\<close> does that a handler answers with an ACK or a NACK.\<close>

definition handled :: "addr list \<Rightarrow> world \<Rightarrow> (int \<times> world) result \<Rightarrow> bool" where
  "handled rs w res \<longleftrightarrow> (\<exists>r w'. res = Inr (r, w') \<and> good (set rs) w' \<and> frame w w' \<and> parties_kept w w'
     \<and> (net_up (sy w) \<and> parties_online w \<and> tidy w \<longrightarrow> tidy w'))"

lemma handledI: "res = Inr (r, w') \<Longrightarrow> good (set rs) w' \<Longrightarrow> frame w w' \<Longrightarrow> parties_kept w w'
    \<Longrightarrow> net_up (sy w) \<and> parties_online w \<and> tidy w \<longrightarrow> tidy w' \<Longrightarrow> handled rs w res"
  by (auto simp: handled_def)

lemma handled_same: "res = Inr (r, w) \<Longrightarrow> good (set rs) w \<Longrightarrow> handled rs w res"
  by (rule handledI) (auto simp: parties_kept_def)

lemma served_handled:
  assumes ok: "server_ok rs w" and c: "c \<in> set rs" and h: "handled rs w res"
  shows "served rs w (and_then res (\<lambda>(r, w). if r = -1 then reply_nack c w else reply_ack c w))"
proof -
  obtain r w' where w': "res = Inr (r, w')" "good (set rs) w'" "frame w w'" "parties_kept w w'"
      "net_up (sy w) \<and> parties_online w \<and> tidy w \<longrightarrow> tidy w'"
    using h by (auto simp: handled_def)
  have "server_ok rs w'" by (rule server_ok_handled [OF ok w'(2-4)])
  moreover have "env_same (sy w) (sy w')" "who w' = who w" using w'(3) by (simp_all add: frame_def)
  ultimately show ?thesis using served_reply [of rs w' w c] c w'(1,5) server_okD(3) [OF ok] states_up_kept [OF w'(4)] by simp
qed

lemma served_refused:
  assumes ok: "server_ok rs w" and c: "c \<in> set rs"
  shows "served rs w (reply_nack c w)"
  by (rule served_reply(1) [OF ok _ _ c]) (simp_all add: states_up_same)

text \<open>The invitation a request names, and its parties.\<close>

lemma found_parties:
  assumes "core R w" and "clients w c = Some cl" and "inv_of_id (invite_list cl) n = Some i"
  obtains v sc tc oc where "invs w i = Some v" "clients w (i_source v) = Some sc" "clients w (i_target v) = Some tc"
    "clients w (opponent c v) = Some oc"
proof -
  obtain v where v: "invs w i = Some v" using found_invitation(2) [OF assms] by blast
  obtain sc tc where "clients w (i_source v) = Some sc" "clients w (i_target v) = Some tc"
    using objs_invD [OF coreD(1) [OF assms(1)] v] by (auto simp: inv_ok_def)
  moreover from this obtain oc where "clients w (opponent c v) = Some oc" by (metis opponent_def)
  ultimately show ?thesis using that v by blast
qed

lemma revoke_served:
  assumes ok: "server_ok rs w" and c: "c \<in> set rs"
  shows "served rs w (process_revoke F None c hdr w)" and "served rs w (process_decline F None c hdr w)"
proof -
  note g = server_okD(7) [OF ok c]
  obtain cl where cl: "clients w c = Some cl" using core_client [OF goodD(1) [OF g] c] by blast
  let ?n = "uint (h_id hdr)"
  have "handled rs w (client_revoke_invitation (client_unref F) c ?n w)
      \<and> handled rs w (client_decline_invitation (client_unref F) c ?n w)"
  proof (cases "\<exists>i v. inv_of_id (invite_list cl) ?n = Some i \<and> invs w i = Some v \<and> i_state v = INV_OPEN_STATE")
    case True
    then obtain i v where i: "inv_of_id (invite_list cl) ?n = Some i" "invs w i = Some v" "i_state v = INV_OPEN_STATE" by blast
    obtain sc tc where p: "clients w (i_source v) = Some sc" "clients w (i_target v) = Some tc"
      using found_parties [OF goodD(1) [OF g] cl i(1)] i(2) by (metis option.inject)
    have open_tidy: "tidy w'" if "closes i w w'" "tidy w" for w'
      using tidy_closes [OF that(2,1)] i(2) open_no_game [OF goodD(1) [OF g] i(2,3)] by auto
    show ?thesis
      using revoke_open [OF g cl i p(2), of F] decline_open [OF g cl i p(1), of F] closes_parties_kept open_tidy
      unfolding handled_def by blast
  next
    case False
    then have "client_revoke_invitation (client_unref F) c ?n w = Inr (-1, w)"
        "client_decline_invitation (client_unref F) c ?n w = Inr (-1, w)"
      using revoke_refused [OF g cl] by blast+
    then show ?thesis using handled_same g by blast
  qed
  then show "served rs w (process_revoke F None c hdr w)" and "served rs w (process_decline F None c hdr w)"
    using served_handled [OF ok c] by (simp_all add: process_revoke_def process_decline_def)
qed

lemma resign_served:
  assumes ok: "server_ok rs w" and c: "c \<in> set rs"
  shows "served rs w (process_resign F None c hdr w)"
proof -
  note g = server_okD(7) [OF ok c]
  obtain cl where cl: "clients w c = Some cl" using core_client [OF goodD(1) [OF g] c] by blast
  let ?n = "uint (h_id hdr)"
  have "handled rs w (client_resign_game F (client_unref F) c ?n w)"
  proof (cases "\<exists>i v. inv_of_id (invite_list cl) ?n = Some i \<and> invs w i = Some v \<and> i_state v = INV_ACCEPTED_STATE")
    case True
    then obtain i v where i: "inv_of_id (invite_list cl) ?n = Some i" "invs w i = Some v" "i_state v = INV_ACCEPTED_STATE" by blast
    obtain oc where p: "clients w (opponent c v) = Some oc"
      using found_parties [OF goodD(1) [OF g] cl i(1)] i(2) by (metis option.inject)
    obtain r w' where w': "client_resign_game F (client_unref F) c ?n w = Inr (r, w')" "good (set rs) w'" "frame w w'"
        "closes i w w'" "net_up (sy w) \<and> c_player cl \<noteq> None \<and> c_player oc \<noteq> None \<longrightarrow> invs w' i = None"
      using resign_accepted [OF g cl i p, of F] by blast
    have "tidy w'" if t: "net_up (sy w)" "parties_online w" "tidy w"
    proof -
      have "online w (i_source v)" "online w (i_target v)" using t(2) i(2,3) by (auto simp: parties_online_def)
      then have "c_player cl \<noteq> None" "c_player oc \<noteq> None"
        using cl p found_invitation(2) [OF goodD(1) [OF g] cl i(1)] i(2)
        by (auto simp: online_def who_def opponent_def split: if_splits)
      then show ?thesis using tidy_closes [OF t(3) w'(4)] w'(5) t(1) by simp
    qed
    then show ?thesis using handledI [OF w'(1-3) closes_parties_kept [OF w'(4)]] by blast
  next
    case False
    then have "client_resign_game F (client_unref F) c ?n w = Inr (-1, w)" using resign_refused [OF g cl] by blast
    then show ?thesis using handled_same g by blast
  qed
  then show ?thesis using served_handled [OF ok c] by (simp add: process_resign_def)
qed

text \<open>A move in a game that was won, but whose invitation was closed by resigning afterwards, is not refused.\<close>

definition stale_game :: "world \<Rightarrow> addr \<Rightarrow> int \<Rightarrow> bool" where
  "stale_game w c n \<longleftrightarrow> (\<exists>cl i v g. clients w c = Some cl \<and> inv_of_id (invite_list cl) n = Some i \<and> invs w i = Some v
     \<and> i_game v = Some g \<and> i_state v = INV_CLOSED_STATE \<and> current_player (the (games w g)) \<noteq> NULL_ROLE)"

lemma move_served:
  assumes ok: "server_ok rs w" and c: "c \<in> set rs" and st: "\<not> stale_game w c (uint (h_id hdr))"
  shows "served rs w (process_move F payload c hdr w)"
proof (cases payload)
  case None
  then show ?thesis using served_refused [OF ok c] by (simp add: process_move_def)
next
  case (Some str)
  let ?w = "w\<lparr>sy := (sy w)\<lparr>res_n := Suc (res_n (sy w))\<rparr>\<rparr>" and ?n = "uint (h_id hdr)"
  have ok': "server_ok rs ?w" using server_ok_sy [OF ok] by simp
  note g = server_okD(7) [OF ok' c]
  obtain cl where cl: "clients ?w c = Some cl" using core_client [OF goodD(1) [OF g] c] by blast
  let ?mv = "client_make_move F (client_unref F) c ?n (take (payload_size hdr) str) ?w"
  have "handled rs ?w ?mv"
  proof (cases "\<exists>i v. inv_of_id (invite_list cl) ?n = Some i \<and> invs ?w i = Some v \<and> i_state v = INV_ACCEPTED_STATE")
    case True
    then obtain i v where i: "inv_of_id (invite_list cl) ?n = Some i" "invs ?w i = Some v" "i_state v = INV_ACCEPTED_STATE" by blast
    obtain oc where p: "clients ?w (opponent c v) = Some oc"
      using found_parties [OF goodD(1) [OF g] cl i(1)] i(2) by (metis option.inject)
    obtain gi gm where gm: "i_game v = Some gi" "games ?w gi = Some gm" using accepted_game [OF goodD(1) [OF g] i(2,3)] by blast
    obtain r w' where w': "?mv = Inr (r, w')" "good (set rs) w'" "frame ?w w'" "invs w' = invs ?w \<or> invs w' = (invs ?w)(i := None)"
      using move_accepted [OF g cl i gm p, of F "take (payload_size hdr) str"] by blast
    then have "parties_kept ?w w'" unfolding parties_kept_def by (auto split: if_splits)
    moreover have "tidy ?w \<longrightarrow> tidy w'" using w'(4) unfolding tidy_def by (auto split: if_splits)
    ultimately show ?thesis using w'(1-3) by (intro handledI) auto
  next
    case False
    have "i_state v = INV_CLOSED_STATE \<and> current_player (the (games ?w gi)) = NULL_ROLE"
      if i: "inv_of_id (invite_list cl) ?n = Some i" "invs ?w i = Some v" "i_game v = Some gi" for i v gi
    proof -
      have "i_state v \<noteq> INV_OPEN_STATE" using open_no_game [OF goodD(1) [OF g] i(2)] i(3) by auto
      then have "i_state v = INV_CLOSED_STATE" using False i(1,2) by (cases "i_state v") auto
      then show ?thesis using st i cl unfolding stale_game_def by auto
    qed
    then obtain s where "?mv = Inr (-1, ?w\<lparr>sy := s\<rparr>)" "env_same (sy ?w) s"
      using move_refused [OF g cl, of ?n F "client_unref F" "take (payload_size hdr) str"] by blast
    then show ?thesis
      using good_sy [of ?w s] g frame_sy [of ?w s] by (intro handledI [of _ "-1" "?w\<lparr>sy := s\<rparr>"]) (auto simp: parties_kept_def tidy_def)
  qed
  from served_handled [OF ok' c this] have "served rs w (and_then ?mv (\<lambda>(r, w). if r = -1 then reply_nack c w else reply_ack c w))"
    by (simp add: served_def env_same_def tidy_def net_up_def states_up_def)
  then show ?thesis using Some coreD(4) [OF server_okD(1) [OF ok]] by (simp add: process_move_def must_alloc_ok)
qed

lemma accept_served:
  assumes ok: "server_ok rs w" and c: "c \<in> set rs"
  shows "served rs w (process_accept None c hdr w)"
proof -
  note g = server_okD(7) [OF ok c]
  obtain cl where cl: "clients w c = Some cl" using core_client [OF goodD(1) [OF g] c] by blast
  let ?n = "uint (h_id hdr)"
  show ?thesis
  proof (cases "\<exists>i v. inv_of_id (invite_list cl) ?n = Some i \<and> invs w i = Some v \<and> i_state v = INV_OPEN_STATE \<and> c = i_target v")
    case True
    then obtain i v where i: "inv_of_id (invite_list cl) ?n = Some i" "invs w i = Some v" "i_state v = INV_OPEN_STATE"
      and tgt: "c = i_target v" by blast
    obtain sc where p: "clients w (i_source v) = Some sc"
      using found_parties [OF goodD(1) [OF g] cl i(1)] i(2) by (metis option.inject)
    obtain r str s where a: "client_accept_invitation c ?n w = Inr ((r, str), (accept_w i w)\<lparr>sy := s\<rparr>)"
        "env_same (sy w) s"
      using accept_open [OF g cl i tgt p] by (elim exE conjE) (rule that)
    let ?w = "(accept_w i w)\<lparr>sy := s\<rparr>"
    have "good (set rs) (accept_w i w)"
      using accept_w_core(1) [OF goodD(1) [OF g] i(2,3)] g by (simp add: good_def sems_free_def)
    then have "good (set rs) ?w" using good_sy [of "accept_w i w" s] a(2) by simp
    moreover have fr: "frame w ?w" using frame_trans [OF accept_w_core(2) [OF goodD(1) [OF g] i(2,3)] frame_sy] a(2) by simp
    moreover have pk: "parties_kept w ?w" using i(2,3) by (auto simp: parties_kept_def accept_w_inv [OF i(2)])
    ultimately have ok': "server_ok rs ?w" using server_ok_handled [OF ok] by blast
    have w': "env_same (sy w) (sy ?w)" "who ?w = who w" using fr by (simp_all add: frame_def)
    have up: "states_up w ?w" by (rule states_up_kept [OF pk])
    have ti: "tidy w \<longrightarrow> tidy ?w" by (auto simp: tidy_def accept_w_inv [OF i(2)] split: if_splits)
    obtain x l fd where on: "who ?w c = Some (x, l, fd)"
      using core_client [OF server_okD(1) [OF ok'] c] by (auto simp: who_def)
    have "served rs w (and_then (client_send_ack c (Some (bytes_of t)) (int (length t)) ?w) (\<lambda>(_, w). Inr (0, w)))" for t
    proof -
      obtain q s' where "client_send_ack c (Some (bytes_of t)) (int (length t)) ?w = Inr (q, ?w\<lparr>sy := s'\<rparr>)"
          "sent JEUX_ACK_PKT 0 (Some (bytes_of t)) fd (sy ?w) s'"
        using send_ack_sent [OF server_okD(1) [OF ok'] on, of "int (length t)" "Some (bytes_of t)"] by (auto simp: bytes_of_def)
      then show ?thesis using server_ok_sy [OF ok'] sentD env_same_trans [OF w'(1)] w'(2) ti up tidy_invs [of "?w\<lparr>sy := s'\<rparr>" ?w]
        by (force simp: served_def)
    qed
    then show ?thesis
      using a(1) served_reply [OF ok' w' c up] ti by (auto simp: process_accept_def split: option.splits)
  next
    case False
    then have "client_accept_invitation c ?n w = Inr ((-1, None), w)" using accept_refused [OF g cl] by blast
    then show ?thesis using served_refused [OF ok c] by (simp add: process_accept_def)
  qed
qed

section \<open>The dispatch\<close>

lemma users_served:
  assumes ok: "server_ok rs w" and c: "c \<in> set rs"
    and "\<forall>a \<in> set (players_of w (map Some rs)). -999 \<le> rating_of (players w) a \<and> rating_of (players w) a \<le> 9999"
  shows "served rs w (process_users None c w)"
proof -
  obtain x l fd where on: "who w c = Some (x, l, fd)" using core_client [OF server_okD(1) [OF ok] c] by (auto simp: who_def)
  show ?thesis using users_listed [OF server_okD(1,4) [OF ok] on assms(3)] server_ok_sy [OF ok] sentD
    by (force simp: served_def tidy_def states_up_same)
qed

lemma invite_served:
  assumes ok: "server_ok rs w" and c: "c \<in> set rs" and on: "who w c = Some (Some a, l, fd)" and pr: "present w c"
    and tgt: "\<forall>n d. payload = Some n \<and> d \<in> set rs \<and> called w d n \<longrightarrow> online w d"
  shows "served rs w (process_invite F payload c hdr w)"
proof (cases "payload = None \<or> (\<exists>n. payload = Some n \<and> (\<forall>d \<in> set rs. called w d n \<longrightarrow> d = c \<or> roles_of hdr = None))")
  case True
  from invite_refused [OF ok on True] obtain s where "process_invite F payload c hdr w = Inr (-1, w\<lparr>sy := s\<rparr>)"
      "sent JEUX_NACK_PKT 0 None fd (sy w) s" by blast
  then show ?thesis using server_ok_sy [OF ok] sentD by (simp add: served_def states_up_same)
next
  case False
  then obtain n d where "payload = Some n" "d \<in> set rs" "called w d n" "d \<noteq> c" "roles_of hdr \<noteq> None"
    by (metis not_None_eq)
  then obtain sr tr where n: "payload = Some n" "d \<in> set rs" "called w d n" "d \<noteq> c" "roles_of hdr = Some (sr, tr)"
    by (metis not_None_eq prod.exhaust)
  obtain s where s: "process_invite F payload c hdr w = Inr (0, (make_w c d sr tr w)\<lparr>sy := s\<rparr>)"
      "server_ok rs ((make_w c d sr tr w)\<lparr>sy := s\<rparr>)" "invited c d tr a fd w s"
    using invite_ok [OF ok c on n(2-4) pr _ n(5), of F] tgt n(1-3) by blast
  have "frame w (make_w c d sr tr w)"
    using make_w_core(2) [OF server_okD(1) [OF ok] _ c n(2)] n(4) roles_of_ok [OF n(5)] by auto
  then have "who ((make_w c d sr tr w)\<lparr>sy := s\<rparr>) = who w" by (simp add: frame_def)
  moreover have "tidy w \<longrightarrow> tidy ((make_w c d sr tr w)\<lparr>sy := s\<rparr>)" by (auto simp: tidy_def make_inv_def)
  moreover have "states_up w ((make_w c d sr tr w)\<lparr>sy := s\<rparr>)"
    using objs_invD [OF coreD(1) [OF server_okD(1) [OF ok]]] by (fastforce simp: states_up_def inv_ok_def)
  ultimately show ?thesis using s by (auto simp: served_def invited_def)
qed

text \<open>
  The requests that are served safely. Four kinds are not: an INVITE from a client whose LOGIN was
  refused, an INVITE of a client that has logged out and is still registered, a USERS when some rating
  does not fit the four characters the buffer leaves for it, and a MOVE in a game that was won before it
  was resigned.
\<close>

definition safe_request :: "addr list \<Rightarrow> addr \<Rightarrow> int \<Rightarrow> JEUX_PACKET_HEADER \<Rightarrow> string option \<Rightarrow> world \<Rightarrow> bool" where
  "safe_request rs c flag hdr payload w \<longleftrightarrow> (let t = uint (h_type hdr) in flag \<noteq> 0 \<longrightarrow>
     (t = pkt_val JEUX_INVITE_PKT \<longrightarrow> Option.bind (clients w c) c_player \<noteq> None
          \<and> (\<forall>d \<in> set rs. payload \<noteq> None \<and> called w d (the payload) \<longrightarrow> online w d))
     \<and> (t = pkt_val JEUX_USERS_PKT \<longrightarrow>
          (\<forall>a \<in> set (players_of w (map Some rs)). -999 \<le> rating_of (players w) a \<and> rating_of (players w) a \<le> 9999))
     \<and> (t = pkt_val JEUX_MOVE_PKT \<longrightarrow> \<not> stale_game w c (uint (h_id hdr))))"

lemma guarded_served:
  assumes ok: "server_ok rs w" and c: "c \<in> set rs" and h: "flag \<noteq> 0 \<Longrightarrow> served rs w (h w)"
  shows "\<exists>w'. guarded flag c h w = Inr ((True, flag), w') \<and> server_ok rs w' \<and> env_same (sy w) (sy w') \<and> who w' = who w
    \<and> states_up w w' \<and> (net_up (sy w) \<and> tidy w \<longrightarrow> tidy w')"
proof (cases "flag = 0")
  case True
  obtain x l fd where on: "who w c = Some (x, l, fd)" using core_client [OF server_okD(1) [OF ok] c] by (auto simp: who_def)
  obtain r s where "client_send_nack c w = Inr (r, w\<lparr>sy := s\<rparr>)" "sent JEUX_NACK_PKT 0 None fd (sy w) s"
    using send_nack_sent [OF server_okD(1) [OF ok] on] by blast
  then show ?thesis using True server_ok_sy [OF ok] sentD by (fastforce simp: guarded_def tidy_def states_up_same)
next
  case False
  then obtain r w' where "h w = Inr (r, w')" "server_ok rs w'" "env_same (sy w) (sy w')" "who w' = who w"
      "states_up w w'" "net_up (sy w) \<and> tidy w \<longrightarrow> tidy w'"
    using h by (auto simp: served_def)
  with False show ?thesis by (simp add: guarded_def)
qed

lemma login_served:
  assumes ok: "server_ok rs w" and c: "c \<in> set rs"
  shows "\<exists>r w'. process_login payload hdr c w = Inr (r, w') \<and> server_ok rs w' \<and> env_same (sy w) (sy w')
    \<and> (\<forall>d. d \<noteq> c \<longrightarrow> who w' d = who w d) \<and> (present w c \<longrightarrow> present w' c) \<and> (r = 1 \<or> r = -1) \<and> invs w' = invs w"
proof -
  obtain x l fd where on: "who w c = Some (x, l, fd)" using core_client [OF server_okD(1) [OF ok] c] by (auto simp: who_def)
  show ?thesis
  proof (cases "x \<noteq> None \<or> payload = None \<or> payload = Some []")
    case True
    then show ?thesis using login_refused [OF server_okD(1) [OF ok] on True, of hdr] server_ok_sy [OF ok] sentD by fastforce
  next
    case False
    then obtain str where str: "x = None" "payload = Some str" "str \<noteq> []" by auto
    obtain a w' where w': "process_login payload hdr c w = Inr (1, w')" "login_outcome rs c (take (payload_size hdr) str) fd w a w'"
      using login_accepted [OF ok c _ str(3), of l fd hdr] on str(1,2) by auto
    then have "server_ok rs w' \<and> env_same (sy w) (sy w') \<and> (\<forall>d. d \<noteq> c \<longrightarrow> who w' d = who w d) \<and> invs w' = invs w"
      by (auto simp: login_outcome_def dest: sentD env_same_trans split: if_splits)
    moreover have "present w c \<longrightarrow> present w' c" using w'(2) by (auto simp: login_outcome_def present_def split: if_splits)
    ultimately show ?thesis using w'(1) by blast
  qed
qed

lemma dispatch_ok:
  assumes ok: "server_ok rs w" and c: "c \<in> set rs" and pr: "present w c" and safe: "safe_request rs c flag hdr payload w"
  shows "\<exists>cont flag' w'. dispatch F c flag hdr payload w = Inr ((cont, flag'), w') \<and> env_same (sy w) (sy w')
    \<and> (if cont then server_ok rs w' \<and> present w' c else leaving rs c w' \<and> uint (h_type hdr) = 0)
    \<and> (\<forall>d. d \<noteq> c \<longrightarrow> who w' d = who w d) \<and> states_up w w' \<and> (net_up (sy w) \<and> tidy w \<longrightarrow> tidy w')"
proof -
  let ?t = "uint (h_type hdr)"
  have via: "\<exists>cont flag' w'. guarded flag c h w = Inr ((cont, flag'), w') \<and> env_same (sy w) (sy w')
    \<and> (if cont then server_ok rs w' \<and> present w' c else leaving rs c w' \<and> uint (h_type hdr) = 0)
    \<and> (\<forall>d. d \<noteq> c \<longrightarrow> who w' d = who w d) \<and> states_up w w' \<and> (net_up (sy w) \<and> tidy w \<longrightarrow> tidy w')" if h: "flag \<noteq> 0 \<Longrightarrow> served rs w (h w)" for h
  proof -
    obtain w' where "guarded flag c h w = Inr ((True, flag), w')" "server_ok rs w'" "env_same (sy w) (sy w')" "who w' = who w"
        "states_up w w'" "net_up (sy w) \<and> tidy w \<longrightarrow> tidy w'"
      using guarded_served [OF ok c, where h = h and flag = flag, OF h] by blast
    then show ?thesis using pr present_who [of w' w] by (intro exI [of _ True] exI [of _ flag] exI [of _ w']) simp
  qed
  have inv: "served rs w (process_invite F payload c hdr w)" if t: "flag \<noteq> 0" "?t = 3"
  proof -
    obtain cl a where cl: "clients w c = Some cl" "c_player cl = Some a"
      using safe t by (auto simp: safe_request_def Let_def bind_eq_Some_conv)
    have "\<forall>n d. payload = Some n \<and> d \<in> set rs \<and> called w d n \<longrightarrow> online w d"
      using safe t by (auto simp: safe_request_def Let_def)
    then show ?thesis using invite_served [OF ok c _ pr, of a "logged_in cl" "c_fd cl"] cl by (simp add: who_def)
  qed
  consider "?t = 1" | "?t = 2" | "?t = 3" | "?t = 4" | "?t = 5" | "?t = 6" | "?t = 7" | "?t = 8" | "?t = 0"
    | "?t \<notin> {0, 1, 2, 3, 4, 5, 6, 7, 8}" by auto
  then show ?thesis
  proof cases
    case 1
    then show ?thesis using login_served [OF ok c, of payload hdr] pr by (auto simp: dispatch_def Let_def tidy_def states_up_same)
  next
    case 2
    then show ?thesis using via users_served [OF ok c] safe by (simp add: dispatch_def safe_request_def Let_def)
  next
    case 3
    then show ?thesis using via inv by (simp add: dispatch_def Let_def)
  next
    case 4
    then show ?thesis using via revoke_served(1) [OF ok c] by (simp add: dispatch_def Let_def)
  next
    case 5
    then show ?thesis using via accept_served [OF ok c] by (simp add: dispatch_def Let_def)
  next
    case 6
    then show ?thesis using via revoke_served(2) [OF ok c] by (simp add: dispatch_def Let_def)
  next
    case 7
    then show ?thesis using via move_served [OF ok c] safe by (simp add: dispatch_def safe_request_def Let_def)
  next
    case 8
    then show ?thesis using via resign_served [OF ok c] by (simp add: dispatch_def Let_def)
  next
    case 9
    obtain r w' where w': "client_logout F (client_unref F) c w = Inr (r, w')" "leaving rs c w'" "env_same (sy w) (sy w')"
        "\<forall>d. d \<noteq> c \<longrightarrow> who w' d = who w d"
        "\<forall>i v. invs w' i = Some v \<and> i_state v \<noteq> INV_CLOSED_STATE \<longrightarrow> invs w i = Some v \<and> c \<noteq> i_source v \<and> c \<noteq> i_target v"
        "net_up (sy w) \<and> tidy w \<longrightarrow> tidy w'"
      using logout_leaving [OF ok c, of F] by (elim exE conjE) (rule that)
    have "states_up w w'" unfolding states_up_def using w'(5) by (metis option.inject order_refl state_order(2))
    then show ?thesis using w' 9 by (auto simp: dispatch_def Let_def)
  next
    case 10
    then show ?thesis using ok pr by (auto simp: dispatch_def Let_def states_up_same)
  qed
qed

end
