(* ===== verification/Program.thy ===== *)
theory Program
  imports Server
begin

text \<open>
  The program around the service threads: the command line (\<^verbatim>\<open>src/option_processing.c\<close>), start-up,
  the accept loop, the signal handler and termination (\<^verbatim>\<open>src/main.c\<close>), with the wrappers of
  \<^verbatim>\<open>src/csapp.c\<close> that they use. This is the release build: the code under \<open>DEBUG\<close> is left out.
\<close>

unbundle bit_operations_syntax

section \<open>The command line\<close>

text \<open>
  \<open>strtol(s, \&ptr, 10)\<close>: white space, a sign and the digits; the value is kept within the range of a
  64-bit \<open>long\<close>. Storing it in the \<open>int\<close> variable \<open>PORT\<close> keeps the low 32 bits.
\<close>

definition isspace :: "char \<Rightarrow> bool" where
  "isspace c \<longleftrightarrow> of_char c = (32 :: nat) \<or> (9 \<le> (of_char c :: nat) \<and> of_char c \<le> (13 :: nat))"

definition isdigit :: "char \<Rightarrow> bool" where
  "isdigit c \<longleftrightarrow> 48 \<le> (of_char c :: nat) \<and> of_char c \<le> (57 :: nat)"

definition digits_val :: "string \<Rightarrow> int" where
  "digits_val ds = foldl (\<lambda>n c. 10 * n + (of_char c - 48)) 0 ds"

definition strtol10 :: "string \<Rightarrow> int" where
  "strtol10 str =
     (let cs = dropWhile isspace str;
          neg = (cs \<noteq> [] \<and> hd cs = CHR ''-'');
          ds = takeWhile isdigit (if cs \<noteq> [] \<and> (hd cs = CHR ''-'' \<or> hd cs = CHR ''+'') then tl cs else cs);
          n = (if neg then - digits_val ds else digits_val ds) in
      max (- (2 ^ 63)) (min (2 ^ 63 - 1) n))"

text \<open>The variables \<open>options\<close> and \<open>PORT\<close>.\<close>

record opts =
  options :: int
  PORT :: int

definition PORT_OPTION :: int where "PORT_OPTION = 1"

definition no_opts :: opts where
  "no_opts = \<lparr>options = 0, PORT = 0\<rparr>"

text \<open>
  The loop over \<open>getopt(argc, argv, "p")\<close>. The option takes no argument of its own: the code reads the
  element at \<open>optind\<close>, which is the one behind the option if that was the last letter of its
  element, and the element itself otherwise; behind the last element there is a null pointer.
  Elements that are not options are skipped, \<open>--\<close> ends the options. The first result is \<open>False\<close> for
  the early return at an unknown letter.
\<close>

fun option_letters :: "string \<Rightarrow> string \<Rightarrow> string list \<Rightarrow> opts \<Rightarrow> (bool \<times> opts) result" where
  "option_letters element [] rest o1 = Inr (True, o1)"
| "option_letters element (c # cs) rest o1 =
     (if c = CHR ''p'' then
        let o1 = o1\<lparr>options := options o1 OR PORT_OPTION\<rparr> in
        and_then (if cs \<noteq> [] then Inr element else case rest of [] \<Rightarrow> Inl NullDeref | a # _ \<Rightarrow> Inr a) (\<lambda>arg.
        option_letters element cs rest (o1\<lparr>PORT := to_int32 (strtol10 arg)\<rparr>))
      else Inr (False, o1))"

fun option_loop :: "string list \<Rightarrow> opts \<Rightarrow> (bool \<times> opts) result" where
  "option_loop [] o1 = Inr (True, o1)"
| "option_loop (e # rest) o1 =
     (if e = ''--'' then Inr (True, o1)
      else if e \<noteq> [] \<and> hd e = CHR ''-'' \<and> tl e \<noteq> [] then
        and_then (option_letters e (tl e) rest o1) (\<lambda>(known, o1).
        if known then option_loop rest o1 else Inr (False, o1))
      else option_loop rest o1)"

text \<open>The arguments are those behind the name of the program.\<close>

definition option_processor :: "string list \<Rightarrow> (int \<times> opts) result" where
  "option_processor args =
     and_then (option_loop args no_opts) (\<lambda>(known, o1).
     if \<not> known then Inr (1, o1)
     else if options o1 AND PORT_OPTION \<noteq> 0 then Inr (0, o1)
     else Inr (1, o1))"

section \<open>Signals\<close>

definition SIGHUP :: int where "SIGHUP = 1"
definition HANDLE_SIGHUP :: int where "HANDLE_SIGHUP = 1"

definition sighup_handler :: "int \<Rightarrow> int \<Rightarrow> int" where
  "sighup_handler signum signal_received =
     (if signum = SIGHUP then signal_received OR HANDLE_SIGHUP else signal_received)"

definition EXIT_FAILURE :: int where "EXIT_FAILURE = 1"
definition EXIT_SUCCESS :: int where "EXIT_SUCCESS = 0"

text \<open>\<open>sigaction\<close> and \<open>sigaddset\<close> may fail.\<close>

definition setup_signal_handler :: "world \<Rightarrow> world result" where
  "setup_signal_handler w =
     (let (ok, w) = request_w w in
      and_then (assert_c ok (Exited EXIT_FAILURE)) (\<lambda>_.
      let (ok, w) = request_w w in
      and_then (assert_c ok (Exited EXIT_FAILURE)) (\<lambda>_. Inr w)))"

section \<open>The listening socket\<close>

text \<open>
  \<open>socket\<close>, \<open>setsockopt\<close>, \<open>bind\<close> and \<open>listen\<close> may fail; \<open>fd\<close> is the descriptor that \<open>socket\<close> gives. The
  second result is the port that is bound, in network byte order.
\<close>

definition open_listenfd :: "int \<Rightarrow> int \<Rightarrow> world \<Rightarrow> (int \<times> 16 word) \<times> world" where
  "open_listenfd fd port w =
     (let (ok, w) = request_w w in
      if \<not> ok then ((-1, 0), w)
      else let (ok, w) = request_w w in
        if \<not> ok then ((-1, 0), w)
        else
          let sin_port = htons (word_of_int port); (ok, w) = request_w w in
          if \<not> ok then ((-1, 0), w)
          else let (ok, w) = request_w w in
            if \<not> ok then ((-1, 0), w) else ((fd, sin_port), w))"

definition unix_error :: "'a result" where
  "unix_error = Inl (Exited 0)"

definition Open_listenfd :: "int \<Rightarrow> int \<Rightarrow> (int \<times> 16 word) act" where
  "Open_listenfd fd port w =
     (let ((rc, sin_port), w) = open_listenfd fd port w in if rc < 0 then unix_error else Inr ((rc, sin_port), w))"

text \<open>A failed \<open>accept\<close> is only reported: the negative result is returned.\<close>

definition Accept :: "int \<Rightarrow> int" where
  "Accept rc = rc"

section \<open>Start and end\<close>

text \<open>The results of the initialisation are not checked.\<close>

definition main_init :: "world \<Rightarrow> world" where
  "main_init w =
     (let (cr, s) = creg_init (sy w); (pr, s) = preg_init s in w\<lparr>sy := s, creg := cr, preg := pr\<rparr>)"

definition main_start :: "string list \<Rightarrow> int \<Rightarrow> (int \<times> 16 word) act" where
  "main_start args fd w =
     and_then (option_processor args) (\<lambda>(r, o1).
     if r \<noteq> 0 then Inl (Exited EXIT_FAILURE)
     else
       and_then (setup_signal_handler w) (\<lambda>w.
       Open_listenfd fd (PORT o1) (main_init w)))"

text \<open>The shutdown up to the call of \<open>exit\<close>.\<close>

definition shutdown :: "world \<Rightarrow> world result" where
  "shutdown w =
     and_then (creg_shutdown_all w) (\<lambda>w.
     and_then (creg_wait_for_empty w) (\<lambda>w.
     and_then (creg_fini w) (\<lambda>w.
     preg_fini w)))"

definition terminate :: "int \<Rightarrow> world \<Rightarrow> 'a result" where
  "terminate status w = and_then (shutdown w) (\<lambda>_. Inl (Exited status))"

text \<open>
  One round of the accept loop: \<open>rc\<close> is what \<open>accept\<close> returns, \<open>signal_received\<close> the value of the
  variable when it is tested, \<open>created\<close> whether the thread can be created. The result is the
  descriptor that a new service thread is given.
\<close>

definition accept_round :: "int \<Rightarrow> int \<Rightarrow> int \<Rightarrow> bool \<Rightarrow> int act" where
  "accept_round listenfd rc signal_received created w =
     and_then (must_alloc w) (\<lambda>w.
     let connfd = Accept rc in
     if signal_received AND HANDLE_SIGHUP \<noteq> 0 then
       and_then (Close listenfd w) (\<lambda>w. terminate EXIT_SUCCESS w)
     else if \<not> created then Inl (Exited EXIT_FAILURE)
     else Inr (connfd, w))"

section \<open>Reading back a printed port number\<close>

lemma digits_val_snoc [simp]: "digits_val (ds @ [c]) = 10 * digits_val ds + (of_char c - 48)"
  by (simp add: digits_val_def)

lemma isdigit_digit: "k < 10 \<Longrightarrow> isdigit (char_of (48 + k :: nat))"
  by (simp add: isdigit_def)

lemma digit_val: "(of_char (char_of (k :: nat)) :: int) = int (k mod 256)"
  by (metis of_char_of of_nat_of_char)

lemma isdigit_not: "isdigit c \<Longrightarrow> \<not> isspace c \<and> c \<noteq> CHR ''-'' \<and> c \<noteq> CHR ''+''"
  by (auto simp: isdigit_def isspace_def)

lemma dec_nat_isdigit: "c \<in> set (dec_nat n) \<Longrightarrow> isdigit c"
proof (induction n rule: dec_nat.induct)
  case (1 n)
  then show ?case using isdigit_digit [of n] isdigit_digit [of "n mod 10"]
    by (subst (asm) (2) dec_nat.simps) (auto split: if_splits)
qed

lemma dec_nat_not_Nil: "dec_nat n \<noteq> []"
  by (subst dec_nat.simps) simp

lemma digits_val_dec_nat: "digits_val (dec_nat n) = int n"
proof (induction n rule: dec_nat.induct)
  case (1 n)
  show ?case
  proof (cases "n < 10")
    case True
    then show ?thesis by (subst dec_nat.simps) (simp add: digits_val_def digit_val)
  next
    case False
    then show ?thesis using 1 by (subst dec_nat.simps) (simp add: digit_val zmod_int zdiv_int)
  qed
qed

lemma strtol10_dec_nat:
  assumes "n < 2 ^ 63"
  shows "strtol10 (dec_nat n) = int n"
proof -
  obtain c cs where e: "dec_nat n = c # cs" using dec_nat_not_Nil by (metis neq_Nil_conv)
  have d: "\<forall>x \<in> set (dec_nat n). isdigit x" using dec_nat_isdigit by blast
  then have "isdigit c" by (simp add: e)
  note nd = isdigit_not [OF this]
  have "dropWhile isspace (dec_nat n) = dec_nat n" using nd by (simp add: e)
  moreover have "hd (dec_nat n) \<noteq> CHR ''-''" "hd (dec_nat n) \<noteq> CHR ''+''" using nd by (simp_all add: e)
  ultimately have "strtol10 (dec_nat n) = max (- (2 ^ 63)) (min (2 ^ 63 - 1) (digits_val (takeWhile isdigit (dec_nat n))))"
    by (simp add: strtol10_def Let_def)
  also have "takeWhile isdigit (dec_nat n) = dec_nat n" using d takeWhile_eq_all_conv by blast
  finally show ?thesis using assms by (simp add: digits_val_dec_nat)
qed

lemma to_int32_small: "n < 2 ^ 31 \<Longrightarrow> to_int32 (int n) = int n"
  by (simp add: to_int32_id)

lemma option_port:
  assumes "n < 2 ^ 31"
  shows "option_processor [''-p'', dec_nat n] = Inr (0, \<lparr>options = 1, PORT = int n\<rparr>)"
proof -
  have small: "n < 2 ^ 63" using assms by (simp add: less_trans [of n "2 ^ 31"])
  obtain c cs where e: "dec_nat n = c # cs" using dec_nat_not_Nil by (metis neq_Nil_conv)
  have "isdigit c" using dec_nat_isdigit [of c n] by (simp add: e)
  then have "c \<noteq> CHR ''-''" using isdigit_not by blast
  then have "option_loop [dec_nat n] o1 = Inr (True, o1)" for o1 by (simp add: e)
  then show ?thesis
    using strtol10_dec_nat [OF small] to_int32_small [OF assms]
    by (simp add: option_processor_def no_opts_def PORT_OPTION_def)
qed

end
