(* ===== verification/System.thy ===== *)
theory System
  imports Requests Program
begin

text \<open>
  The whole server: the state machine whose steps are connections, requests and departures, its
  reachable states, and the service of one connection from its first byte to its end.
\<close>

section \<open>The state machine\<close>

text \<open>The clients in the registry.\<close>

definition registered :: "world \<Rightarrow> addr list" where
  "registered w = (case creg w of None \<Rightarrow> [] | Some cr \<Rightarrow> map the (creg_entries cr))"

lemma registered_eq: "creg_ok rs w \<Longrightarrow> registered w = rs"
  by (erule creg_okD) (simp add: registered_def comp_def)

text \<open>
  Where the service thread of a client is: in its loop, with the value of \<open>process_login_packet\<close>, or
  behind it, when it has logged its client out and has not unregistered it yet.
\<close>

datatype thread = Serving int | Leaving

type_synonym system = "world \<times> (addr \<Rightarrow> thread)"

text \<open>
  A step is a connection, accepted or refused; a request, not of an unsafe kind, that a thread in its loop serves; the end of the
  loop, by a packet of type 0 or because nothing more can be received; the unregistering of the client
  by a thread behind its loop; the shutdown of all connections by the main thread; or a change of the
  environment that still grants every request for memory. The steps of the threads are interleaved in any order.
\<close>

inductive system_step :: "fp \<Rightarrow> system \<Rightarrow> system \<Rightarrow> bool" for F where
  connect: "creg_register fd w = Inr (Some c, w') \<Longrightarrow> system_step F (w, fl) (w', fl(c := Serving 0))"
| refuse: "creg_register fd w = Inr (None, w') \<Longrightarrow> system_step F (w, fl) (w', fl)"
| request: "c \<in> set (registered w) \<Longrightarrow> fl c = Serving f \<Longrightarrow> safe_request (registered w) c f hdr payload w \<Longrightarrow>
    dispatch F c f hdr payload w = Inr ((True, f'), w') \<Longrightarrow> system_step F (w, fl) (w', fl(c := Serving f'))"
| quit: "c \<in> set (registered w) \<Longrightarrow> fl c = Serving f \<Longrightarrow> safe_request (registered w) c f hdr payload w \<Longrightarrow>
    dispatch F c f hdr payload w = Inr ((False, f'), w') \<Longrightarrow> system_step F (w, fl) (w', fl(c := Leaving))"
| hangup: "c \<in> set (registered w) \<Longrightarrow> fl c = Serving f \<Longrightarrow>
    client_logout F (client_unref F) c w = Inr (q, w') \<Longrightarrow> system_step F (w, fl) (w', fl(c := Leaving))"
| depart: "c \<in> set (registered w) \<Longrightarrow> fl c = Leaving \<Longrightarrow>
    creg_unregister F (client_unref F) (Some c) w = Inr (r, w') \<Longrightarrow> system_step F (w, fl) (w', fl)"
| shutdown: "creg_shutdown_all w = Inr w' \<Longrightarrow> system_step F (w, fl) (w', fl)"
| network: "no_oom s \<Longrightarrow> system_step F (w, fl) (w\<lparr>sy := s\<rparr>, fl)"

inductive_cases system_stepE: "system_step F (w, fl) st"

text \<open>
  The server as \<open>main\<close> sets it up, and the states it can get to by these steps, that is, as long as
  no unsafe request is served (\<open>reachable_iff_run\<close> below).
\<close>

definition booted :: "system \<Rightarrow> bool" where
  "booted st \<longleftrightarrow> snd st = (\<lambda>_. Serving 0) \<and> (\<exists>s. no_oom s \<and> fst st = main_init (blank_world s))"

definition reachable :: "fp \<Rightarrow> system \<Rightarrow> bool" where
  "reachable F st \<longleftrightarrow> (\<exists>st0. booted st0 \<and> (system_step F)\<^sup>*\<^sup>* st0 st)"

lemma reachable_start: "no_oom s \<Longrightarrow> reachable F (main_init (blank_world s), \<lambda>_. Serving 0)"
  by (auto simp: reachable_def booted_def)

lemma reachable_step: "reachable F st \<Longrightarrow> system_step F st st' \<Longrightarrow> reachable F st'"
  unfolding reachable_def by (meson rtranclp.rtrancl_into_rtrancl)

section \<open>The invariant of the reachable states\<close>

lemma main_init_ok:
  assumes "no_oom s"
  shows "server_ok [] (main_init (blank_world s))"
proof -
  let ?w = "main_init (blank_world s)"
  have f: "clients ?w = Map.empty" "invs ?w = Map.empty" "games ?w = Map.empty" "players ?w = Map.empty"
      "is_sem_init ?w = 0" "no_oom (sy ?w)"
      "preg ?w = Some \<lparr>pr_mutex = False, pr_list = [], pr_length = 0\<rparr>"
      "creg ?w = Some \<lparr>cr_mutex = False, cr_sem = 0, cr_length = 0, cr_no = 0,
                    cr_clients = replicate MAX_CLIENTS None, cr_login_queue = MAX_CLIENTS\<rparr>"
    using assms by (simp_all add: main_init_def blank_world_def creg_init_def preg_init_def)
  have "core {} ?w"
    using f(1-3,6) by (simp add: core_def objs_ok_def live_ok_def pos_refs_def games_owned_def game_of_def)
  moreover have "players_ok ?w"
    using f(1,7) by (simp add: players_ok_def preg_ok_def preg_names_def who_def)
  moreover have "creg_ok [] ?w" using f(8) by (simp add: creg_ok_def)
  moreover have "logins_ok [] ?w" using f(1) by (simp add: logins_ok_def logins_def who_def)
  ultimately show ?thesis using f(2,5) by (simp add: server_ok_def parties_online_def)
qed

lemma server_ok_sys:
  assumes ok: "server_ok rs w" and "no_oom s"
  shows "server_ok rs (w\<lparr>sy := s\<rparr>)"
proof -
  have "core (set rs) (w\<lparr>sy := s\<rparr>)" using server_okD(1) [OF ok] assms(2) by (simp add: core_def)
  moreover have "parties_online (w\<lparr>sy := s\<rparr>) = parties_online w" by (simp add: parties_online_def online_def)
  moreover have "players_ok (w\<lparr>sy := s\<rparr>) = players_ok w" "logins_ok rs (w\<lparr>sy := s\<rparr>) = logins_ok rs w"
      "creg_ok rs (w\<lparr>sy := s\<rparr>) = creg_ok rs w" "all_sems (w\<lparr>sy := s\<rparr>) = all_sems w"
    by (simp_all add: players_ok_def logins_ok_def creg_ok_def all_sems_def)
  ultimately show ?thesis using ok by (simp add: server_ok_def)
qed

lemma server_ok_creg:
  assumes ok: "server_ok rs w" and "creg_ok rs (w\<lparr>creg := x\<rparr>)"
  shows "server_ok rs (w\<lparr>creg := x\<rparr>)"
proof -
  let ?w = "w\<lparr>creg := x\<rparr>"
  have "parties_online ?w = parties_online w" "all_sems ?w = all_sems w" by (simp_all add: parties_online_def online_def all_sems_def)
  moreover have "logins ?w = logins w" "whose ?w = whose w" by (simp_all add: logins_def whose_def fun_eq_iff)
  then have "players_ok ?w = players_ok w" "logins_ok rs ?w = logins_ok rs w" by (simp_all add: players_ok_def logins_ok_def bound_def)
  ultimately show ?thesis using assms by (simp add: server_ok_def)
qed

text \<open>The descriptors of the clients in a list are shut down for reading.\<close>

definition fd_of :: "world \<Rightarrow> addr \<Rightarrow> int" where
  "fd_of w c = c_fd (the (clients w c))"

lemma shutdown_loop_eq:
  assumes "walkable w (map Some cs)"
  shows "shutdown_loop (map Some cs) w
    = Inr (w\<lparr>sy := (sy w)\<lparr>rd_shut := (\<lambda>fd. rd_shut (sy w) fd \<or> fd \<in> fd_of w ` set cs)\<rparr>\<rparr>)"
  using assms
proof (induction cs arbitrary: w)
  case (Cons c cs)
  obtain cl where cl: "clients w c = Some cl" using Cons.prems by (auto simp: walkable_def)
  let ?w = "w\<lparr>sy := (sy w)\<lparr>rd_shut := (rd_shut (sy w))(c_fd cl := True)\<rparr>\<rparr>"
  have f: "fd_of ?w = fd_of w" by (simp add: fd_of_def fun_eq_iff)
  have "walkable ?w (map Some cs)" using Cons.prems by (auto simp: walkable_def)
  from Cons.IH [OF this] have "shutdown_loop (map Some (c # cs)) w
      = Inr (?w\<lparr>sy := (sy ?w)\<lparr>rd_shut := (\<lambda>fd. rd_shut (sy ?w) fd \<or> fd \<in> fd_of w ` set cs)\<rparr>\<rparr>)"
    unfolding f using cl by (simp add: client_get_fd_def)
  also have "(\<lambda>fd. rd_shut (sy ?w) fd \<or> fd \<in> fd_of w ` set cs) = (\<lambda>fd. rd_shut (sy w) fd \<or> fd \<in> fd_of w ` set (c # cs))"
    using cl by (auto simp: fd_of_def fun_eq_iff)
  finally show ?case by simp
qed simp

definition shut_w :: "addr list \<Rightarrow> world \<Rightarrow> world" where
  "shut_w rs w = w\<lparr>creg := map_option (\<lambda>cr. cr\<lparr>cr_no := 1\<rparr>) (creg w),
     sy := (sy w)\<lparr>rd_shut := (\<lambda>fd. rd_shut (sy w) fd \<or> fd \<in> fd_of w ` set rs)\<rparr>\<rparr>"

lemma shutdown_all_ok:
  assumes ok: "server_ok rs w"
  shows "creg_shutdown_all w = Inr (shut_w rs w)" and "server_ok rs (shut_w rs w)"
proof -
  obtain cr where cr: "creg w = Some cr" "\<not> cr_mutex cr" "creg_entries cr = map Some rs"
    using creg_okD [OF server_okD(4) [OF ok]] by blast
  let ?w = "w\<lparr>creg := Some (cr\<lparr>cr_no := 1\<rparr>)\<rparr>"
  have wk: "walkable ?w (map Some rs)" using core_walkable [OF server_okD(1) [OF ok]] by (simp add: walkable_def)
  have f: "fd_of ?w = fd_of w" by (simp add: fd_of_def fun_eq_iff)
  have "?w\<lparr>sy := s\<rparr> = w\<lparr>creg := map_option (\<lambda>cr. cr\<lparr>cr_no := 1\<rparr>) (creg w), sy := s\<rparr>" for s using cr(1) by simp
  then show "creg_shutdown_all w = Inr (shut_w rs w)"
    using cr shutdown_loop_eq [OF wk] unfolding f by (simp add: creg_shutdown_all_def the_creg_def shut_w_def)
  have "server_ok rs ?w" by (rule server_ok_creg [OF ok]) (use server_okD(4) [OF ok] cr(1) in \<open>simp add: creg_ok_def\<close>)
  from server_ok_sys [OF this] coreD(4) [OF server_okD(1) [OF ok]] cr(1) show "server_ok rs (shut_w rs w)"
    by (simp add: shut_w_def)
qed

text \<open>A thread in its loop has a client that is logged in or never was; behind the loop, one that is logged out.\<close>

definition thread_ok :: "world \<Rightarrow> addr \<Rightarrow> thread \<Rightarrow> bool" where
  "thread_ok w c t \<longleftrightarrow> (case t of Serving _ \<Rightarrow> present w c | Leaving \<Rightarrow> \<exists>x fd. who w c = Some (x, CLIENT_LOGGED_OUT, fd))"

lemma thread_ok_simps [simp]:
  "thread_ok w c (Serving f) = present w c"
  "thread_ok w c Leaving = (\<exists>x fd. who w c = Some (x, CLIENT_LOGGED_OUT, fd))"
  by (simp_all add: thread_ok_def)

lemma thread_ok_who: "who w' c = who w c \<Longrightarrow> thread_ok w' c t = thread_ok w c t"
  by (simp add: thread_ok_def present_def split: thread.split)

definition system_ok :: "system \<Rightarrow> bool" where
  "system_ok st \<longleftrightarrow> server_ok (registered (fst st)) (fst st)
     \<and> (\<forall>c \<in> set (registered (fst st)). thread_ok (fst st) c (snd st c))"

lemma system_okI:
  "server_ok rs w \<Longrightarrow> (\<And>c. c \<in> set rs \<Longrightarrow> thread_ok w c (fl c)) \<Longrightarrow> system_ok (w, fl)"
  using registered_eq [OF server_okD(4), of rs w] by (simp add: system_ok_def)

lemma system_okD:
  assumes "system_ok (w, fl)"
  shows "server_ok (registered w) w" and "c \<in> set (registered w) \<Longrightarrow> thread_ok w c (fl c)"
  using assms by (simp_all add: system_ok_def)

text \<open>The threads other than that of \<open>c\<close> do not notice a step that leaves their clients as they are.\<close>

lemma system_ok_move:
  assumes "system_ok (w, fl)" and "server_ok (registered w) w'" and "\<forall>d. d \<noteq> c \<longrightarrow> who w' d = who w d"
    and "thread_ok w' c t"
  shows "system_ok (w', fl(c := t))"
proof (rule system_okI [OF assms(2)])
  show "thread_ok w' d ((fl(c := t)) d)" if "d \<in> set (registered w)" for d
    using assms(3,4) thread_ok_who [of w' d w] system_okD(2) [OF assms(1) that] by (cases "d = c") simp_all
qed

lemma logout_up:
  assumes "\<forall>i v. invs w' i = Some v \<and> i_state v \<noteq> INV_CLOSED_STATE \<longrightarrow> invs w i = Some v \<and> P i v"
  shows "states_up w w'"
  unfolding states_up_def using assms by (metis option.inject order_refl state_order(2))

lemma step_system_ok:
  assumes "system_step F (w, fl) (w', fl')" and ok: "system_ok (w, fl)"
  shows "system_ok (w', fl') \<and> states_up w w'"
  using assms(1)
proof cases
  case (connect fd c)
  note so = system_okD [OF ok]
  obtain cr where cr: "creg w = Some cr" "cr_length cr = int (length (registered w))"
    using creg_okD [OF server_okD(4) [OF so(1)]] by blast
  have "\<not> (int MAX_CLIENTS \<le> cr_length cr \<or> cr_no cr = 1)" using connect register_refused [OF cr(1), of fd] by auto
  then have room: "length (registered w) < MAX_CLIENTS" "cr_no cr \<noteq> 1" using cr(2) by auto
  note r = register_ok [OF so(1) cr(1) room(2,1), of fd]
  have w': "w' = connected_w fd w" "c = next_addr w" using r(1) connect by simp_all
  have "thread_ok w' d (fl' d)" if "d \<in> set (registered w @ [c])" for d
  proof (cases "d = c")
    case True
    then show ?thesis using r(3) w' connect(1) by (simp add: present_def)
  next
    case False
    then have "d \<in> set (registered w)" "who w' d = who w d" "fl' d = fl d" using that r(3) w' connect(1) by simp_all
    then show ?thesis using so(2) thread_ok_who by metis
  qed
  then have "system_ok (w', fl')" using system_okI r(2) w' by blast
  then show ?thesis using w'(1) by (simp add: states_up_same connected_w_def created_w_def)
next
  case (refuse fd)
  note so = system_okD [OF ok]
  obtain cr where cr: "creg w = Some cr" "cr_length cr = int (length (registered w))"
    using creg_okD [OF server_okD(4) [OF so(1)]] by blast
  have "\<not> (length (registered w) < MAX_CLIENTS \<and> cr_no cr \<noteq> 1)"
    using register_ok(1) [OF so(1) cr(1), of fd] refuse by auto
  then have "w' = w" using register_refused [OF cr(1), of fd] cr(2) refuse by auto
  with ok refuse(1) show ?thesis by (simp add: states_up_same)
next
  case (request c f hdr payload f')
  have pr: "present w c" using system_okD(2) [OF ok request(2)] request(3) by simp
  have "server_ok (registered w) w'" "present w' c" "\<forall>d. d \<noteq> c \<longrightarrow> who w' d = who w d" "states_up w w'"
    using dispatch_ok [OF system_okD(1) [OF ok] request(2) pr request(4), of F] request(5) by auto
  then show ?thesis using system_ok_move [OF ok, of w' c "Serving f'"] request(1) by simp
next
  case (quit c f hdr payload f')
  have pr: "present w c" using system_okD(2) [OF ok quit(2)] quit(3) by simp
  have "leaving (registered w) c w'" "\<forall>d. d \<noteq> c \<longrightarrow> who w' d = who w d" "states_up w w'"
    using dispatch_ok [OF system_okD(1) [OF ok] quit(2) pr quit(4), of F] quit(5) by auto
  then show ?thesis using system_ok_move [OF ok, of w' c Leaving] quit(1) by (simp add: leaving_def)
next
  case (hangup c f q)
  have l: "leaving (registered w) c w'" "\<forall>d. d \<noteq> c \<longrightarrow> who w' d = who w d"
      "\<forall>i v. invs w' i = Some v \<and> i_state v \<noteq> INV_CLOSED_STATE \<longrightarrow> invs w i = Some v \<and> c \<noteq> i_source v \<and> c \<noteq> i_target v"
    using logout_leaving [OF system_okD(1) [OF ok] hangup(2), of F] hangup(4) by auto
  then show ?thesis using system_ok_move [OF ok, of w' c Leaving] hangup(1) logout_up [OF l(3)] by (simp add: leaving_def)
next
  case (depart c r)
  have "leaving (registered w) c w" using system_okD [OF ok] depart(2,3) by (fastforce simp: leaving_def)
  then have u: "server_ok (remove1 c (registered w)) w'" "invs w' = invs w" "\<forall>d. d \<noteq> c \<longrightarrow> who w' d = who w d"
    using unregister_ok [of "registered w" c w F] depart(4) by auto
  have "distinct (registered w)" using creg_okD [OF server_okD(4) [OF system_okD(1) [OF ok]]] by blast
  then have "thread_ok w' d (fl d)" if "d \<in> set (remove1 c (registered w))" for d
    using that u(3) thread_ok_who [of w' d w] system_okD(2) [OF ok, of d] by auto
  then show ?thesis using system_okI [OF u(1), of fl] u(2) depart(1) by (simp add: states_up_same)
next
  case shutdown
  let ?rs = "registered w"
  have w': "w' = shut_w ?rs w" using shutdown_all_ok(1) [OF system_okD(1) [OF ok]] shutdown(2) by simp
  have "who w' = who w" "invs w' = invs w" using w' by (simp_all add: shut_w_def)
  then show ?thesis
    using system_okI [OF shutdown_all_ok(2) [OF system_okD(1) [OF ok]], of fl] thread_ok_who [of w' _ w] system_okD(2) [OF ok]
      w' shutdown(1) by (simp add: states_up_same)
next
  case (network s)
  have "server_ok (registered w) w'" using server_ok_sys [OF system_okD(1) [OF ok] network(3)] network(1) by simp
  then show ?thesis using system_okI [of "registered w" w' fl] thread_ok_who [of w' _ w] system_okD(2) [OF ok] network(1,2)
    by (simp add: states_up_same)
qed

text \<open>
  A state machine with an invariant, and a relation between the two sides of a step that may rely
  on the invariant.
\<close>

locale state_machine =
  fixes start :: "'s \<Rightarrow> bool" and step :: "'s \<Rightarrow> 's \<Rightarrow> bool" and ok :: "'s \<Rightarrow> bool"
  assumes ok_start: "start s \<Longrightarrow> ok s"
    and ok_step: "ok s \<Longrightarrow> step s t \<Longrightarrow> ok t"
begin

lemma ok_steps: "step\<^sup>*\<^sup>* s t \<Longrightarrow> ok s \<Longrightarrow> ok t"
  by (induction rule: rtranclp_induct) (auto intro: ok_step)

lemma ok_run: "start s \<Longrightarrow> step\<^sup>*\<^sup>* s t \<Longrightarrow> ok t"
  using ok_steps ok_start by blast

end

locale state_machine_rel = state_machine +
  fixes rel :: "'s \<Rightarrow> 's \<Rightarrow> bool"
  assumes rel_step: "ok s \<Longrightarrow> step s t \<Longrightarrow> rel s t"
begin

lemma rel_run: "start s \<Longrightarrow> step\<^sup>*\<^sup>* s t \<Longrightarrow> step t u \<Longrightarrow> rel t u"
  using ok_run rel_step by blast

end

interpretation srv: state_machine booted "system_step F" system_ok for F
proof
  fix st
  assume "booted st"
  then obtain s where s: "no_oom s" "fst st = main_init (blank_world s)" by (auto simp: booted_def)
  have "server_ok [] (fst st)" unfolding s(2) by (rule main_init_ok [OF s(1)])
  then show "system_ok st" using system_okI [of "[]" "fst st" "snd st"] by simp
next
  fix st st'
  assume "system_ok st" "system_step F st st'"
  then show "system_ok st'" using step_system_ok [of F "fst st" "snd st" "fst st'" "snd st'"] by simp
qed

interpretation srv_rel: state_machine_rel booted "system_step F" system_ok "\<lambda>st st'. states_up (fst st) (fst st')" for F
proof
  fix st st'
  assume "system_ok st" "system_step F st st'"
  then show "states_up (fst st) (fst st')"
    using step_system_ok [of F "fst st" "snd st" "fst st'" "snd st'"] by simp
qed

lemma reachable_system_ok: "reachable F st \<Longrightarrow> system_ok st"
  using srv.ok_run unfolding reachable_def by blast

lemma reachable_ok: "reachable F (w, fl) \<Longrightarrow> server_ok (registered w) w"
  using system_okD(1) [OF reachable_system_ok] by blast

lemma reachable_thread: "reachable F (w, fl) \<Longrightarrow> c \<in> set (registered w) \<Longrightarrow> thread_ok w c (fl c)"
  using system_okD(2) [OF reachable_system_ok] by blast

lemma reachable_states_up: "reachable F st \<Longrightarrow> system_step F st st' \<Longrightarrow> states_up (fst st) (fst st')"
  using srv_rel.rel_run [of _ F st st'] unfolding reachable_def by auto

subsection \<open>Runs with arbitrary requests\<close>

text \<open>
  The machine above serves no request of the unsafe kinds. In this one the service threads serve every
  request they are sent, and a step is labelled with the request: the client, its flag, the header and the payload.
\<close>

type_synonym incident = "(addr \<times> int \<times> JEUX_PACKET_HEADER \<times> string option) option"

inductive server_step :: "fp \<Rightarrow> system \<Rightarrow> incident \<Rightarrow> system \<Rightarrow> bool" for F where
  any_request: "c \<in> set (registered w) \<Longrightarrow> fl c = Serving f \<Longrightarrow> dispatch F c f hdr payload w = Inr ((cont, f'), w') \<Longrightarrow>
    server_step F (w, fl) (Some (c, f, hdr, payload)) (w', fl(c := (if cont then Serving f' else Leaving)))"
| other: "system_step F st st' \<Longrightarrow> server_step F st None st'"

fun unsafe_request :: "system \<Rightarrow> incident \<Rightarrow> bool" where
  "unsafe_request (w, fl) None = False"
| "unsafe_request (w, fl) (Some (c, f, hdr, payload)) = (\<not> safe_request (registered w) c f hdr payload w)"

text \<open>A run from the start of the server: the states it went through, with the label of the step that was taken there.\<close>

inductive run :: "fp \<Rightarrow> (system \<times> incident) list \<Rightarrow> system \<Rightarrow> bool" for F where
  boot: "booted st \<Longrightarrow> run F [] st"
| step: "run F tr st \<Longrightarrow> server_step F st i st' \<Longrightarrow> run F (tr @ [(st, i)]) st'"

lemma server_step_safe:
  assumes "server_step F st i st'" and "\<not> unsafe_request st i"
  shows "system_step F st st'"
  using assms
proof cases
  case (any_request c w fl f hdr payload cont f' w')
  have safe: "safe_request (registered w) c f hdr payload w" using assms(2) any_request(1,2) by simp
  show ?thesis
  proof (cases cont)
    case True
    then show ?thesis using system_step.request [of c w fl, OF any_request(4,5) safe] any_request(1,3,6) by simp
  next
    case False
    then show ?thesis using system_step.quit [of c w fl, OF any_request(4,5) safe] any_request(1,3,6) by simp
  qed
qed

text \<open>Whatever the clients send, a run stays within the reachable states until it serves an unsafe request.\<close>

lemma run_reachable: "run F tr st \<Longrightarrow> reachable F st \<or> (\<exists>(s, i) \<in> set tr. reachable F s \<and> unsafe_request s i)"
proof (induction rule: run.induct)
  case (boot st)
  then show ?case using reachable_def rtranclp.rtrancl_refl by metis
next
  case (step tr st i st')
  then show ?case using server_step_safe [OF step.hyps(2)] reachable_step [of F st st'] by auto
qed

text \<open>The reachable states are the ends of the runs in which no unsafe request is served.\<close>

lemma reachable_iff_run: "reachable F st \<longleftrightarrow> (\<exists>tr. run F tr st \<and> (\<forall>(s, i) \<in> set tr. \<not> unsafe_request s i))"
proof
  assume "reachable F st"
  then obtain s0 where "(system_step F)\<^sup>*\<^sup>* s0 st" "booted s0" by (auto simp: reachable_def)
  then show "\<exists>tr. run F tr st \<and> (\<forall>(s, i) \<in> set tr. \<not> unsafe_request s i)"
  proof (induction rule: rtranclp_induct)
    case base
    then show ?case using run.boot by fastforce
  next
    case (step s t)
    then obtain tr where "run F tr s" "\<forall>(s, i) \<in> set tr. \<not> unsafe_request s i" by blast
    moreover have "\<not> unsafe_request s None" by (cases s) simp
    ultimately show ?case using run.step [OF _ server_step.other [OF step(2)]] by fastforce
  qed
qed (use run_reachable in fastforce)

section \<open>The service of one connection\<close>

lemma recv_spec:
  assumes "no_oom s"
  shows "\<exists>k ret hdr data s'. proto_recv_packet fd h True s = Inr ((ret, hdr, data), s') \<and> in_step fd k s s'
    \<and> (ret = 0 \<or> ret = -1) \<and> (ret = 0 \<longrightarrow> 16 \<le> k \<and> k \<le> length (inp s fd))"
proof -
  obtain k1 r1 s1 where a: "recv_all fd HEADER_SIZE s = ((r1, take k1 (inp s fd)), s1)" "in_step fd k1 s s1"
      "k1 \<le> length (inp s fd)" "if k1 = HEADER_SIZE then r1 = 0 else r1 = -1"
    using recv_all_spec [of fd HEADER_SIZE s] by blast
  have r1: "r1 = 0 \<or> r1 = -1" using a(4) by (auto split: if_splits)
  let ?bs = "take k1 (inp s fd)"
  let ?hdr = "header_of (?bs @ drop (length ?bs) (header_bytes h))"
  show ?thesis
  proof (cases "r1 = -1 \<or> payload_size ?hdr = 0")
    case True
    then show ?thesis using a r1
      by (intro exI [of _ k1] exI [of _ r1] exI [of _ ?hdr] exI [of _ None] exI [of _ s1])
        (auto simp: proto_recv_packet_def HEADER_SIZE_def Let_def split: if_splits)
  next
    case False
    let ?s = "s1\<lparr>res_n := Suc (res_n s1)\<rparr>"
    have no: "no_oom s1" using assms in_step_rd [OF a(2)] by simp
    obtain k2 r2 s2 where b: "recv_all fd (payload_size ?hdr) ?s = ((r2, take k2 (inp ?s fd)), s2)" "in_step fd k2 ?s s2"
        "k2 \<le> length (inp ?s fd)" "if k2 = payload_size ?hdr then r2 = 0 else r2 = -1"
      using recv_all_spec [of fd "payload_size ?hdr" ?s] by blast
    have st: "in_step fd (k1 + k2) s s2" using in_step_add [OF a(2)] b(2) by (simp add: in_step_def)
    have "k1 + k2 \<le> length (inp s fd)" using a(2,3) b(3) by (simp add: in_step_def)
    then show ?thesis using a b no False r1 st
      by (intro exI [of _ "k1 + k2"] exI [of _ r2] exI [of _ ?hdr] exI [of _ "if r2 = -1 then None else Some (take k2 (inp ?s fd))"] exI [of _ s2])
        (auto simp: proto_recv_packet_def HEADER_SIZE_def Let_def split: if_splits)
  qed
qed

text \<open>
  No client is between logging out and unregistering, or only \<open>c\<close> is: while one service thread
  runs, the others are in their loops.
\<close>

definition quiet :: "addr list \<Rightarrow> world \<Rightarrow> bool" where
  "quiet rs w \<longleftrightarrow> server_ok rs w \<and> (\<forall>d \<in> set rs. present w d)"

definition quiet_but :: "addr list \<Rightarrow> addr \<Rightarrow> world \<Rightarrow> bool" where
  "quiet_but rs c w \<longleftrightarrow> leaving rs c w \<and> (\<forall>d \<in> set rs. d \<noteq> c \<longrightarrow> present w d)"

lemma quietD:
  assumes "quiet rs w"
  shows "server_ok rs w" and "c \<in> set rs \<Longrightarrow> present w c"
  using assms by (simp_all add: quiet_def)

lemma quiet_sys: "quiet rs w \<Longrightarrow> no_oom s \<Longrightarrow> quiet rs (w\<lparr>sy := s\<rparr>)"
  using server_ok_sys by (simp add: quiet_def)

lemma present_at: "who w' d = who w d \<Longrightarrow> present w' d = present w d"
  by (simp add: present_def)

lemma quiet_kept:
  assumes "quiet rs w" and "\<forall>d. d \<noteq> c \<longrightarrow> who w' d = who w d"
  shows "server_ok rs w' \<Longrightarrow> present w' c \<Longrightarrow> quiet rs w'" and "leaving rs c w' \<Longrightarrow> quiet_but rs c w'"
  using assms present_at [of w' _ w] unfolding quiet_def quiet_but_def by metis+

lemma quiet_unregister:
  assumes l: "quiet_but rs c w"
  shows "\<exists>cr w'. creg w = Some cr \<and> creg_unregister F (client_unref F) (Some c) w = Inr (0, w')
    \<and> w' = w\<lparr>clients := unreg_clients c w, creg := Some (unreg_creg rs c cr)\<rparr> \<and> quiet (remove1 c rs) w'"
proof -
  have le: "leaving rs c w" and p: "\<forall>d \<in> set rs. d \<noteq> c \<longrightarrow> present w d" using l by (simp_all add: quiet_but_def)
  obtain cr w' where u: "creg w = Some cr" "creg_unregister F (client_unref F) (Some c) w = Inr (0, w')"
      "w' = w\<lparr>clients := unreg_clients c w, creg := Some (unreg_creg rs c cr)\<rparr>" "server_ok (remove1 c rs) w'"
      "\<forall>d. d \<noteq> c \<longrightarrow> who w' d = who w d" using unregister_ok [OF le, of F] by blast
  have "distinct rs" using creg_okD [OF server_okD(4) [OF leaving_server_ok [OF le]]] by blast
  then have "present w' d" if "d \<in> set (remove1 c rs)" for d
    using that p u(5) present_at [of w' d w] by simp
  then show ?thesis using u(1-4) by (simp add: quiet_def)
qed

text \<open>Every request of a registered client is served, or crashes the server in one of two ways.\<close>

lemma invite_any:
  assumes qu: "quiet rs w" and c: "c \<in> set rs"
  shows "served rs w (process_invite F payload c hdr w) \<or> process_invite F payload c hdr w = Inl NullDeref"
proof -
  note ok = quietD(1) [OF qu]
  have on: "online w d" if "called w d n" "d \<in> set rs" for d n
    using that quietD(2) [OF qu, of d] by (auto simp: called_def online_def present_def)
  obtain x l fd where wc: "who w c = Some (x, l, fd)" using core_client [OF server_okD(1) [OF ok] c] by (auto simp: who_def)
  show ?thesis
  proof (cases x)
    case (Some a)
    then show ?thesis using invite_served [OF ok c _ quietD(2) [OF qu c]] wc on by blast
  next
    case None
    show ?thesis
    proof (cases "payload = None \<or> (\<exists>n. payload = Some n \<and> (\<forall>d \<in> set rs. called w d n \<longrightarrow> d = c \<or> roles_of hdr = None))")
      case True
      from invite_refused [OF ok wc True] obtain s where "process_invite F payload c hdr w = Inr (-1, w\<lparr>sy := s\<rparr>)"
          "sent JEUX_NACK_PKT 0 None fd (sy w) s" by blast
      then show ?thesis using server_ok_sy [OF ok] sentD by (simp add: served_def states_up_same)
    next
      case False
      then obtain n d where "payload = Some n" "d \<in> set rs" "called w d n" "roles_of hdr \<noteq> None" by (metis not_None_eq)
      then show ?thesis using invite_crash [OF ok c] wc None by (metis not_None_eq prod.exhaust)
    qed
  qed
qed

lemma dispatch_any:
  assumes qu: "quiet rs w" and c: "c \<in> set rs" and t: "tidy w" "net_up (sy w)"
  shows "(\<exists>cont flag' w'. dispatch F c flag hdr payload w = Inr ((cont, flag'), w') \<and> env_same (sy w) (sy w')
      \<and> (if cont then quiet rs w' else quiet_but rs c w') \<and> tidy w')
    \<or> dispatch F c flag hdr payload w = Inl NullDeref \<or> dispatch F c flag hdr payload w = Inl BufferOverflow"
proof (cases "safe_request rs c flag hdr payload w")
  case True
  obtain cont flag' w' where d: "dispatch F c flag hdr payload w = Inr ((cont, flag'), w')" "env_same (sy w) (sy w')"
      "if cont then server_ok rs w' \<and> present w' c else leaving rs c w' \<and> uint (h_type hdr) = 0"
      "\<forall>d. d \<noteq> c \<longrightarrow> who w' d = who w d" "net_up (sy w) \<and> tidy w \<longrightarrow> tidy w'"
    using dispatch_ok [OF quietD(1) [OF qu] c quietD(2) [OF qu c] True, of F] by (elim exE conjE) (rule that)
  then show ?thesis using t quiet_kept [OF qu d(4)]
    by (intro disjI1 exI [of _ cont] exI [of _ flag'] exI [of _ w']) (simp split: if_splits)
next
  case False
  have "\<not> stale_game w c (uint (h_id hdr))" using t(1) by (auto simp: stale_game_def tidy_def)
  then consider (inv) "flag \<noteq> 0" "uint (h_type hdr) = 3"
    | (users) a where "flag \<noteq> 0" "uint (h_type hdr) = 2" "a \<in> set (players_of w (map Some rs))"
      "\<not> (-999 \<le> rating_of (players w) a \<and> rating_of (players w) a \<le> 9999)"
    using False by (auto simp: safe_request_def Let_def)
  then show ?thesis
  proof cases
    case inv
    from invite_any [OF qu c, of F payload hdr] show ?thesis
    proof (elim disjE)
      assume "served rs w (process_invite F payload c hdr w)"
      then obtain r w' where s: "process_invite F payload c hdr w = Inr (r, w')" "server_ok rs w'" "env_same (sy w) (sy w')"
          "who w' = who w" "net_up (sy w) \<and> tidy w \<longrightarrow> tidy w'" by (auto simp: served_def)
      have "quiet rs w'" using qu s(2) unfolding quiet_def present_who [OF s(4)] by simp
      moreover have "tidy w'" using s(5) t by simp
      moreover have "dispatch F c flag hdr payload w = Inr ((True, flag), w')"
        using s(1) inv by (simp add: dispatch_def guarded_def Let_def)
      ultimately show ?thesis using s(3)
        by (intro disjI1 exI [of _ True] exI [of _ flag] exI [of _ w']) simp
    qed (use inv in \<open>simp add: dispatch_def guarded_def Let_def\<close>)
  next
    case users
    then show ?thesis using users_overflow [OF server_okD(1,4) [OF quietD(1) [OF qu]] users(3,4), of c]
      by (simp add: dispatch_def guarded_def Let_def)
  qed
qed

definition bad_end :: "'a result \<Rightarrow> bool" where
  "bad_end res \<longleftrightarrow> res = Inl NullDeref \<or> res = Inl BufferOverflow"

lemma bad_end_then [simp]: "bad_end m \<Longrightarrow> bad_end (and_then m f)"
  by (auto simp: bad_end_def)

lemma service_step_ok:
  assumes qu: "quiet rs w" and c: "c \<in> set rs" and t: "tidy w" "net_up (sy w)"
  shows "(\<exists>cont flag' w'. service_step F c fd flag w = Inr ((cont, flag'), w') \<and> tidy w' \<and> net_up (sy w')
      \<and> (if cont then quiet rs w' \<and> length (inp (sy w') fd) < length (inp (sy w) fd) else quiet_but rs c w'))
    \<or> bad_end (service_step F c fd flag w)"
proof -
  note ok = quietD(1) [OF qu]
  obtain k ret hdr data s where r: "proto_recv_packet fd zero_header True (sy w) = Inr ((ret, hdr, data), s)"
      "in_step fd k (sy w) s" "ret = 0 \<or> ret = -1" "ret = 0 \<longrightarrow> 16 \<le> k \<and> k \<le> length (inp (sy w) fd)"
    using recv_spec [OF coreD(4) [OF server_okD(1) [OF ok]], of fd zero_header] by blast
  let ?w = "w\<lparr>sy := s\<rparr>"
  have no: "no_oom s" "net_up s" using in_step_rd [OF r(2)] coreD(4) [OF server_okD(1) [OF ok]] r(2) t(2)
    by (simp_all add: in_step_def net_up_def)
  have ok': "quiet rs ?w" "tidy ?w" using quiet_sys [OF qu no(1)] t(1) by simp_all
  show ?thesis
  proof (cases "ret = -1")
    case True
    obtain q w' where l: "client_logout F (client_unref F) c ?w = Inr (q, w')" "leaving rs c w'" "env_same (sy ?w) (sy w')"
        "\<forall>d. d \<noteq> c \<longrightarrow> who w' d = who ?w d" "net_up (sy ?w) \<and> tidy ?w \<longrightarrow> tidy w'"
      using logout_leaving [OF quietD(1) [OF ok'(1)] c, of F] by (elim exE conjE) (rule that)
    have "net_up (sy w')" "tidy w'" using l(3,5) no(2) ok'(2) env_same_net_up [OF l(3)] by simp_all
    then show ?thesis using r(1) True l(1) quiet_kept(2) [OF ok'(1) l(4,2)]
      by (intro disjI1 exI [of _ False] exI [of _ flag] exI [of _ w']) (simp add: service_step_def)
  next
    case False
    then have "16 \<le> k" "k \<le> length (inp (sy w) fd)" using r(3,4) by auto
    then have lt: "length (inp s fd) < length (inp (sy w) fd)" using r(2) by (simp add: in_step_def)
    let ?w2 = "case data of None \<Rightarrow> ?w | Some _ \<Rightarrow> ?w\<lparr>sy := s\<lparr>res_n := Suc (res_n s)\<rparr>\<rparr>"
    let ?p = "map_option (payload_str hdr) data"
    have ok2: "quiet rs ?w2" "tidy ?w2" "net_up (sy ?w2)" "inp (sy ?w2) = inp s"
      using ok' no quiet_sys [OF qu, of "s\<lparr>res_n := Suc (res_n s)\<rparr>"] by (cases data; simp)+
    have e: "service_step F c fd flag w = dispatch F c flag hdr ?p ?w2"
      using r(1) False no(1) by (cases data) (simp_all add: service_step_def must_alloc_ok)
    from dispatch_any [OF ok2(1) c ok2(2,3), of F flag hdr ?p] show ?thesis
    proof (elim disjE exE conjE)
      fix cont flag' w'
      assume d: "dispatch F c flag hdr ?p ?w2 = Inr ((cont, flag'), w')" "env_same (sy ?w2) (sy w')"
        "if cont then quiet rs w' else quiet_but rs c w'" "tidy w'"
      have "net_up (sy w')" "inp (sy w') = inp s" using d(2) ok2(3,4) env_same_net_up [OF d(2)] by (simp_all add: env_same_def)
      then show ?thesis using d e lt by (intro disjI1 exI [of _ cont] exI [of _ flag'] exI [of _ w']) auto
    qed (simp_all add: e bad_end_def)
  qed
qed

lemma service_loop_ok:
  assumes "quiet rs w" and c: "c \<in> set rs" and "tidy w" "net_up (sy w)" and "length (inp (sy w) fd) < k"
  shows "(\<exists>w'. service_loop k F c fd flag w = Inr w' \<and> quiet_but rs c w' \<and> tidy w' \<and> net_up (sy w'))
    \<or> bad_end (service_loop k F c fd flag w)"
  using assms(1,3-5)
proof (induction k arbitrary: flag w)
  case (Suc k)
  from service_step_ok [OF Suc.prems(1) c Suc.prems(2,3), of F fd flag] show ?case
  proof (elim disjE exE conjE)
    fix cont flag' w'
    assume d: "service_step F c fd flag w = Inr ((cont, flag'), w')" "tidy w'" "net_up (sy w')"
      "if cont then quiet rs w' \<and> length (inp (sy w') fd) < length (inp (sy w) fd) else quiet_but rs c w'"
    show ?case
    proof (cases cont)
      case True
      then show ?thesis using d Suc.IH [of w' flag'] Suc.prems(4) by simp
    next
      case False
      then show ?thesis using d by simp
    qed
  qed simp
qed simp

lemma client_service_ok:
  assumes qu: "quiet rs w" and t: "tidy w" "net_up (sy w)" and fd: "0 \<le> connfd"
  shows "(\<exists>w'. jeux_client_service F connfd w = Inr w' \<and> quiet rs w' \<and> tidy w')
    \<or> bad_end (jeux_client_service F connfd w)"
proof -
  note ok = quietD(1) [OF qu]
  have close: "\<exists>w'. Close connfd v = Inr w' \<and> quiet rs w' \<and> tidy w'" if "quiet rs v" "tidy v" for v
    using that fd coreD(4) [OF server_okD(1) [OF quietD(1) [OF that(1)]]] quiet_sys [OF that(1)]
    by (simp add: Close_def request_w_ok)
  obtain cr where cr: "creg w = Some cr" "cr_length cr = int (length rs)" and len: "length rs \<le> MAX_CLIENTS"
    using creg_okD [OF server_okD(4) [OF ok]] by blast
  show ?thesis
  proof (cases "length rs < MAX_CLIENTS \<and> cr_no cr \<noteq> 1")
    case False
    then have "creg_register connfd w = Inr (None, w)" using register_refused [OF cr(1)] cr(2) by auto
    then show ?thesis using close [OF qu t(1)] by (auto simp: jeux_client_service_def)
  next
    case True
    let ?c = "next_addr w" and ?w = "connected_w connfd w"
    note r = register_ok [OF ok cr(1) conjunct2 [OF True] conjunct1 [OF True], of connfd]
    have t1: "tidy ?w" "net_up (sy ?w)" using t by (simp_all add: tidy_def connected_w_def created_w_def)
    have fr: "?c \<notin> set rs" using fresh_client(3) [OF coreD(1) [OF server_okD(1) [OF ok]]] .
    have c: "?c \<in> set (rs @ [?c])" "length (inp (sy ?w) connfd) < rounds connfd ?w" by (simp_all add: rounds_def)
    have "present ?w d" if "d \<in> set (rs @ [?c])" for d
      using that quietD(2) [OF qu, of d] unfolding present_def r(3) by auto
    then have "quiet (rs @ [?c]) ?w" using r(2) by (simp add: quiet_def)
    from service_loop_ok [OF this c(1) t1 c(2), of F 0] show ?thesis
    proof (elim disjE exE conjE)
      fix w'
      assume l: "service_loop (rounds connfd ?w) F ?c connfd 0 ?w = Inr w'" "quiet_but (rs @ [?c]) ?c w'" "tidy w'"
      obtain cr' where u: "creg_unregister F (client_unref F) (Some ?c) w'
            = Inr (0, w'\<lparr>clients := unreg_clients ?c w', creg := Some (unreg_creg (rs @ [?c]) ?c cr')\<rparr>)"
          "quiet (remove1 ?c (rs @ [?c])) (w'\<lparr>clients := unreg_clients ?c w', creg := Some (unreg_creg (rs @ [?c]) ?c cr')\<rparr>)"
        using quiet_unregister [OF l(2), of F] by blast
      have e: "remove1 ?c (rs @ [?c]) = rs" using fr by (simp add: remove1_append)
      from close [OF u(2) [unfolded e]] l(1,3) u(1) r(1) show ?thesis by (simp add: jeux_client_service_def)
    qed (simp add: r(1) jeux_client_service_def)
  qed
qed

text \<open>On a descriptor that is not one, nothing is received, and closing it fails.\<close>

lemma service_bad_fd:
  assumes ok: "server_ok rs w" and fd: "fd < 0" "inp (sy w) fd = []"
  shows "jeux_client_service F fd w = Inl (Exited 0)"
proof -
  have close: "Close fd v = Inl (Exited 0)" for v using fd(1) by (simp add: Close_def split_beta)
  obtain cr where cr: "creg w = Some cr" "cr_length cr = int (length rs)" "length rs \<le> MAX_CLIENTS"
    using creg_okD [OF server_okD(4) [OF ok]] by blast
  show ?thesis
  proof (cases "length rs < MAX_CLIENTS \<and> cr_no cr \<noteq> 1")
    case False
    then have "creg_register fd w = Inr (None, w)" using register_refused [OF cr(1)] cr(2) by auto
    then show ?thesis using close by (simp add: jeux_client_service_def)
  next
    case True
    let ?c = "next_addr w" and ?w = "connected_w fd w"
    note r = register_ok [OF ok cr(1) conjunct2 [OF True] conjunct1 [OF True], of fd]
    have nil: "inp (sy ?w) fd = []" using fd(2) by (simp add: connected_w_def created_w_def)
    obtain k hdr data s where rc: "proto_recv_packet fd zero_header True (sy ?w) = Inr ((-1, hdr, data), s)" "in_step fd k (sy ?w) s"
      using recv_spec [OF coreD(4) [OF server_okD(1) [OF r(2)]], of fd zero_header] nil by auto
    have ok': "server_ok (rs @ [?c]) (?w\<lparr>sy := s\<rparr>)"
      using server_ok_sys [OF r(2)] in_step_rd [OF rc(2)] coreD(4) [OF server_okD(1) [OF r(2)]] rc(2) by (simp add: in_step_def)
    obtain q w1 where l: "client_logout F (client_unref F) ?c (?w\<lparr>sy := s\<rparr>) = Inr (q, w1)" "leaving (rs @ [?c]) ?c w1"
      using logout_leaving [OF ok', of ?c F] by auto
    obtain w2 where "creg_unregister F (client_unref F) (Some ?c) w1 = Inr (0, w2)" using unregister_ok [OF l(2), of F] by blast
    then show ?thesis using r(1) rc(1) l(1) nil close by (simp add: jeux_client_service_def rounds_def service_step_def)
  qed
qed

section \<open>Termination\<close>

text \<open>A thread whose descriptor is shut down receives nothing more: it logs its client out and ends.\<close>

lemma recv_shut:
  assumes "rd_shut s fd"
  shows "\<exists>hdr s'. proto_recv_packet fd h True s = Inr ((-1, hdr, None), s') \<and> in_step fd 0 s s'"
proof -
  obtain k r s' where a: "read_fd fd HEADER_SIZE s = ((r, []), s')" "r \<le> 0" "in_step fd 0 s s'"
    using assms by (cases "rd_ans s (rd_n s) < 0") (auto simp: read_fd_def in_step_def Let_def)
  then have "recv_all fd HEADER_SIZE s = ((-1, []), s')"
    by (subst recv_all.simps) (simp add: HEADER_SIZE_def)
  with a(3) show ?thesis by (simp add: proto_recv_packet_def)
qed

lemma in_step_simps: "in_step fd k s t \<Longrightarrow> no_oom t = no_oom s" "in_step fd k s t \<Longrightarrow> rd_shut t = rd_shut s"
  by (simp_all add: in_step_def no_oom_def)

lemma last_round_ok:
  assumes ok: "server_ok rs w" and c: "c \<in> set rs" and sh: "rd_shut (sy w) (fd_of w c)"
  shows "\<exists>w'. service_loop 1 F c (fd_of w c) f w = Inr w' \<and> leaving rs c w' \<and> rd_shut (sy w') = rd_shut (sy w)
    \<and> (\<forall>d. d \<noteq> c \<longrightarrow> who w' d = who w d) \<and> creg w' = creg w"
proof -
  obtain hdr s where r: "proto_recv_packet (fd_of w c) zero_header True (sy w) = Inr ((-1, hdr, None), s)"
      "in_step (fd_of w c) 0 (sy w) s"
    using recv_shut [OF sh, of zero_header] by blast
  let ?w = "w\<lparr>sy := s\<rparr>"
  have ok': "server_ok rs ?w"
    using server_ok_sys [OF ok] in_step_simps(1) [OF r(2)] coreD(4) [OF server_okD(1) [OF ok]] by simp
  obtain q w1 where l: "client_logout F (client_unref F) c ?w = Inr (q, w1)" "leaving rs c w1" "env_same s (sy w1)"
      "\<forall>d. d \<noteq> c \<longrightarrow> who w1 d = who w d" "creg w1 = creg w"
    using logout_leaving [OF ok' c, of F] by auto
  have "service_loop 1 F c (fd_of w c) f w = Inr w1" using r(1) l(1) by (simp add: service_step_def)
  then show ?thesis using l(2-5) in_step_simps(2) [OF r(2)] by (auto simp: env_same_def)
qed

text \<open>
  The steps of the service threads during a shutdown, in any order: a thread in its loop goes once more
  round it and leaves it; a thread behind its loop unregisters its client.
\<close>

inductive closing :: "fp \<Rightarrow> system \<Rightarrow> system \<Rightarrow> bool" for F where
  end_loop: "c \<in> set (registered w) \<Longrightarrow> fl c = Serving f \<Longrightarrow> service_loop 1 F c (fd_of w c) f w = Inr w' \<Longrightarrow>
    closing F (w, fl) (w', fl(c := Leaving))"
| unregister: "c \<in> set (registered w) \<Longrightarrow> fl c = Leaving \<Longrightarrow>
    creg_unregister F (client_unref F) (Some c) w = Inr (r, w') \<Longrightarrow> closing F (w, fl) (w', fl)"

text \<open>During a shutdown no thread in its loop can receive any more. What remains to be done can be counted.\<close>

definition shutting :: "system \<Rightarrow> bool" where
  "shutting st \<longleftrightarrow> system_ok st
     \<and> (\<forall>c f. c \<in> set (registered (fst st)) \<and> snd st c = Serving f \<longrightarrow> rd_shut (sy (fst st)) (fd_of (fst st) c))"

definition to_go :: "system \<Rightarrow> nat" where
  "to_go st = (\<Sum>c \<in> set (registered (fst st)). case snd st c of Serving _ \<Rightarrow> 2 | Leaving \<Rightarrow> 1)"

lemma fd_of_who: "who w' d = who w d \<Longrightarrow> clients w d \<noteq> None \<Longrightarrow> fd_of w' d = fd_of w d"
  by (auto simp: who_def fd_of_def)

lemma registered_live:
  assumes "server_ok (registered w) w" and "d \<in> set (registered w)"
  shows "clients w d \<noteq> None"
  using core_client [OF server_okD(1) [OF assms(1)] assms(2)] by auto

lemma closing_step:
  assumes "shutting st" and "closing F st st'"
  shows "shutting st' \<and> to_go st' < to_go st"
  using assms(2)
proof cases
  case (end_loop c w fl f w')
  have ok: "system_ok (w, fl)" and sh: "\<forall>d f. d \<in> set (registered w) \<and> fl d = Serving f \<longrightarrow> rd_shut (sy w) (fd_of w d)"
    using assms(1) end_loop(1) by (simp_all add: shutting_def)
  obtain w1 where w1: "service_loop 1 F c (fd_of w c) f w = Inr w1" "leaving (registered w) c w1" "rd_shut (sy w1) = rd_shut (sy w)"
      "\<forall>d. d \<noteq> c \<longrightarrow> who w1 d = who w d"
    using last_round_ok [OF system_okD(1) [OF ok] end_loop(3)] sh end_loop(3,4) by blast
  then have l: "leaving (registered w) c w'" "rd_shut (sy w') = rd_shut (sy w)" "\<forall>d. d \<noteq> c \<longrightarrow> who w' d = who w d"
    using end_loop(5) by simp_all
  have rg: "registered w' = registered w" using registered_eq [OF server_okD(4) [OF leaving_server_ok [OF l(1)]]] .
  have "system_ok (w', fl(c := Leaving))"
    using system_ok_move [OF ok leaving_server_ok [OF l(1)] l(3)] l(1) by (simp add: leaving_def)
  moreover have "rd_shut (sy w') (fd_of w' d)" if "d \<in> set (registered w)" "(fl(c := Leaving)) d = Serving g" for d g
  proof -
    have d: "d \<noteq> c" "fl d = Serving g" using that(2) by (auto split: if_splits)
    then have "fd_of w' d = fd_of w d" using fd_of_who l(3) registered_live [OF system_okD(1) [OF ok] that(1)] by blast
    then show ?thesis using sh that(1) d(2) l(2) by simp
  qed
  ultimately have "shutting st'" using end_loop(2) rg by (simp add: shutting_def)
  moreover have "to_go st' < to_go st"
    unfolding to_go_def end_loop(1,2) fst_conv snd_conv rg
    by (rule sum_strict_mono_ex1) (use end_loop(3,4) in \<open>auto split: thread.split\<close>)
  ultimately show ?thesis ..
next
  case (unregister c w fl r w')
  have ok: "system_ok (w, fl)" and sh: "\<forall>d f. d \<in> set (registered w) \<and> fl d = Serving f \<longrightarrow> rd_shut (sy w) (fd_of w d)"
    using assms(1) unregister(1) by (simp_all add: shutting_def)
  have l: "leaving (registered w) c w" using system_okD [OF ok] unregister(3,4) by (fastforce simp: leaving_def)
  have u: "server_ok (remove1 c (registered w)) w'" "sy w' = sy w" "\<forall>d. d \<noteq> c \<longrightarrow> who w' d = who w d"
    using unregister_ok [OF l, of F] unregister(5) by auto
  have rg: "registered w' = remove1 c (registered w)" using registered_eq [OF server_okD(4) [OF u(1)]] .
  have di: "distinct (registered w)" using creg_okD [OF server_okD(4) [OF system_okD(1) [OF ok]]] by blast
  have "system_ok (w', fl)" using step_system_ok [OF system_step.depart [of c w fl, OF unregister(3-5)] ok] by simp
  moreover have "rd_shut (sy w') (fd_of w' d)" if "d \<in> set (remove1 c (registered w))" "fl d = Serving g" for d g
  proof -
    have d: "d \<noteq> c" "d \<in> set (registered w)" using that(1) di by auto
    then have "fd_of w' d = fd_of w d" using fd_of_who u(3) registered_live [OF system_okD(1) [OF ok]] by blast
    then show ?thesis using sh that(2) d(2) u(2) by simp
  qed
  ultimately have "shutting st'" using unregister(2) rg by (simp add: shutting_def)
  moreover have "to_go st' < to_go st"
    unfolding to_go_def unregister(1,2) fst_conv snd_conv rg set_remove1_eq [OF di]
    by (rule sum_strict_mono2) (use unregister(3,4) in auto)
  ultimately show ?thesis ..
qed

lemma closing_progress:
  assumes "shutting (w, fl)" and "registered w \<noteq> []"
  shows "\<exists>st. closing F (w, fl) st"
proof -
  have ok: "system_ok (w, fl)" using assms(1) by (simp add: shutting_def)
  obtain c where c: "c \<in> set (registered w)" using assms(2) by (cases "registered w") auto
  show ?thesis
  proof (cases "fl c")
    case (Serving f)
    then have "rd_shut (sy w) (fd_of w c)" using assms(1) c by (simp add: shutting_def)
    then show ?thesis using last_round_ok [OF system_okD(1) [OF ok] c] closing.end_loop [of c w fl, OF c Serving] by blast
  next
    case Leaving
    have "leaving (registered w) c w" using system_okD [OF ok] c Leaving by (fastforce simp: leaving_def)
    then show ?thesis using unregister_ok closing.unregister [of c w fl, OF c Leaving] by blast
  qed
qed

text \<open>A state machine in which every step leaves less to do makes no more steps than there was to do.\<close>

locale bounded_machine = state_machine +
  fixes mu :: "'s \<Rightarrow> nat"
  assumes mu_step: "ok s \<Longrightarrow> step s t \<Longrightarrow> mu t < mu s"
begin

lemma run_bound: "(step ^^ n) s t \<Longrightarrow> ok s \<Longrightarrow> ok t \<and> n + mu t \<le> mu s"
proof (induction n arbitrary: t)
  case (Suc n)
  then obtain u where "(step ^^ n) s u" "step u t" by auto
  then show ?case using Suc.IH [of u] Suc.prems(2) mu_step [of u t] ok_step [of u t] by fastforce
qed simp

lemma run_end:
  assumes progress: "\<And>s. ok s \<Longrightarrow> \<not> final s \<Longrightarrow> \<exists>t. step s t"
  shows "ok s \<Longrightarrow> \<exists>n t. (step ^^ n) s t \<and> final t"
proof (induction "mu s" arbitrary: s rule: less_induct)
  case less
  show ?case
  proof (cases "final s")
    case True
    then show ?thesis by (intro exI [of _ 0] exI [of _ s]) simp
  next
    case False
    then obtain u where u: "step s u" using progress less.prems by blast
    then obtain n t where "(step ^^ n) u t" "final t" using less mu_step ok_step by blast
    then show ?thesis using relpowp_Suc_I2 [of step s u n t] u by blast
  qed
qed

end

interpretation closing: bounded_machine shutting "closing F" shutting to_go for F
  by unfold_locales (use closing_step in blast)+

lemma to_go_le: "to_go (w, fl) \<le> 2 * length (registered w)"
proof -
  have "to_go (w, fl) \<le> (\<Sum>c \<in> set (registered w). 2)"
    unfolding to_go_def fst_conv snd_conv by (rule sum_mono) (simp split: thread.split)
  also have "\<dots> \<le> 2 * length (registered w)" by (simp add: card_length)
  finally show ?thesis .
qed

lemma shutting_start:
  assumes ok: "system_ok (w, fl)"
  shows "shutting (shut_w (registered w) w, fl)" and "registered (shut_w (registered w) w) = registered w"
proof -
  let ?w = "shut_w (registered w) w"
  note s = shutdown_all_ok(2) [OF system_okD(1) [OF ok]]
  show r: "registered ?w = registered w" using registered_eq [OF server_okD(4) [OF s]] .
  have "who ?w = who w" by (simp add: shut_w_def)
  then have "system_ok (?w, fl)" using system_okI [OF s, of fl] thread_ok_who [of ?w _ w] system_okD(2) [OF ok] by simp
  then show "shutting (?w, fl)" unfolding shutting_def fst_conv r by (simp add: shut_w_def fd_of_def)
qed

subsection \<open>The wait of the main thread\<close>

text \<open>
  The main thread calls \<open>creg_wait_for_empty\<close> right after the shutdown and while the service threads are at
  work. The call returns at once, or the semaphore blocks it. A blocked thread does not look at the registry
  again: it returns when it can take the semaphore.
\<close>

datatype waiter = Calling | Blocked | Returned

inductive terminating :: "fp \<Rightarrow> system \<times> waiter \<Rightarrow> system \<times> waiter \<Rightarrow> bool" for F where
  service: "closing F st st' \<Longrightarrow> terminating F (st, m) (st', m)"
| returns: "creg_wait_for_empty w = Inr w' \<Longrightarrow> terminating F ((w, fl), Calling) ((w', fl), Returned)"
| blocks: "creg_wait_for_empty w = Inl Deadlock \<Longrightarrow> terminating F ((w, fl), Calling) ((w, fl), Blocked)"
| wakes: "creg_sem_wait w = Inr w' \<Longrightarrow> terminating F ((w, fl), Blocked) ((w', fl), Returned)"

definition sem_of :: "world \<Rightarrow> nat" where
  "sem_of w = (case creg w of None \<Rightarrow> 0 | Some cr \<Rightarrow> cr_sem cr)"

definition with_sem :: "nat \<Rightarrow> world \<Rightarrow> world" where
  "with_sem v w = w\<lparr>creg := map_option (\<lambda>cr. cr\<lparr>cr_sem := v\<rparr>) (creg w)\<rparr>"

lemma wait_eqs:
  assumes "system_ok (w, fl)"
  shows "creg_sem_wait w = (if sem_of w = 0 then Inl Deadlock else Inr (with_sem (sem_of w - 1) w))"
    and "creg_wait_for_empty w = (if registered w = [] then Inr w else creg_sem_wait w)"
proof -
  obtain cr where "creg w = Some cr" "cr_length cr = int (length (registered w))"
    using creg_okD [OF server_okD(4) [OF system_okD(1) [OF assms]]] by blast
  then show "creg_sem_wait w = (if sem_of w = 0 then Inl Deadlock else Inr (with_sem (sem_of w - 1) w))"
      "creg_wait_for_empty w = (if registered w = [] then Inr w else creg_sem_wait w)"
    by (simp_all add: creg_sem_wait_def creg_wait_for_empty_def the_creg_def sem_of_def with_sem_def sem_wait_def)
qed

lemma with_sem_shutting:
  assumes "shutting (w, fl)"
  shows "shutting (with_sem v w, fl)" and "registered (with_sem v w) = registered w"
proof -
  have ok: "system_ok (w, fl)" using assms by (simp add: shutting_def)
  show r: "registered (with_sem v w) = registered w"
    by (simp add: registered_def with_sem_def creg_entries_def split: option.split)
  have "server_ok (registered w) (with_sem v w)"
    unfolding with_sem_def by (rule server_ok_creg [OF system_okD(1) [OF ok]])
      (use server_okD(4) [OF system_okD(1) [OF ok]] in \<open>auto simp: creg_ok_def split: option.splits\<close>)
  moreover have "who (with_sem v w) = who w" by (simp add: with_sem_def)
  ultimately have "system_ok (with_sem v w, fl)"
    using system_okI [of "registered w" _ fl] thread_ok_who [of "with_sem v w" _ w] system_okD(2) [OF ok] by simp
  then show "shutting (with_sem v w, fl)" using assms r by (simp add: shutting_def with_sem_def fd_of_def)
qed

text \<open>The semaphore is posted by the step that empties the registry, and by no other.\<close>

lemma closing_sem:
  assumes "shutting (w, fl)" and "closing F (w, fl) (w', fl')"
  shows "registered w \<noteq> [] \<and> sem_of w' = (if registered w' = [] then Suc (sem_of w) else sem_of w)"
  using assms(2)
proof cases
  case (end_loop c f)
  have ok: "system_ok (w, fl)" and sh: "rd_shut (sy w) (fd_of w c)" using assms(1) end_loop(2,3) by (simp_all add: shutting_def)
  have "creg w' = creg w" using last_round_ok [OF system_okD(1) [OF ok] end_loop(2) sh, of F f] end_loop(4) by auto
  then have "registered w' = registered w" "sem_of w' = sem_of w" by (simp_all add: registered_def sem_of_def)
  then show ?thesis using end_loop(2) by auto
next
  case (unregister c r)
  have ok: "system_ok (w, fl)" using assms(1) by (simp add: shutting_def)
  have l: "leaving (registered w) c w" using system_okD [OF ok] unregister(2,3) by (fastforce simp: leaving_def)
  obtain cr where cr: "creg w = Some cr" "creg w' = Some (unreg_creg (registered w) c cr)" "server_ok (remove1 c (registered w)) w'"
    using unregister_ok [OF l, of F] unregister(4) by auto
  have "registered w' = remove1 c (registered w)" using registered_eq [OF server_okD(4) [OF cr(3)]] .
  moreover have "remove1 c (registered w) = [] \<longleftrightarrow> registered w = [c]"
    using unregister(2) by (cases "registered w") auto
  moreover have "sem_of w' = (if registered w = [c] then Suc (sem_of w) else sem_of w)"
    using unreg_creg_ok(2) [OF server_okD(4) [OF system_okD(1) [OF ok]] cr(1) unregister(2)] cr(1,2) by (simp add: sem_of_def)
  ultimately show ?thesis using unregister(2) by auto
qed

text \<open>
  A blocked main thread is woken: the registry is not empty yet, or the semaphore has been posted. If it was
  not posted before the shutdown, the main thread returns to an empty registry.
\<close>

definition waiting_ok :: "bool \<Rightarrow> system \<times> waiter \<Rightarrow> bool" where
  "waiting_ok fresh x \<longleftrightarrow> (case x of ((w, fl), m) \<Rightarrow> shutting (w, fl) \<and> (m = Blocked \<and> registered w = [] \<longrightarrow> sem_of w \<noteq> 0)
     \<and> (fresh \<longrightarrow> (if m = Returned then registered w = [] else registered w \<noteq> [] \<longrightarrow> sem_of w = 0)))"

definition to_wait :: "system \<times> waiter \<Rightarrow> nat" where
  "to_wait x = to_go (fst x) + (case snd x of Calling \<Rightarrow> 2 | Blocked \<Rightarrow> 1 | Returned \<Rightarrow> 0)"

lemma with_sem_to_go: "to_go (with_sem v w, fl) = to_go (w, fl)"
  by (simp add: to_go_def registered_def with_sem_def creg_entries_def split: option.split)

lemma terminating_step:
  assumes "waiting_ok z x" and "terminating F x y"
  shows "waiting_ok z y \<and> to_wait y < to_wait x"
  using assms(2)
proof cases
  case (service st st' m)
  obtain w fl w' fl' where st: "st = (w, fl)" "st' = (w', fl')" by fastforce
  have sh: "shutting (w, fl)" using assms(1) service(1) st by (simp add: waiting_ok_def)
  have c: "closing F (w, fl) (w', fl')" using service(3) st by simp
  show ?thesis
    using closing_step [OF sh c] closing_sem [OF sh c] assms(1) unfolding service(1,2) st
    by (auto simp: waiting_ok_def to_wait_def split: if_splits)
next
  case (returns w w' fl)
  have sh: "shutting (w, fl)" using assms(1) returns(1) by (simp add: waiting_ok_def)
  note e = wait_eqs [of w fl]
  show ?thesis using assms(1) returns(3) sh with_sem_shutting [OF sh] e unfolding returns(1,2)
    by (auto simp: waiting_ok_def to_wait_def with_sem_to_go shutting_def split: if_splits)
next
  case (blocks w fl)
  have sh: "shutting (w, fl)" using assms(1) blocks(1) by (simp add: waiting_ok_def)
  then have "registered w \<noteq> []" using blocks(3) wait_eqs(2) [of w fl] by (auto simp: shutting_def)
  then show ?thesis using assms(1) unfolding blocks(1,2) by (simp add: waiting_ok_def to_wait_def)
next
  case (wakes w w' fl)
  have sh: "shutting (w, fl)" using assms(1) wakes(1) by (simp add: waiting_ok_def)
  then have w': "w' = with_sem (sem_of w - 1) w" "sem_of w \<noteq> 0"
    using wakes(3) wait_eqs(1) [of w fl] by (auto simp: shutting_def split: if_splits)
  show ?thesis using assms(1) w'(2) with_sem_shutting [OF sh] unfolding wakes(1,2) w'(1)
    by (auto simp: waiting_ok_def to_wait_def with_sem_to_go)
qed

interpretation terminating: bounded_machine "waiting_ok z" "terminating F" "waiting_ok z" to_wait for z F
  by unfold_locales (use terminating_step in blast)+

lemma terminating_progress:
  assumes "waiting_ok z ((w, fl), m)" and "\<not> (registered w = [] \<and> m = Returned)"
  shows "\<exists>y. terminating F ((w, fl), m) y"
proof (cases "registered w = []")
  case False
  then show ?thesis using closing_progress [of w fl F] assms(1) terminating.service by (fastforce simp: waiting_ok_def)
next
  case True
  have ok: "system_ok (w, fl)" using assms(1) by (simp add: waiting_ok_def shutting_def)
  show ?thesis
  proof (cases m)
    case Calling
    then show ?thesis using wait_eqs(2) [OF ok] True terminating.returns [of w w F fl] by auto
  next
    case Blocked
    then show ?thesis using wait_eqs(1) [OF ok] True assms(1) terminating.wakes [of w _ F fl] by (auto simp: waiting_ok_def)
  qed (use assms(2) True in simp)
qed

lemma terminating_ends:
  assumes "waiting_ok z x"
  shows "\<exists>n w fl. (terminating F ^^ n) x ((w, fl), Returned) \<and> registered w = []"
proof -
  let ?final = "\<lambda>x. registered (fst (fst x)) = [] \<and> snd x = Returned"
  have "\<exists>t. terminating F s t" if "waiting_ok z s" "\<not> ?final s" for s
    using terminating_progress [of z "fst (fst s)" "snd (fst s)" "snd s" F] that by simp
  from terminating.run_end [where final = ?final, OF this assms] show ?thesis by fastforce
qed

lemma preg_fini_loop_ok:
  "distinct as \<Longrightarrow> \<forall>a \<in> set as. \<exists>n. whose w a = Some (n, 1, False) \<Longrightarrow>
     preg_fini_loop as w = Inr (w\<lparr>players := (\<lambda>a. if a \<in> set as then None else players w a)\<rparr>)"
proof (induction as arbitrary: w)
  case (Cons a as)
  obtain p where p: "players w a = Some p" "p_ref_count p = 1" "\<not> p_mutex p" using Cons.prems(2) by (auto simp: whose_def)
  let ?w = "w\<lparr>players := (players w)(a := None)\<rparr>"
  have un: "player_unref_w a w = Inr ?w" using p by (simp add: player_unref_w_def)
  have "\<forall>b \<in> set as. \<exists>n. whose ?w b = Some (n, 1, False)" using Cons.prems by (auto simp: whose_def)
  then have "preg_fini_loop as ?w = Inr (?w\<lparr>players := (\<lambda>b. if b \<in> set as then None else players ?w b)\<rparr>)"
    using Cons.IH [of ?w] Cons.prems(1) by simp
  moreover have "(\<lambda>b. if b \<in> set as then None else players ?w b) = (\<lambda>b. if b \<in> set (a # as) then None else players w b)"
    by auto
  ultimately show ?case using un by simp
qed simp

lemma idle_end:
  assumes ok: "server_ok [] w"
  shows "\<exists>w'. and_then (creg_fini w) preg_fini = Inr w' \<and> creg w' = None \<and> preg w' = None
    \<and> (\<forall>a \<in> ran (preg_names w). players w' a = None)"
proof -
  obtain cr where cr: "creg w = Some cr" "cr_length cr = 0" using creg_okD [OF server_okD(4) [OF ok]] by auto
  note po = server_okD(2) [OF ok]
  obtain pr where pr: "preg w = Some pr" using preg_ok_Some [OF players_okD(1) [OF po]] by blast
  note d = preg_okD [OF players_okD(1) [OF po] pr]
  have rn: "ran (preg_names w) = set (pr_list pr)" by (rule preg_list_names [OF players_okD(1) [OF po] pr])
  have "logins w a = {}" for a using logins_reg [OF server_okD(5) [OF ok], of a] by simp
  then have ref: "\<forall>a \<in> set (pr_list pr). \<exists>n. whose w a = Some (n, 1, False)"
    using po unfolding players_ok_def rn by simp
  have di: "distinct (pr_list pr)" using d(4) by (simp add: distinct_map)
  let ?w = "w\<lparr>creg := None\<rparr>"
  have "preg_fini_loop (pr_list pr) ?w = Inr (?w\<lparr>players := (\<lambda>a. if a \<in> set (pr_list pr) then None else players ?w a)\<rparr>)"
    using preg_fini_loop_ok [OF di, of ?w] ref by (simp add: whose_def)
  then show ?thesis
    using cr pr d(1) rn by (simp add: creg_wait_for_empty_def the_creg_def creg_fini_def preg_fini_def)
qed

end
