(* ===== verification/Departures.thy ===== *)
theory Departures
  imports Connections
begin

text \<open>
  What can happen between the two halves of a departure. The thread of a client that goes first logs it
  out (\<^verbatim>\<open>client_logout\<close> of \<^verbatim>\<open>src/client.c\<close>) and then unregisters it (\<^verbatim>\<open>creg_unregister\<close> of
  \<^verbatim>\<open>src/client_registry.c\<close>). In between, another thread can still find the client under its name and invite
  it. The invitation stays open when the client is gone, and then only the invitation keeps the client
  alive: revoking it frees the client while it is still in use.
\<close>

section \<open>Removing the last reference\<close>

lemma unref_last:
  assumes "clients w c = Some cl" and "\<not> c_lock cl" and "c_ref_count cl = 1" and "logged_in cl = CLIENT_LOGGED_OUT"
  shows "client_unref F c w = Inr (w\<lparr>clients := (clients w)(c := None)\<rparr>)"
  using assms by (simp add: client_unref_def call_depth_def eval_nat_numeral set_client_def)

lemma remove_crash:
  assumes s: "sems w CLIENT_INVITE_SEM = 1"
    and dl: "clients w d = Some dl" "\<not> c_lock dl" "c_ref_count dl = 1" "logged_in dl = CLIENT_LOGGED_OUT"
      "unlink_inv (invite_list dl) i = Some (m, ms)"
    and cl: "clients w c = Some cl" "\<not> c_lock cl" "c_ref_count cl \<noteq> 1" "c \<noteq> d"
    and v: "invs w i = Some v" "\<not> i_lock v" "i_ref_count v = 1" "i_source v = c" "i_target v = d" "i_game v = None"
  shows "client_remove_invitation (client_unref F) d i w = Inl UseAfterFree"
proof -
  let ?w = "w\<lparr>sems := (sems w)(CLIENT_INVITE_SEM := 0)\<rparr>"
  let ?v = "v\<lparr>i_ref_count := 0\<rparr>"
  let ?w1 = "set_inv i ?v (set_client d (dl\<lparr>invite_list := ms\<rparr>) ?w)"
  let ?w2 = "?w1\<lparr>clients := less_ref c (clients ?w1)\<rparr>"
  have v': "v\<lparr>i_ref_count := 0, i_lock := False\<rparr> = ?v" using v(2) by (intro INVITATION.equality) simp_all
  have "client_unref F c ?w1 = Inr ?w2"
    using client_unref_alive [of ?w1 c cl F] cl by (simp add: set_inv_def set_client_def)
  moreover have "clients ?w2 d = Some (dl\<lparr>invite_list := ms\<rparr>)" using cl(4) by (simp add: set_inv_def set_client_def less_ref_apply)
  then have "client_unref F d ?w2 = Inr (?w2\<lparr>clients := (clients ?w2)(d := None)\<rparr>)"
    using unref_last [of ?w2 d "dl\<lparr>invite_list := ms\<rparr>" F] dl by simp
  ultimately have "inv_unref (client_unref F) i (set_client d (dl\<lparr>invite_list := ms\<rparr>) ?w)
      = Inr (?w2\<lparr>clients := (clients ?w2)(d := None), invs := (invs ?w2)(i := None)\<rparr>)"
    using v by (simp add: inv_unref_def Let_def v' set_client_def)
  then show ?thesis using s dl(1,5) by (simp add: client_remove_invitation_def sem_wait_w_1 purge_id_def load_def)
qed

lemma remove_alive:
  assumes s: "sems w CLIENT_INVITE_SEM = 1" and cl: "clients w c = Some cl" "\<not> c_lock cl" "unlink_inv (invite_list cl) i = Some (n, ns)"
      "0 \<le> n" "n < int (length (available_ids cl))" "current_id_size cl = int (length (available_ids cl))"
    and v: "invs w i = Some v" "\<not> i_lock v" "i_ref_count v \<noteq> 1"
  shows "client_remove_invitation (client_unref F) c i w = Inr (n, w\<lparr>invs := (invs w)(i \<mapsto> v\<lparr>i_ref_count := i_ref_count v - 1\<rparr>),
    clients := (clients w)(c \<mapsto> cl\<lparr>invite_list := ns, available_ids := (available_ids cl)[nat n := n], id_usage := id_usage cl - 1\<rparr>)\<rparr>)"
proof -
  let ?w = "set_client c (cl\<lparr>invite_list := ns\<rparr>) (w\<lparr>sems := (sems w)(CLIENT_INVITE_SEM := 0)\<rparr>)"
  let ?w1 = "set_inv i (v\<lparr>i_ref_count := i_ref_count v - 1\<rparr>) ?w"
  have "inv_unref (client_unref F) i ?w = Inr ?w1" using inv_unref_alive [of ?w i v "client_unref F"] v by (simp add: set_client_def)
  moreover have "purge_id c n ?w1 = Inr (set_client c (cl\<lparr>invite_list := ns, available_ids := (available_ids cl)[nat n := n],
      id_usage := id_usage cl - 1\<rparr>) ?w1)"
    using purge_id_ok [of ?w1 c "cl\<lparr>invite_list := ns\<rparr>" n] cl by (simp add: set_client_def set_inv_def)
  ultimately show ?thesis
    using s cl(1,3) by (simp add: client_remove_invitation_def sem_wait_w_1 sem_post_w_def set_client_def set_inv_def fun_upd_idem)
qed

lemma revoke_crash:
  assumes s: "sems w OP_SEM = 1" "sems w CLIENT_INVITE_SEM = 1" and e: "no_oom (sy w)" "net_up (sy w)"
    and cl: "clients w c = Some cl" "\<not> c_lock cl" "c_ref_count cl \<noteq> 1" "ids_ok cl"
      "invite_list cl = \<lparr>n_id = n, n_inv = i\<rparr> # ns"
    and dl: "clients w d = Some dl" "\<not> c_lock dl" "c_ref_count dl = 1" "logged_in dl = CLIENT_LOGGED_OUT"
      "invite_list dl = \<lparr>n_id = m, n_inv = i\<rparr> # ms" "c \<noteq> d"
    and v: "invs w i = Some (make_inv c d sr tr 2)"
  shows "client_revoke_invitation (client_unref F) c n w = Inl UseAfterFree"
proof -
  let ?v = "(make_inv c d sr tr 2)\<lparr>i_state := INV_CLOSED_STATE\<rparr>"
  have vb: "invs (busy w) i = Some (make_inv c d sr tr 2)" using v by simp
  let ?w = "close_w i (busy w)"
  have wf: "invs ?w i = Some ?v" "clients ?w = clients w" "sy ?w = sy w" "sems ?w CLIENT_INVITE_SEM = 1"
    using s(2) unfolding close_w_eq [OF vb] by (simp_all add: busy_def sem_ids)
  obtain pkt r st where p: "told JEUX_REVOKED_PKT m 0 0 None d ?w pkt r st"
    using notify_told [of ?w d dl None 0 JEUX_REVOKED_PKT m 0] wf e(1) dl(1,2) by auto
  have r: "r = 0" using toldD(5) [OF p] wf(3) e(2) by simp
  let ?w2 = "?w\<lparr>sy := st\<rparr>"
  let ?cl = "cl\<lparr>invite_list := ns, available_ids := (available_ids cl)[nat n := n], id_usage := id_usage cl - 1\<rparr>"
  let ?w3 = "?w2\<lparr>invs := (invs ?w2)(i \<mapsto> ?v\<lparr>i_ref_count := 1\<rparr>), clients := (clients ?w2)(c \<mapsto> ?cl)\<rparr>"
  have ids: "0 \<le> n" "n < int (length (available_ids cl))" "current_id_size cl = int (length (available_ids cl))"
    using cl(4,5) by (simp_all add: ids_ok_def)
  have first: "client_remove_invitation (client_unref F) c i ?w2 = Inr (n, ?w3)"
    using remove_alive [of ?w2 c cl i n ns ?v F] wf cl ids by simp
  have second: "client_remove_invitation (client_unref F) d i ?w3 = Inl UseAfterFree"
    using wf dl cl(2,3) by (intro remove_crash [where dl = dl and cl = ?cl and c = c and m = m and ms = ms and v = "?v\<lparr>i_ref_count := 1\<rparr>"]) simp_all
  have "client_get_invitation c n (busy w) = Inr (Some i)" using cl by (simp add: client_get_invitation_def)
  moreover have "inv_close (Some i) NULL_ROLE (busy w) = Inr (0, ?w)" using v by (simp add: inv_close_def close_w_def)
  moreover have "client_get_invitation_id d i ?w = Inr m" using wf(2) dl by (simp add: client_get_invitation_id_def)
  ultimately show ?thesis
    using wf(1) r ids(1) first second s(1)
    by (simp add: client_revoke_invitation_def sem_wait_op inv_get_target_def Let_def told_exec [OF p])
qed

text \<open>Logging out revokes the invitations the client has made, with the same effect.\<close>

lemma logout_crash:
  assumes s: "sems w OP_SEM = 1" "sems w CLIENT_INVITE_SEM = 1" "sems w CLIENT_LOGOUT_SEM = 1" and e: "no_oom (sy w)" "net_up (sy w)"
    and cl: "clients w c = Some cl" "\<not> c_lock cl" "c_ref_count cl \<noteq> 1" "ids_ok cl"
      "invite_list cl = \<lparr>n_id = n, n_inv = i\<rparr> # ns" and on: "logged_in cl = CLIENT_LOGGED_IN"
    and dl: "clients w d = Some dl" "\<not> c_lock dl" "c_ref_count dl = 1" "logged_in dl = CLIENT_LOGGED_OUT"
      "invite_list dl = \<lparr>n_id = m, n_inv = i\<rparr> # ms" "c \<noteq> d"
    and v: "invs w i = Some (make_inv c d sr tr 2)"
  shows "client_logout F (client_unref F) c w = Inl UseAfterFree"
proof -
  let ?w = "w\<lparr>sems := (sems w)(CLIENT_LOGOUT_SEM := 0)\<rparr>"
  have "client_revoke_invitation (client_unref F) c n ?w = Inl UseAfterFree"
    using s(1,2) e cl dl v by (intro revoke_crash [where cl = cl and dl = dl and d = d and i = i and ns = ns and m = m and ms = ms and sr = sr and tr = tr])
      (simp_all add: sem_ids)
  then show ?thesis using s(3) cl on v
    by (simp add: client_logout_def sem_wait_w_1 inv_get_game_def inv_get_source_def)
qed

section \<open>Inviting a client that is leaving\<close>

lemma invite_leaving:
  assumes l: "leaving rs d w" and c: "c \<in> set rs" "who w c = Some (Some a, lo, fd)"
    and d: "called w d n" "d \<noteq> c" and ro: "roles_of hdr = Some (sr, tr)"
  shows "\<exists>w1 w2 k. process_invite F (Some n) c hdr w = Inr (0, w1) \<and> creg_unregister F (client_unref F) (Some d) w1 = Inr (0, w2)
    \<and> invs w2 (next_addr w) = Some (make_inv c d sr tr 2) \<and> creg_ok (remove1 d rs) w2
    \<and> (held w d = {} \<and> net_up (sy w) \<longrightarrow> client_revoke_invitation (client_unref F) c k w2 = Inl UseAfterFree
         \<and> (lo = CLIENT_LOGGED_IN \<longrightarrow> client_logout F (client_unref F) c w2 = Inl UseAfterFree))"
proof -
  note ok = leaving_server_ok [OF l]
  have dr: "d \<in> set rs" using l by (simp add: leaving_def)
  note sm = server_okD(6) [OF ok dr]
  have u: "\<forall>e \<in> set rs. called w e n \<longrightarrow> e = d" using called_unique [OF ok] dr d(1) by blast
  obtain s where s: "process_invite F (Some n) c hdr w = Inr (0, (make_w c d sr tr w)\<lparr>sy := s\<rparr>)"
      "core (set rs) (make_w c d sr tr w)" "frame w (make_w c d sr tr w)" "invited c d tr a fd w s"
    using invite_exec [OF server_okD(7) [OF ok dr] server_okD(4) [OF ok] c dr d u ro, of F] by blast
  let ?w = "(make_w c d sr tr w)\<lparr>sy := s\<rparr>" and ?i = "next_addr w"
  have e: "env_same (sy w) s" "env_same (sy (make_w c d sr tr w)) s" using s(4) by (simp_all add: invited_def)
  have co: "core (set rs) ?w" using core_sy [OF e(2)] s(2) by blast
  have fr: "creg ?w = creg w" "who ?w = who w" "sems ?w = sems w" using s(3) by (simp_all add: frame_def)
  have cr: "creg_ok rs ?w" using server_okD(4) [OF ok] fr(1) by (simp add: creg_ok_def)
  obtain cr' where cr': "creg ?w = Some cr'" using creg_okD [OF cr] by blast
  obtain x fe where wd: "who w d = Some (x, CLIENT_LOGGED_OUT, fe)" using l by (auto simp: leaving_def)
  then have "who ?w d = Some (x, CLIENT_LOGGED_OUT, fe)" using fr(2) by simp
  note un = unregister_exec [OF co dr cr this cr', of F]
  let ?w2 = "?w\<lparr>clients := unreg_clients d ?w, creg := Some (unreg_creg rs d cr')\<rparr>"
  obtain cl where cl: "clients w c = Some cl" "logged_in cl = lo" using c(2) by (auto simp: who_def)
  obtain dl where dl: "clients w d = Some dl" "logged_in dl = CLIENT_LOGGED_OUT" using wd by (auto simp: who_def)
  let ?k = "int (free_id (invite_list cl))"
  have v: "invs ?w2 ?i = Some (make_inv c d sr tr 2)" by simp
  have "?i \<in> held ?w d" by (simp add: held_def make_w_def Let_def)
  then have h: "held ?w d \<noteq> {}" by blast
  have cl2: "clients ?w2 c = Some (add_node ?i (more_ref cl))"
    using make_w_clients(1) [of c d sr tr w] d(2) cl(1) by (simp add: unreg_clients_def less_ref_apply)
  have dl2: "clients ?w2 d = Some ((add_node ?i (more_ref dl))\<lparr>c_ref_count := c_ref_count dl\<rparr>)"
    using make_w_clients(2) [of c d sr tr w] h dl(1) by (simp add: unreg_clients_def less_ref_apply)
  have cok: "client_ok ?w c (add_node ?i (more_ref cl))"
    using coreD(1) [OF co] make_w_clients(1) [of c d sr tr w] d(2) cl(1) by (simp add: objs_ok_def)
  have co0: "client_ok w d dl" "refs_ok (set rs) w d dl" "refs_ok (set rs) w c cl"
    using coreD(1) [OF server_okD(1) [OF ok]] cl(1) dl(1) by (simp_all add: objs_ok_def)
  have bad: "client_revoke_invitation (client_unref F) c ?k ?w2 = Inl UseAfterFree
      \<and> (lo = CLIENT_LOGGED_IN \<longrightarrow> client_logout F (client_unref F) c ?w2 = Inl UseAfterFree)"
    if h0: "held w d = {}" "net_up (sy w)"
  proof -
    have env: "no_oom (sy ?w2)" "net_up (sy ?w2)"
      using coreD(4) [OF co] env_same_net_up [OF e(1)] h0(2) by simp_all
    have refs: "c_ref_count (add_node ?i (more_ref cl)) \<noteq> 1" "c_ref_count dl = 1"
      using co0(2,3) h0(1) dr c(1) by (simp_all add: refs_ok_def)
    have sems: "sems ?w2 OP_SEM = 1" "sems ?w2 CLIENT_INVITE_SEM = 1" "sems ?w2 CLIENT_LOGOUT_SEM = 1"
      using sems_freeD [OF all_semsD(1) [OF sm]] all_semsD(3) [OF sm] fr(3) by simp_all
    have lk: "\<not> c_lock (add_node ?i (more_ref cl))" "ids_ok (add_node ?i (more_ref cl))" "\<not> c_lock dl"
      using cok co0(1) by (simp_all add: client_ok_def)
    show ?thesis
    proof (intro conjI impI)
      show "client_revoke_invitation (client_unref F) c ?k ?w2 = Inl UseAfterFree"
        by (rule revoke_crash [OF sems(1,2) env cl2 lk(1) refs(1) lk(2) _ dl2 _ _ _ _ _ v]) (use lk refs dl d(2) in simp_all)
      show "client_logout F (client_unref F) c ?w2 = Inl UseAfterFree" if "lo = CLIENT_LOGGED_IN"
        by (rule logout_crash [OF sems env cl2 lk(1) refs(1) lk(2) _ _ dl2 _ _ _ _ _ v]) (use lk refs dl d(2) cl that in simp_all)
    qed
  qed
  show ?thesis using s(1) un unreg_creg_ok(1) [OF cr cr' dr] v bad
    by (intro exI [of _ ?w] exI [of _ ?w2] exI [of _ ?k]) simp
qed

lemma logout_leaves_name:
  assumes ok: "server_ok rs w" and c: "c \<in> set rs" and on: "who w c = Some (Some a, CLIENT_LOGGED_IN, fd)"
  shows "\<exists>w'. client_logout F (client_unref F) c w = Inr (0, w') \<and> leaving rs c w'
    \<and> who w' = (who w)(c \<mapsto> (Some a, CLIENT_LOGGED_OUT, fd)) \<and> name_of (players w') = name_of (players w)
    \<and> dom (invs w') \<subseteq> dom (invs w)"
proof -
  obtain n w' where w': "client_logout F (client_unref F) c w = Inr (0, w')" "who w' = (who w)(c \<mapsto> (Some a, CLIENT_LOGGED_OUT, fd))"
      "whose w a = Some (n, 1 + int (card (logins w a)), False)" "whose w' = (whose w)(a \<mapsto> (n, int (card (logins w a)), False))"
      "dom (invs w') \<subseteq> dom (invs w)"
    using logout_effect [OF server_okD(7) [OF ok c] server_okD(2) [OF ok] all_semsD(3) [OF server_okD(6) [OF ok c]] c on, of F] by blast
  have "leaving rs c w'" using logout_leaving [OF ok c, of F] w'(1) by auto
  moreover have "name_of (players w') b = name_of (players w) b" for b
  proof -
    have "map_option fst (whose w' b) = map_option fst (whose w b)" using w'(3,4) by simp
    then have "map_option p_name (players w' b) = map_option p_name (players w b)"
      by (simp add: whose_def option.map_comp comp_def)
    then show ?thesis by (cases "players w' b"; cases "players w b") (simp_all add: name_of_def)
  qed
  ultimately show ?thesis using w'(1,2,5) by blast
qed

end
