(* ===== verification/Demo.thy ===== *)
theory Demo
  imports System Departures
begin

text \<open>
  A session of the server that the witnesses evaluate: two clients connect, log in as \<open>ann\<close> and
  \<open>bob\<close>, \<open>ann\<close> invites \<open>bob\<close>, and \<open>bob\<close> accepts.
\<close>

definition demo_fp :: fp where
  "demo_fp = \<lparr>rnd = (\<lambda>x. x), pow10 = (\<lambda>_. 1)\<rparr>"

definition after :: "('a \<times> world) result \<Rightarrow> world" where
  "after r = (case r of Inl _ \<Rightarrow> blank_world calm_sys | Inr (_, w) \<Rightarrow> w)"

lemma after_Inr [simp]: "after (Inr (r, w)) = w"
  by (simp add: after_def)

definition req :: "JEUX_PACKET_TYPE \<Rightarrow> int \<Rightarrow> int \<Rightarrow> nat \<Rightarrow> JEUX_PACKET_HEADER" where
  "req t i r n = zero_header\<lparr>h_type := word_of_int (pkt_val t), h_id := word_of_int i, h_role := word_of_int r,
     h_size := htons (word_of_int (int n))\<rparr>"

definition started :: world where
  "started = main_init (blank_world calm_sys)"

definition lobby :: world where
  "lobby = after (creg_register 5 (after (creg_register 4 started)))"

definition ann_in :: world where
  "ann_in = after (process_login (Some ''ann'') (req JEUX_LOGIN_PKT 0 0 3) 1 lobby)"

definition both_in :: world where
  "both_in = after (process_login (Some ''bob'') (req JEUX_LOGIN_PKT 0 0 3) 2 ann_in)"

definition offered :: world where
  "offered = after (process_invite demo_fp (Some ''bob'') 1 (req JEUX_INVITE_PKT 0 2 3) both_in)"

definition playing :: world where
  "playing = after (process_accept None 2 (req JEUX_ACCEPT_PKT 0 0 0) offered)"

lemma started_ok: "server_ok [] started"
  unfolding started_def by (rule main_init_ok) simp

lemma started_creg: "\<exists>cr. creg started = Some cr \<and> cr_no cr = 0" "next_addr started = 1"
  by (simp_all add: started_def main_init_def blank_world_def creg_init_def preg_init_def)

lemma lobby_eq: "lobby = connected_w 5 (connected_w 4 started)" and lobby_ok: "server_ok [1, 2] lobby"
proof -
  obtain cr where cr: "creg started = Some cr" "cr_no cr = 0" using started_creg(1) by blast
  note a = register_ok [OF started_ok cr(1), of 4]
  have e: "after (creg_register 4 started) = connected_w 4 started" "server_ok [1] (connected_w 4 started)"
    using a cr(2) started_creg(2) by (simp_all add: MAX_CLIENTS_def)
  have n: "next_addr (connected_w 4 started) = 2" using started_creg(2) by (simp add: connected_w_def created_w_def)
  obtain cr' where cr': "creg (connected_w 4 started) = Some cr'" "cr_no cr' = 0"
    using cr by (simp add: connected_w_def)
  note b = register_ok [OF e(2) cr'(1), of 5]
  show "lobby = connected_w 5 (connected_w 4 started)" "server_ok [1, 2] lobby"
    using b cr'(2) n by (simp_all add: lobby_def e(1) MAX_CLIENTS_def)
qed

lemma lobby_facts: "who lobby 1 = Some (None, CLIENT_LOGGED_OUT, 4)" "who lobby 2 = Some (None, CLIENT_LOGGED_OUT, 5)"
    "invs lobby = Map.empty" "preg_names lobby = Map.empty" "net_up (sy lobby)" "tidy lobby"
  by (simp_all add: lobby_eq connected_w_def created_w_def started_def main_init_def blank_world_def creg_init_def
      preg_init_def who_def preg_names_def tidy_def)

text \<open>The state after a login under a name that nobody uses.\<close>

lemma login_step:
  assumes ok: "server_ok rs w" and c: "c \<in> set rs" "who w c = Some (None, l, fd)" and n: "n \<noteq> []" "length n \<le> payload_size hdr"
    and free: "\<forall>d \<in> set rs. \<not> called w d n" and net: "net_up (sy w)"
  shows "\<exists>a. process_login (Some n) hdr c w = Inr (1, after (process_login (Some n) hdr c w))
    \<and> server_ok rs (after (process_login (Some n) hdr c w))
    \<and> who (after (process_login (Some n) hdr c w)) = (who w)(c \<mapsto> (Some a, CLIENT_LOGGED_IN, fd))
    \<and> preg_names (after (process_login (Some n) hdr c w)) = (preg_names w)(n \<mapsto> a)
    \<and> name_of (players (after (process_login (Some n) hdr c w))) a = n
    \<and> invs (after (process_login (Some n) hdr c w)) = invs w \<and> net_up (sy (after (process_login (Some n) hdr c w)))"
proof -
  obtain a w' where w': "process_login (Some n) hdr c w = Inr (1, w')" "login_outcome rs c n fd w a w'"
    using login_accepted [OF ok c n(1), of hdr] n(2) by auto
  have ok': "server_ok rs w'" "preg_names w' = (preg_names w)(n \<mapsto> a)" "\<forall>b. preg_names w n = Some b \<longrightarrow> a = b" "invs w' = invs w"
    using w'(2) by (simp_all add: login_outcome_def)
  have nm: "name_of (players w') a = n"
    using preg_names_Some(2) [OF players_okD(1) [OF server_okD(2) [OF ok'(1)]]] ok'(2) by simp
  have "bound w a \<inter> set rs = {}"
  proof (rule ccontr)
    assume "bound w a \<inter> set rs \<noteq> {}"
    then obtain d k fe where d: "who w d = Some (Some a, k, fe)" "d \<in> set rs" by (auto simp: bound_def)
    then have "a \<in> ran (preg_names w)" using players_okD(2) [OF server_okD(2) [OF ok]] by blast
    then have m: "preg_names w (name_of (players w) a) = Some a" using names_ran players_okD(1) [OF server_okD(2) [OF ok]] by blast
    then have "preg_names w' (name_of (players w) a) = Some a" using ok'(2) by auto
    then have "name_of (players w) a = n"
      using preg_names_Some(2) [OF players_okD(1) [OF server_okD(2) [OF ok'(1)]]] nm by metis
    then show False using free d by (auto simp: called_def)
  qed
  then have "who w' = (who w)(c \<mapsto> (Some a, CLIENT_LOGGED_IN, fd))" "env_same (sy w) (sy w')"
    using w'(2) sentD by (auto simp: login_outcome_def)
  then show ?thesis using w'(1) ok' nm net env_same_net_up by auto
qed

lemma req_size: "n < 65536 \<Longrightarrow> payload_size (req t i r n) = n"
  using unat_of_int_16 [of "int n"] by (simp add: payload_size_def req_def)

lemma ann_in_facts: "server_ok [1, 2] ann_in" "invs ann_in = Map.empty" "net_up (sy ann_in)"
    "\<exists>a. who ann_in = (who lobby)(1 \<mapsto> (Some a, CLIENT_LOGGED_IN, 4)) \<and> name_of (players ann_in) a = ''ann''
      \<and> preg_names ann_in = [''ann'' \<mapsto> a]"
    "process_login (Some ''ann'') (req JEUX_LOGIN_PKT 0 0 3) 1 lobby = Inr (1, ann_in)"
proof -
  have "\<forall>d \<in> set [1, 2]. \<not> called lobby d ''ann''" using lobby_facts(1,2) by (auto simp: called_def)
  from login_step [OF lobby_ok _ lobby_facts(1) _ _ this lobby_facts(5), of "req JEUX_LOGIN_PKT 0 0 3"]
  show "server_ok [1, 2] ann_in" "invs ann_in = Map.empty" "net_up (sy ann_in)"
    "\<exists>a. who ann_in = (who lobby)(1 \<mapsto> (Some a, CLIENT_LOGGED_IN, 4)) \<and> name_of (players ann_in) a = ''ann''
      \<and> preg_names ann_in = [''ann'' \<mapsto> a]"
    "process_login (Some ''ann'') (req JEUX_LOGIN_PKT 0 0 3) 1 lobby = Inr (1, ann_in)"
    using lobby_facts(3,4) unfolding ann_in_def [symmetric] by (auto simp: req_size)
qed

lemma both_in_facts: "server_ok [1, 2] both_in" "invs both_in = Map.empty" "net_up (sy both_in)"
    "\<exists>a b. who both_in 1 = Some (Some a, CLIENT_LOGGED_IN, 4) \<and> who both_in 2 = Some (Some b, CLIENT_LOGGED_IN, 5)
      \<and> preg_names both_in = [''ann'' \<mapsto> a, ''bob'' \<mapsto> b] \<and> name_of (players both_in) a = ''ann'' \<and> name_of (players both_in) b = ''bob''"
    "process_login (Some ''bob'') (req JEUX_LOGIN_PKT 0 0 3) 2 ann_in = Inr (1, both_in)"
proof -
  obtain a where a: "who ann_in = (who lobby)(1 \<mapsto> (Some a, CLIENT_LOGGED_IN, 4))" "name_of (players ann_in) a = ''ann''"
      "preg_names ann_in = [''ann'' \<mapsto> a]" using ann_in_facts(4) by blast
  have free: "\<forall>d \<in> set [1, 2]. \<not> called ann_in d ''bob''" using a(1,2) lobby_facts(2) by (auto simp: called_def)
  have on: "who ann_in 2 = Some (None, CLIENT_LOGGED_OUT, 5)" using a(1) lobby_facts(2) by simp
  from login_step [OF ann_in_facts(1) _ on _ _ free ann_in_facts(3), of "req JEUX_LOGIN_PKT 0 0 3"] obtain b
    where b: "server_ok [1, 2] both_in" "who both_in = (who ann_in)(2 \<mapsto> (Some b, CLIENT_LOGGED_IN, 5))"
      "preg_names both_in = (preg_names ann_in)(''bob'' \<mapsto> b)" "name_of (players both_in) b = ''bob''"
      "invs both_in = invs ann_in" "net_up (sy both_in)"
      "process_login (Some ''bob'') (req JEUX_LOGIN_PKT 0 0 3) 2 ann_in = Inr (1, both_in)"
    unfolding both_in_def [symmetric] by (auto simp: req_size)
  have "name_of (players both_in) a = ''ann''"
    using preg_names_Some(2) [OF players_okD(1) [OF server_okD(2) [OF b(1)]], of "''ann''" a] b(3) a(3) by simp
  then show "server_ok [1, 2] both_in" "invs both_in = Map.empty" "net_up (sy both_in)"
    "\<exists>a b. who both_in 1 = Some (Some a, CLIENT_LOGGED_IN, 4) \<and> who both_in 2 = Some (Some b, CLIENT_LOGGED_IN, 5)
      \<and> preg_names both_in = [''ann'' \<mapsto> a, ''bob'' \<mapsto> b] \<and> name_of (players both_in) a = ''ann'' \<and> name_of (players both_in) b = ''bob''"
    "process_login (Some ''bob'') (req JEUX_LOGIN_PKT 0 0 3) 2 ann_in = Inr (1, both_in)"
    using b a ann_in_facts(2) by auto
qed

lemma servedD: "served rs w res \<Longrightarrow> server_ok rs (after res)"
  by (auto simp: served_def)

lemma no_invs_lists: "server_ok rs w \<Longrightarrow> invs w = Map.empty \<Longrightarrow> clients w c = Some cl \<Longrightarrow> invite_list cl = []"
  using objs_clientD(4) [OF coreD(1) [OF server_okD(1)]] by (fastforce simp: held_def)

definition demo_inv :: INVITATION where
  "demo_inv = make_inv 1 2 FIRST_PLAYER_ROLE SECOND_PLAYER_ROLE 2"

lemma both_in_on: "online both_in 1" "online both_in 2"
  using both_in_facts(4) by (auto simp: online_def)

lemma offered_facts: "server_ok [1, 2] offered" "net_up (sy offered)"
    "\<exists>i cl dl. clients offered 1 = Some cl \<and> clients offered 2 = Some dl
      \<and> invite_list cl = [\<lparr>n_id = 0, n_inv = i\<rparr>] \<and> invite_list dl = [\<lparr>n_id = 0, n_inv = i\<rparr>]
      \<and> invs offered = [i \<mapsto> demo_inv] \<and> c_fd cl = 4 \<and> c_fd dl = 5 \<and> c_player cl \<noteq> None \<and> c_player dl \<noteq> None"
    "process_invite demo_fp (Some ''bob'') 1 (req JEUX_INVITE_PKT 0 2 3) both_in = Inr (0, offered)"
proof -
  obtain a b where ab: "who both_in 1 = Some (Some a, CLIENT_LOGGED_IN, 4)" "who both_in 2 = Some (Some b, CLIENT_LOGGED_IN, 5)"
      "name_of (players both_in) b = ''bob''" using both_in_facts(4) by blast
  have "called both_in 2 ''bob''" using ab(2,3) by (auto simp: called_def)
  moreover have "roles_of (req JEUX_INVITE_PKT 0 2 3) = Some (FIRST_PLAYER_ROLE, SECOND_PLAYER_ROLE)"
    by (simp add: roles_of_def req_def)
  ultimately obtain s where s: "process_invite demo_fp (Some ''bob'') 1 (req JEUX_INVITE_PKT 0 2 3) both_in
      = Inr (0, (make_w 1 2 FIRST_PLAYER_ROLE SECOND_PLAYER_ROLE both_in)\<lparr>sy := s\<rparr>)"
      "server_ok [1, 2] ((make_w 1 2 FIRST_PLAYER_ROLE SECOND_PLAYER_ROLE both_in)\<lparr>sy := s\<rparr>)"
      "invited 1 2 SECOND_PLAYER_ROLE a 4 both_in s"
    using invite_ok [OF both_in_facts(1) _ ab(1), of 2 "''bob''" "req JEUX_INVITE_PKT 0 2 3"] both_in_on present_in [OF ab(1)] by auto
  have e: "offered = (make_w 1 2 FIRST_PLAYER_ROLE SECOND_PLAYER_ROLE both_in)\<lparr>sy := s\<rparr>" using s(1) by (simp add: offered_def)
  obtain cl dl where cl: "clients both_in 1 = Some cl" "clients both_in 2 = Some dl" "c_fd cl = 4" "c_fd dl = 5"
      "c_player cl = Some a" "c_player dl = Some b"
    using ab(1,2) by (auto simp: who_def)
  have nil: "invite_list cl = []" "invite_list dl = []"
    using no_invs_lists [OF both_in_facts(1,2)] cl by blast+
  have free: "free_id [] = 0" using free_id_le [of "[]"] by simp
  show "process_invite demo_fp (Some ''bob'') 1 (req JEUX_INVITE_PKT 0 2 3) both_in = Inr (0, offered)" using s(1) e by simp
  show "server_ok [1, 2] offered" "net_up (sy offered)"
    "\<exists>i cl dl. clients offered 1 = Some cl \<and> clients offered 2 = Some dl
      \<and> invite_list cl = [\<lparr>n_id = 0, n_inv = i\<rparr>] \<and> invite_list dl = [\<lparr>n_id = 0, n_inv = i\<rparr>]
      \<and> invs offered = [i \<mapsto> demo_inv] \<and> c_fd cl = 4 \<and> c_fd dl = 5 \<and> c_player cl \<noteq> None \<and> c_player dl \<noteq> None"
    using s(2,3) cl nil free make_w_clients [of 1 2 FIRST_PLAYER_ROLE SECOND_PLAYER_ROLE both_in] both_in_facts(2,3)
      env_same_net_up [of "sy both_in" s]
    by (auto simp: e demo_inv_def invited_def)
qed

lemma playing_facts: "server_ok [1, 2] playing" "net_up (sy playing)"
    "\<exists>i g cl dl. clients playing 1 = Some cl \<and> clients playing 2 = Some dl
      \<and> invite_list cl = [\<lparr>n_id = 0, n_inv = i\<rparr>] \<and> invite_list dl = [\<lparr>n_id = 0, n_inv = i\<rparr>]
      \<and> invs playing = [i \<mapsto> demo_inv\<lparr>i_state := INV_ACCEPTED_STATE, i_game := Some g\<rparr>]
      \<and> games playing g = Some fresh_game \<and> c_fd cl = 4 \<and> c_fd dl = 5 \<and> c_player cl \<noteq> None \<and> c_player dl \<noteq> None
      \<and> invs offered = [i \<mapsto> demo_inv]"
    "process_accept None 2 (req JEUX_ACCEPT_PKT 0 0 0) offered = Inr (0, playing)"
proof -
  obtain i cl dl where o: "clients offered 1 = Some cl" "clients offered 2 = Some dl"
      "invite_list cl = [\<lparr>n_id = 0, n_inv = i\<rparr>]" "invite_list dl = [\<lparr>n_id = 0, n_inv = i\<rparr>]"
      "invs offered = [i \<mapsto> demo_inv]" "c_fd cl = 4" "c_fd dl = 5" "c_player cl \<noteq> None" "c_player dl \<noteq> None"
    using offered_facts(3) by blast
  note g = server_okD(7) [OF offered_facts(1), of 2]
  have v: "invs offered i = Some demo_inv" "i_state demo_inv = INV_OPEN_STATE" "2 = i_target demo_inv" "i_source demo_inv = 1"
      "i_target_role demo_inv = SECOND_PLAYER_ROLE" using o(5) by (simp_all add: demo_inv_def)
  have in2: "inv_of_id (invite_list dl) 0 = Some i" using o(4) by simp
  have sc: "clients offered (i_source demo_inv) = Some cl" using v(4) o(1) by simp
  have R: "(2 :: addr) \<in> set [1, 2]" by simp
  obtain r str s where a0: "client_accept_invitation 2 0 offered = Inr ((r, if r = 0 \<and> i_target_role demo_inv = FIRST_PLAYER_ROLE
        then Some str else None), (accept_w i offered)\<lparr>sy := s\<rparr>)"
      "env_same (sy offered) s" "net_up (sy offered) \<longrightarrow> r = 0"
    using accept_open [OF g [OF R] o(2) in2 v(1,2,3) sc] by blast
  then have a: "client_accept_invitation 2 0 offered = Inr ((0, None), (accept_w i offered)\<lparr>sy := s\<rparr>)" "env_same (sy offered) s"
    using offered_facts(2) v(5) by simp_all
  have sv: "served [1, 2] offered (process_accept None 2 (req JEUX_ACCEPT_PKT 0 0 0) offered)"
    using accept_served [OF offered_facts(1)] by simp
  have ex: "process_accept None 2 (req JEUX_ACCEPT_PKT 0 0 0) offered = reply_ack 2 ((accept_w i offered)\<lparr>sy := s\<rparr>)"
    using a(1) by (simp add: process_accept_def req_def)
  have "core {1, 2} (accept_w i offered)" using accept_w_core(1) [OF server_okD(1) [OF offered_facts(1)]] o(5) by (simp add: demo_inv_def)
  then have "core {1, 2} ((accept_w i offered)\<lparr>sy := s\<rparr>)" using core_sy [of "accept_w i offered" s] a(2) by simp
  moreover have "who ((accept_w i offered)\<lparr>sy := s\<rparr>) 2 = Some (c_player dl, logged_in dl, 5)" using o(2,7) by (simp add: who_def)
  ultimately obtain s' where "reply_ack 2 ((accept_w i offered)\<lparr>sy := s\<rparr>) = Inr (0, (accept_w i offered)\<lparr>sy := s'\<rparr>)"
      "env_same s s'" using reply_ack_sent [of "{1, 2}" "(accept_w i offered)\<lparr>sy := s\<rparr>" 2] sentD by fastforce
  then have e: "playing = (accept_w i offered)\<lparr>sy := s'\<rparr>" "env_same (sy offered) s'"
      "process_accept None 2 (req JEUX_ACCEPT_PKT 0 0 0) offered = Inr (0, playing)"
    using ex env_same_trans [OF a(2)] by (simp_all add: playing_def)
  show "process_accept None 2 (req JEUX_ACCEPT_PKT 0 0 0) offered = Inr (0, playing)" by (rule e(3))
  show "server_ok [1, 2] playing" using servedD [OF sv] by (simp add: playing_def)
  show "net_up (sy playing)" unfolding e(1) using offered_facts(2) env_same_net_up [OF e(2)] by simp
  show "\<exists>i g cl dl. clients playing 1 = Some cl \<and> clients playing 2 = Some dl
      \<and> invite_list cl = [\<lparr>n_id = 0, n_inv = i\<rparr>] \<and> invite_list dl = [\<lparr>n_id = 0, n_inv = i\<rparr>]
      \<and> invs playing = [i \<mapsto> demo_inv\<lparr>i_state := INV_ACCEPTED_STATE, i_game := Some g\<rparr>]
      \<and> games playing g = Some fresh_game \<and> c_fd cl = 4 \<and> c_fd dl = 5 \<and> c_player cl \<noteq> None \<and> c_player dl \<noteq> None
      \<and> invs offered = [i \<mapsto> demo_inv]"
    using o by (intro exI [of _ i] exI [of _ "next_addr offered"] exI [of _ cl] exI [of _ dl])
      (simp add: e(1) accept_w_inv)
qed

section \<open>The session as a run of the server\<close>

lemma demo_registered: "registered lobby = [1, 2]" "registered ann_in = [1, 2]" "registered both_in = [1, 2]"
    "registered offered = [1, 2]" "registered playing = [1, 2]"
  using registered_eq [OF server_okD(4)] lobby_ok ann_in_facts(1) both_in_facts(1) offered_facts(1) playing_facts(1) by blast+

lemma req_type: "uint (h_type (req t i r n)) = pkt_val t"
  by (cases t) (simp_all add: req_def)

lemma lobby_reachable: "reachable F (lobby, \<lambda>_. Serving 0)"
proof -
  obtain cr where cr: "creg started = Some cr" "cr_no cr = 0" using started_creg(1) by blast
  note a = register_ok [OF started_ok cr(1), of 4]
  have a1: "creg_register 4 started = Inr (Some 1, connected_w 4 started)" "server_ok [1] (connected_w 4 started)"
    using a cr(2) started_creg(2) by (simp_all add: MAX_CLIENTS_def)
  obtain cr' where cr': "creg (connected_w 4 started) = Some cr'" "cr_no cr' = 0"
    using cr by (simp add: connected_w_def)
  have n: "next_addr (connected_w 4 started) = 2" using started_creg(2) by (simp add: connected_w_def created_w_def)
  have b1: "creg_register 5 (connected_w 4 started) = Inr (Some 2, lobby)"
    using register_ok(1) [OF a1(2) cr'(1), of 5] cr'(2) n by (simp add: MAX_CLIENTS_def lobby_eq)
  have "reachable F (started, \<lambda>_. Serving 0)" unfolding started_def by (rule reachable_start) simp
  from reachable_step [OF this system_step.connect [OF a1(1)]] have "reachable F (connected_w 4 started, \<lambda>_. Serving 0)"
    by (simp add: fun_upd_idem)
  from reachable_step [OF this system_step.connect [OF b1]] show ?thesis by (simp add: fun_upd_idem)
qed

definition demo_fl :: "addr \<Rightarrow> thread" where
  "demo_fl = (\<lambda>_. Serving 0)(1 := Serving 1, 2 := Serving 1)"

lemma demo_fl_apply [simp]: "demo_fl 1 = Serving 1" "demo_fl (Suc 0) = Serving 1" "demo_fl 2 = Serving 1"
  by (simp_all add: demo_fl_def)

lemma both_in_reachable: "reachable F (both_in, demo_fl)"
proof -
  have d1: "dispatch F 1 0 (req JEUX_LOGIN_PKT 0 0 3) (Some ''ann'') lobby = Inr ((True, 1), ann_in)"
    by (simp add: dispatch_def req_type ann_in_facts(5) del: One_nat_def)
  have d2: "dispatch F 2 0 (req JEUX_LOGIN_PKT 0 0 3) (Some ''bob'') ann_in = Inr ((True, 1), both_in)"
    by (simp add: dispatch_def req_type both_in_facts(5))
  let ?fl = "(\<lambda>_. Serving 0)(1 := Serving 1)"
  have "system_step F (lobby, \<lambda>_. Serving 0) (ann_in, ?fl)"
    by (rule system_step.request [OF _ _ _ d1]) (simp_all add: demo_registered safe_request_def)
  moreover have "system_step F (ann_in, ?fl) (both_in, ?fl(2 := Serving 1))"
    by (rule system_step.request [OF _ _ _ d2]) (simp_all add: demo_registered safe_request_def)
  ultimately show ?thesis using reachable_step [OF lobby_reachable] reachable_step unfolding demo_fl_def by blast
qed

lemma safe_invite: "safe_request [1, 2] 1 1 (req JEUX_INVITE_PKT 0 2 3) payload both_in"
proof -
  obtain a where "who both_in 1 = Some (Some a, CLIENT_LOGGED_IN, 4)" using both_in_facts(4) by blast
  then show ?thesis using both_in_on by (auto simp: safe_request_def req_type who_def)
qed

lemma same_flag: "demo_fl(1 := Serving 1) = demo_fl" "demo_fl(2 := Serving 1) = demo_fl"
  by (simp_all add: demo_fl_def fun_eq_iff)

lemma offered_reachable: "reachable demo_fp (offered, demo_fl)"
proof -
  have d: "dispatch demo_fp 1 1 (req JEUX_INVITE_PKT 0 2 3) (Some ''bob'') both_in = Inr ((True, 1), offered)"
    by (simp add: dispatch_def req_type guarded_def offered_facts(4) del: One_nat_def)
  have "system_step demo_fp (both_in, demo_fl) (offered, demo_fl(1 := Serving 1))"
    by (rule system_step.request [OF _ _ _ d]) (use safe_invite in \<open>simp_all add: demo_registered\<close>)
  then show ?thesis using reachable_step [OF both_in_reachable] unfolding same_flag by blast
qed

lemma accept_step: "system_step demo_fp (offered, demo_fl) (playing, demo_fl)"
proof -
  have d: "dispatch demo_fp 2 1 (req JEUX_ACCEPT_PKT 0 0 0) None offered = Inr ((True, 1), playing)"
    by (simp add: dispatch_def req_type guarded_def playing_facts(4))
  have "system_step demo_fp (offered, demo_fl) (playing, demo_fl(2 := Serving 1))"
    by (rule system_step.request [OF _ _ _ d]) (simp_all add: demo_registered safe_request_def req_type)
  then show ?thesis unfolding same_flag .
qed

lemma playing_reachable: "reachable demo_fp (playing, demo_fl)"
  by (rule reachable_step [OF offered_reachable accept_step])

text \<open>The second player hangs up before anything was played: its thread has logged it out.\<close>

lemma parting:
  "\<exists>w. client_logout demo_fp (client_unref demo_fp) 2 both_in = Inr (0, w) \<and> reachable demo_fp (w, demo_fl(2 := Leaving))
     \<and> (\<exists>a. who w 1 = Some (Some a, CLIENT_LOGGED_IN, 4)) \<and> called w 2 ''bob'' \<and> registered w = [1, 2] \<and> invs w = Map.empty
     \<and> net_up (sy w)"
proof -
  obtain a b where ab: "who both_in 1 = Some (Some a, CLIENT_LOGGED_IN, 4)" "who both_in 2 = Some (Some b, CLIENT_LOGGED_IN, 5)"
      "name_of (players both_in) a = ''ann''" "name_of (players both_in) b = ''bob''" using both_in_facts(4) by blast
  obtain w where w: "client_logout demo_fp (client_unref demo_fp) 2 both_in = Inr (0, w)" "leaving [1, 2] 2 w"
      "who w = (who both_in)(2 \<mapsto> (Some b, CLIENT_LOGGED_OUT, 5))" "name_of (players w) = name_of (players both_in)"
      "dom (invs w) \<subseteq> dom (invs both_in)"
    using logout_leaves_name [OF both_in_facts(1) _ ab(2), of demo_fp] by fastforce
  have "system_step demo_fp (both_in, demo_fl) (w, demo_fl(2 := Leaving))"
    by (rule system_step.hangup [OF _ _ w(1)]) (simp_all add: demo_registered)
  then have "reachable demo_fp (w, demo_fl(2 := Leaving))" using reachable_step [OF both_in_reachable] by blast
  moreover have "called w 2 ''bob''" "who w 1 = Some (Some a, CLIENT_LOGGED_IN, 4)" using w(3,4) ab by (auto simp: called_def)
  moreover have "registered w = [1, 2]" using registered_eq [OF server_okD(4) [OF leaving_server_ok [OF w(2)]]] .
  moreover have "invs w = Map.empty" using w(5) both_in_facts(2) by simp
  moreover have "net_up (sy w)"
    using logout_leaving [OF both_in_facts(1), of 2 demo_fp] w(1) both_in_facts(3) env_same_net_up [of "sy both_in" "sy w"] by auto
  ultimately show ?thesis using w(1) by blast
qed

text \<open>Both players are logged in.\<close>

lemma logged_in_players:
  assumes ok: "server_ok rs w" and on: "online w c"
  shows "\<exists>cl a p. clients w c = Some cl \<and> c_player cl = Some a \<and> logged_in cl = CLIENT_LOGGED_IN \<and> players w a = Some p
    \<and> (\<exists>n. preg_names w n = Some a)"
proof -
  obtain cl a where cl: "clients w c = Some cl" "c_player cl = Some a" "logged_in cl = CLIENT_LOGGED_IN"
    using on by (auto simp: online_def who_def)
  then have "a \<in> ran (preg_names w)" using players_okD(2) [OF server_okD(2) [OF ok], of c] by (simp add: who_def)
  moreover have "player_live w a" using objs_playerD [OF coreD(1) [OF server_okD(1) [OF ok]] cl(1,2)] .
  ultimately show ?thesis using cl by (auto simp: player_live_def ran_def split: option.splits)
qed

lemma playing_on: "online playing 1" "online playing 2"
proof -
  obtain i g where "invs playing = [i \<mapsto> demo_inv\<lparr>i_state := INV_ACCEPTED_STATE, i_game := Some g\<rparr>]"
    using playing_facts(3) by blast
  then have v: "invs playing i = Some (demo_inv\<lparr>i_state := INV_ACCEPTED_STATE, i_game := Some g\<rparr>)" by simp
  have "online playing (i_source demo_inv) \<and> online playing (i_target demo_inv)"
    using server_okD(3) [OF playing_facts(1)] v unfolding parties_online_def by fastforce
  then show "online playing 1" "online playing 2" by (simp_all add: demo_inv_def make_inv_def)
qed

text \<open>The first move of the session: the player of the first role takes the cell in the middle.\<close>

definition opened_game :: GAME where
  "opened_game = fresh_game\<lparr>rows := [0, 0, 0, 0, 1, 0, 0, 0, 0], current_player := SECOND_PLAYER_ROLE\<rparr>"

lemma demo_parse:
  assumes "no_oom s"
  shows "fst (game_parse_move fresh_game FIRST_PLAYER_ROLE ''5'' s) = Some \<lparr>move = 4, role = FIRST_PLAYER_ROLE\<rparr>"
proof -
  have "atoi ''5'' = 5" by code_simp
  then show ?thesis using assms by (simp add: game_parse_move_def)
qed

lemma demo_apply: "game_apply_move fresh_game \<lparr>move = 4, role = FIRST_PLAYER_ROLE\<rparr> = Inr (0, opened_game)"
    "game_is_over opened_game = Inr (0, opened_game)"
  by code_simp+

end
