(* ===== verification/Robust_IO.thy ===== *)
theory Robust_IO
  imports Program
begin

text \<open>
  The Rio package of \<^verbatim>\<open>src/csapp.c\<close>: reading and writing whole blocks and text lines although the system
  calls transfer less than asked for or are interrupted, with and without a buffer. The loops
  go on after an interrupted call, so they may run for ever: \<open>None\<close> is the result of a loop
  that does. The bytes that a function stores at its argument \<open>usrbuf\<close> are a result of the model.
\<close>

section \<open>System calls with \<open>errno\<close>\<close>

text \<open>A negative answer of the environment is the negated error number, which a failed call leaves in \<open>errno\<close>.\<close>

record io =
  os :: sys
  errno :: int

definition EINTR :: int where "EINTR = 4"

definition read_e :: "int \<Rightarrow> nat \<Rightarrow> io \<Rightarrow> (int \<times> byte list) \<times> io" where
  "read_e fd n x =
     (let ((r, bs), s) = read_fd fd n (os x) in
      ((r, bs), x\<lparr>os := s, errno := (if r < 0 then - rd_ans (os x) (rd_n (os x)) else errno x)\<rparr>))"

definition write_e :: "int \<Rightarrow> byte list \<Rightarrow> io \<Rightarrow> int \<times> io" where
  "write_e fd bs x =
     (let (r, s) = write_fd fd bs (os x) in
      (r, x\<lparr>os := s, errno := (if r < 0 then - wr_ans (os x) (wr_n (os x)) else errno x)\<rparr>))"

section \<open>Unbuffered reading and writing\<close>

text \<open>The loop of \<open>rio_readn\<close>: the result is -1 if the function returns in it, with \<open>nleft\<close> and the bytes stored.\<close>

partial_function (option) readn_loop ::
  "int \<Rightarrow> nat \<Rightarrow> byte list \<Rightarrow> io \<Rightarrow> ((int \<times> nat \<times> byte list) \<times> io) option" where
  "readn_loop fd nleft buf x =
     (if nleft = 0 then Some ((0, nleft, buf), x)
      else case read_e fd nleft x of ((nread, bs), x) \<Rightarrow>
        if nread < 0 then
          if errno x = EINTR then readn_loop fd nleft buf x else Some ((-1, nleft, buf), x)
        else if nread = 0 then Some ((0, nleft, buf), x)
        else readn_loop fd (nleft - nat nread) (buf @ bs) x)"

definition rio_readn :: "int \<Rightarrow> nat \<Rightarrow> io \<Rightarrow> ((int \<times> byte list) \<times> io) option" where
  "rio_readn fd n x =
     Option.bind (readn_loop fd n [] x) (\<lambda>((r, nleft, buf), x).
     Some ((if r = -1 then -1 else int (n - nleft), buf), x))"

partial_function (option) writen_loop :: "int \<Rightarrow> byte list \<Rightarrow> io \<Rightarrow> (int \<times> io) option" where
  "writen_loop fd bs x =
     (if bs = [] then Some (0, x)
      else case write_e fd bs x of (nwritten, x) \<Rightarrow>
        if nwritten \<le> 0 then
          if errno x = EINTR then writen_loop fd bs x else Some (-1, x)
        else writen_loop fd (drop (nat nwritten) bs) x)"

definition rio_writen :: "int \<Rightarrow> byte list \<Rightarrow> io \<Rightarrow> (int \<times> io) option" where
  "rio_writen fd bs x =
     Option.bind (writen_loop fd bs x) (\<lambda>(r, x). Some (if r = -1 then -1 else int (length bs), x))"

section \<open>Buffered reading\<close>

text \<open>\<open>rio_bufptr\<close> is the offset into \<open>rio_buf\<close>.\<close>

definition RIO_BUFSIZE :: nat where "RIO_BUFSIZE = 8192"

record rio_t =
  rio_fd :: int
  rio_cnt :: int
  rio_bufptr :: nat
  rio_buf :: "byte list"

definition rio_readinitb :: "int \<Rightarrow> rio_t \<Rightarrow> rio_t" where
  "rio_readinitb fd rp = rp\<lparr>rio_fd := fd, rio_cnt := 0, rio_bufptr := 0\<rparr>"

text \<open>The loop of \<open>rio_read\<close>: 1 if the buffer has unread bytes, otherwise the value that is returned.\<close>

partial_function (option) rio_refill :: "rio_t \<Rightarrow> io \<Rightarrow> ((int \<times> rio_t) \<times> io) option" where
  "rio_refill rp x =
     (if rio_cnt rp > 0 then Some ((1, rp), x)
      else case read_e (rio_fd rp) RIO_BUFSIZE x of ((r, bs), x) \<Rightarrow>
        if r < 0 then
          if errno x \<noteq> EINTR then Some ((-1, rp\<lparr>rio_cnt := r\<rparr>), x) else rio_refill (rp\<lparr>rio_cnt := r\<rparr>) x
        else if r = 0 then Some ((0, rp\<lparr>rio_cnt := r\<rparr>), x)
        else rio_refill (rp\<lparr>rio_cnt := r, rio_buf := bs @ drop (length bs) (rio_buf rp), rio_bufptr := 0\<rparr>) x)"

definition rio_read :: "rio_t \<Rightarrow> nat \<Rightarrow> io \<Rightarrow> ((int \<times> byte list) \<times> rio_t \<times> io) result option" where
  "rio_read rp n x =
     Option.bind (rio_refill rp x) (\<lambda>((c, rp), x). Some (
       if c \<le> 0 then Inr ((c, []), rp, x)
       else
         let cnt = (if rio_cnt rp < int n then rio_cnt rp else int n) in
         and_then (assert_c (rio_bufptr rp + nat cnt \<le> length (rio_buf rp)) OutOfBounds) (\<lambda>_.
         Inr ((cnt, take (nat cnt) (drop (rio_bufptr rp) (rio_buf rp))),
              rp\<lparr>rio_bufptr := rio_bufptr rp + nat cnt, rio_cnt := rio_cnt rp - cnt\<rparr>, x))))"

partial_function (option) readnb_loop ::
  "rio_t \<Rightarrow> nat \<Rightarrow> byte list \<Rightarrow> io \<Rightarrow> ((int \<times> nat \<times> byte list) \<times> rio_t \<times> io) result option" where
  "readnb_loop rp nleft buf x =
     (if nleft = 0 then Some (Inr ((0, nleft, buf), rp, x))
      else Option.bind (rio_read rp nleft x) (\<lambda>q. case q of
        Inl e \<Rightarrow> Some (Inl e)
      | Inr ((nread, bs), rp, x) \<Rightarrow>
          if nread < 0 then
            if errno x = EINTR then readnb_loop rp nleft buf x else Some (Inr ((-1, nleft, buf), rp, x))
          else if nread = 0 then Some (Inr ((0, nleft, buf), rp, x))
          else readnb_loop rp (nleft - nat nread) (buf @ bs) x))"

definition rio_readnb :: "rio_t \<Rightarrow> nat \<Rightarrow> io \<Rightarrow> ((int \<times> byte list) \<times> rio_t \<times> io) result option" where
  "rio_readnb rp n x =
     Option.bind (readnb_loop rp n [] x) (\<lambda>q. Some (
       and_then q (\<lambda>((r, nleft, buf), rp, x). Inr ((if r = -1 then -1 else int (n - nleft), buf), rp, x))))"

text \<open>The loop of \<open>rio_readlineb\<close> with \<open>k\<close> rounds left; \<open>line\<close> is what was stored so far.\<close>

fun readline_loop ::
  "nat \<Rightarrow> nat \<Rightarrow> byte list \<Rightarrow> rio_t \<Rightarrow> io \<Rightarrow> ((int \<times> byte list) \<times> rio_t \<times> io) result option" where
  "readline_loop 0 n line rp x = Some (Inr ((int n, line @ [0]), rp, x))"
| "readline_loop (Suc k) n line rp x =
     Option.bind (rio_read rp 1 x) (\<lambda>q. case q of
       Inl e \<Rightarrow> Some (Inl e)
     | Inr ((rc, bs), rp, x) \<Rightarrow>
         if rc = 1 then
           if bs = [10] then Some (Inr ((int n, line @ bs @ [0]), rp, x))
           else readline_loop k (Suc n) (line @ bs) rp x
         else if rc = 0 then
           if n = 1 then Some (Inr ((0, line), rp, x)) else Some (Inr ((int n, line @ [0]), rp, x))
         else Some (Inr ((-1, line), rp, x)))"

definition rio_readlineb :: "rio_t \<Rightarrow> nat \<Rightarrow> io \<Rightarrow> ((int \<times> byte list) \<times> rio_t \<times> io) result option" where
  "rio_readlineb rp maxlen x = readline_loop (maxlen - 1) 1 [] rp x"

section \<open>The wrappers\<close>

text \<open>A wrapper ends the program if the function it calls fails.\<close>

definition Rio_readn :: "int \<Rightarrow> nat \<Rightarrow> io \<Rightarrow> ((int \<times> byte list) \<times> io) result option" where
  "Rio_readn fd n x =
     map_option (\<lambda>((r, bs), x). if r < 0 then unix_error else Inr ((r, bs), x)) (rio_readn fd n x)"

definition Rio_writen :: "int \<Rightarrow> byte list \<Rightarrow> io \<Rightarrow> io result option" where
  "Rio_writen fd bs x =
     map_option (\<lambda>(r, x). if r \<noteq> int (length bs) then unix_error else Inr x) (rio_writen fd bs x)"

definition Rio_readinitb :: "int \<Rightarrow> rio_t \<Rightarrow> rio_t" where
  "Rio_readinitb fd rp = rio_readinitb fd rp"

definition Rio_readnb :: "rio_t \<Rightarrow> nat \<Rightarrow> io \<Rightarrow> ((int \<times> byte list) \<times> rio_t \<times> io) result option" where
  "Rio_readnb rp n x =
     map_option (\<lambda>q. and_then q (\<lambda>((r, bs), y). if r < 0 then unix_error else Inr ((r, bs), y))) (rio_readnb rp n x)"

definition Rio_readlineb :: "rio_t \<Rightarrow> nat \<Rightarrow> io \<Rightarrow> ((int \<times> byte list) \<times> rio_t \<times> io) result option" where
  "Rio_readlineb rp maxlen x =
     map_option (\<lambda>q. and_then q (\<lambda>((r, bs), y). if r < 0 then unix_error else Inr ((r, bs), y))) (rio_readlineb rp maxlen x)"

section \<open>What one call of \<open>read\<close> does\<close>

text \<open>What can still be read from a descriptor.\<close>

definition avail :: "io \<Rightarrow> int \<Rightarrow> byte list" where
  "avail x fd = (if rd_shut (os x) fd then [] else inp (os x) fd)"

text \<open>
  A step of reading: \<open>k\<close> bytes of what is available on \<open>fd\<close> are taken, and nothing else of what the environment decides
  changes.
\<close>

definition took :: "int \<Rightarrow> nat \<Rightarrow> io \<Rightarrow> io \<Rightarrow> bool" where
  "took fd k x x' \<longleftrightarrow> avail x' = (avail x)(fd := drop k (avail x fd)) \<and> rd_ans (os x') = rd_ans (os x)
     \<and> rd_n (os x) \<le> rd_n (os x') \<and> k \<le> length (avail x fd)"

text \<open>Only finitely many calls are interrupted; some call fails for another reason.\<close>

definition settles :: "io \<Rightarrow> bool" where
  "settles x \<longleftrightarrow> (\<exists>N. \<forall>m \<ge> N. rd_ans (os x) m \<noteq> - EINTR)"

definition fails :: "io \<Rightarrow> bool" where
  "fails x \<longleftrightarrow> (\<exists>m \<ge> rd_n (os x). rd_ans (os x) m < 0 \<and> rd_ans (os x) m \<noteq> - EINTR)"

lemma took_refl [simp]: "took fd 0 x x"
  by (simp add: took_def)

lemma took_trans:
  assumes "took fd j x y" and "took fd k y z"
  shows "took fd (j + k) x z"
  using assms by (auto simp: took_def add.commute)

lemma took_avail: "took fd k x y \<Longrightarrow> avail y fd = drop k (avail x fd)"
  by (simp add: took_def)

lemma took_fails: "took fd k x y \<Longrightarrow> fails y \<Longrightarrow> fails x"
  unfolding took_def fails_def using le_trans by fastforce

lemma took_settles: "took fd k x y \<Longrightarrow> settles y = settles x"
  by (simp add: took_def settles_def)

lemma read_e_cases:
  assumes "0 < n" and "read_e fd n x = ((r, bs), y)"
  obtains (intr) "r < 0" "bs = []" "errno y = EINTR" "took fd 0 x y" "rd_ans (os x) (rd_n (os x)) = - EINTR"
        "rd_n (os y) = Suc (rd_n (os x))"
    | (fail) "r = -1" "bs = []" "errno y \<noteq> EINTR" "took fd 0 x y" "fails x"
    | (eof) "r = 0" "bs = []" "took fd 0 x y" "avail x fd = []"
    | (data) k where "r = int k" "0 < k" "k \<le> n" "k \<le> length (avail x fd)" "bs = take k (avail x fd)" "took fd k x y"
        "rd_n (os y) = Suc (rd_n (os x))"
proof -
  let ?s = "os x" and ?a = "rd_ans (os x) (rd_n (os x))"
  obtain s where y: "read_fd fd n ?s = ((r, bs), s)" "y = x\<lparr>os := s, errno := (if r < 0 then - ?a else errno x)\<rparr>"
    using assms(2) by (auto simp: read_e_def split: prod.splits)
  consider "?a < 0" | "0 \<le> ?a" "rd_shut ?s fd" | "0 \<le> ?a" "\<not> rd_shut ?s fd" by linarith
  then show ?thesis
  proof cases
    case 1
    then have s: "r = -1" "bs = []" "s = ?s\<lparr>rd_n := Suc (rd_n ?s)\<rparr>" using y(1) by (auto simp: read_fd_def Let_def)
    then have t: "took fd 0 x y" "errno y = - ?a" "rd_n (os y) = Suc (rd_n ?s)"
      using y(2) by (auto simp: took_def avail_def fun_eq_iff)
    show ?thesis
    proof (cases "?a = - EINTR")
      case True
      then show ?thesis using intr s t by simp
    next
      case False
      then have "fails x" using 1 unfolding fails_def by blast
      moreover have "errno y \<noteq> EINTR" using False t(2) by simp
      ultimately show ?thesis using fail s t by simp
    qed
  next
    case 2
    then have "r = 0" "bs = []" "s = ?s\<lparr>rd_n := Suc (rd_n ?s)\<rparr>" using y(1) by (auto simp: read_fd_def Let_def)
    then show ?thesis using eof y(2) 2 by (auto simp: took_def avail_def fun_eq_iff)
  next
    case 3
    define k where "k = min (max 1 (nat ?a)) (min n (length (inp ?s fd)))"
    have s: "r = int k" "bs = take k (inp ?s fd)"
        "s = ?s\<lparr>rd_n := Suc (rd_n ?s), inp := (inp ?s)(fd := drop k (inp ?s fd))\<rparr>"
      using y(1) 3 unfolding k_def by (auto simp: read_fd_def Let_def)
    have av: "avail x fd = inp ?s fd" using 3 by (simp add: avail_def)
    have le: "k \<le> n" "k \<le> length (avail x fd)" unfolding av k_def by simp_all
    have t: "took fd k x y" "rd_n (os y) = Suc (rd_n ?s)"
      using y(2) 3 le unfolding s(1,3) by (auto simp: took_def avail_def fun_eq_iff)
    show ?thesis
    proof (cases "inp ?s fd = []")
      case True
      then have "k = 0" by (simp add: k_def)
      show ?thesis
      proof (rule eof)
        show "r = 0" "bs = []" "took fd 0 x y" "avail x fd = []" using s(1,2) t(1) av True \<open>k = 0\<close> by simp_all
      qed
    next
      case False
      then have "0 < k" using assms(1) by (simp add: k_def less_max_iff_disj)
      then show ?thesis by (rule data [OF s(1) _ le s(2) [folded av] t])
    qed
  qed
qed

section \<open>Unbuffered reading\<close>

lemma readn_loop_spec:
  assumes "settles x"
  shows "\<exists>r k y. readn_loop fd nleft buf x = Some ((r, nleft - k, buf @ take k (avail x fd)), y) \<and> took fd k x y \<and> k \<le> nleft
    \<and> (r = 0 \<and> (k = nleft \<or> k = length (avail x fd)) \<or> r = -1 \<and> fails x)"
proof -
  obtain N where "\<forall>m \<ge> N. rd_ans (os x) m \<noteq> - EINTR" using assms by (auto simp: settles_def)
  then show ?thesis
  proof (induction "nleft + (N - rd_n (os x))" arbitrary: nleft buf x rule: less_induct)
    case less
    show ?case
    proof (cases "nleft = 0")
      case True
      then show ?thesis by (intro exI [of _ 0] exI [of _ "0 :: nat"] exI [of _ x]) (subst readn_loop.simps, simp)
    next
      case False
      obtain r bs y where e: "read_e fd nleft x = ((r, bs), y)" by (metis prod.exhaust)
      have pos: "0 < nleft" using False by simp
      note un = readn_loop.simps [of fd nleft buf x]
      from pos e show ?thesis
      proof (cases rule: read_e_cases)
        case intr
        have "rd_n (os x) < N" using less.prems intr(5) by (meson not_le)
        then have "nleft + (N - rd_n (os y)) < nleft + (N - rd_n (os x))" using intr(6) by simp
        moreover have "\<forall>m \<ge> N. rd_ans (os y) m \<noteq> - EINTR" using less.prems intr(4) by (simp add: took_def)
        ultimately obtain r' k z where z: "readn_loop fd nleft buf y = Some ((r', nleft - k, buf @ take k (avail y fd)), z)"
            "took fd k y z" "k \<le> nleft" "r' = 0 \<and> (k = nleft \<or> k = length (avail y fd)) \<or> r' = -1 \<and> fails y"
          using less.hyps [of nleft y buf] by blast
        have av: "avail y fd = avail x fd" using took_avail [OF intr(4)] by simp
        have "readn_loop fd nleft buf x = readn_loop fd nleft buf y" using un e intr(1,3) False by simp
        then show ?thesis using z took_trans [OF intr(4) z(2)] took_fails [OF intr(4)] unfolding av
          by (intro exI [of _ r'] exI [of _ k] exI [of _ z]) auto
      next
        case fail
        then show ?thesis using un e False
          by (intro exI [of _ "-1"] exI [of _ "0 :: nat"] exI [of _ y]) simp
      next
        case eof
        then show ?thesis using un e False
          by (intro exI [of _ 0] exI [of _ "0 :: nat"] exI [of _ y]) simp
      next
        case (data k)
        have "(nleft - k) + (N - rd_n (os y)) < nleft + (N - rd_n (os x))" using data(2,3,7) by simp
        moreover have "\<forall>m \<ge> N. rd_ans (os y) m \<noteq> - EINTR" using less.prems data(6) by (simp add: took_def)
        ultimately obtain r' j z where z: "readn_loop fd (nleft - k) (buf @ bs) y
              = Some ((r', nleft - k - j, (buf @ bs) @ take j (avail y fd)), z)"
            "took fd j y z" "j \<le> nleft - k" "r' = 0 \<and> (j = nleft - k \<or> j = length (avail y fd)) \<or> r' = -1 \<and> fails y"
          using less.hyps [of "nleft - k" y "buf @ bs"] by blast
        have av: "avail y fd = drop k (avail x fd)" using took_avail [OF data(6)] .
        have "readn_loop fd nleft buf x = readn_loop fd (nleft - k) (buf @ bs) y" using un e data(1,2) False by simp
        also have "\<dots> = Some ((r', nleft - (k + j), buf @ take (k + j) (avail x fd)), z)"
          using z(1) unfolding av data(5) by (simp add: take_add)
        finally show ?thesis
          using z(2-4) took_trans [OF data(6) z(2)] took_fails [OF data(6)] data(3,4) unfolding av
          by (intro exI [of _ r'] exI [of _ "k + j"] exI [of _ z]) auto
      qed
    qed
  qed
qed

lemma rio_readn_spec:
  assumes "settles x"
  shows "\<exists>r k y. rio_readn fd n x = Some ((r, take k (avail x fd)), y) \<and> took fd k x y \<and> k \<le> n
    \<and> (r = int k \<and> (k = n \<or> k = length (avail x fd)) \<or> r = -1 \<and> fails x)"
proof -
  obtain r k y where y: "readn_loop fd n [] x = Some ((r, n - k, [] @ take k (avail x fd)), y)" "took fd k x y" "k \<le> n"
      "r = 0 \<and> (k = n \<or> k = length (avail x fd)) \<or> r = -1 \<and> fails x"
    using readn_loop_spec [OF assms] by blast
  show ?thesis
  proof (cases "r = -1")
    case True
    then show ?thesis using y by (intro exI [of _ "-1"] exI [of _ k] exI [of _ y]) (simp add: rio_readn_def)
  next
    case False
    then show ?thesis using y by (intro exI [of _ "int k"] exI [of _ k] exI [of _ y]) (simp add: rio_readn_def)
  qed
qed

section \<open>Unbuffered writing\<close>

definition w_settles :: "io \<Rightarrow> bool" where
  "w_settles x \<longleftrightarrow> (\<exists>N. \<forall>m \<ge> N. 0 < wr_ans (os x) m)"

definition w_fails :: "io \<Rightarrow> bool" where
  "w_fails x \<longleftrightarrow> (\<exists>m \<ge> wr_n (os x). wr_ans (os x) m \<le> 0 \<and> wr_ans (os x) m \<noteq> - EINTR)"

definition wrote :: "int \<Rightarrow> byte list \<Rightarrow> io \<Rightarrow> io \<Rightarrow> bool" where
  "wrote fd bs x y \<longleftrightarrow> outp (os y) = (outp (os x))(fd := outp (os x) fd @ bs) \<and> wr_ans (os y) = wr_ans (os x)
     \<and> wr_n (os x) \<le> wr_n (os y)"

lemma wrote_refl [simp]: "wrote fd [] x x"
  by (simp add: wrote_def)

lemma wrote_trans: "wrote fd bs x y \<Longrightarrow> wrote fd cs y z \<Longrightarrow> wrote fd (bs @ cs) x z"
  by (simp add: wrote_def)

lemma wrote_fails: "wrote fd bs x y \<Longrightarrow> w_fails y \<Longrightarrow> w_fails x"
  unfolding wrote_def w_fails_def using le_trans by fastforce

lemma write_e_cases:
  assumes "bs \<noteq> []" and "write_e fd bs x = (r, y)"
  obtains (intr) "r \<le> 0" "errno y = EINTR" "wrote fd [] x y" "wr_ans (os x) (wr_n (os x)) \<le> 0" "wr_n (os y) = Suc (wr_n (os x))"
    | (fail) "r \<le> 0" "errno y \<noteq> EINTR" "wrote fd [] x y" "w_fails x"
    | (data) k where "r = int k" "0 < k" "k \<le> length bs" "wrote fd (take k bs) x y" "wr_n (os y) = Suc (wr_n (os x))"
proof -
  let ?s = "os x" and ?a = "wr_ans (os x) (wr_n (os x))"
  obtain s where y: "write_fd fd bs ?s = (r, s)" "y = x\<lparr>os := s, errno := (if r < 0 then - ?a else errno x)\<rparr>"
    using assms(2) by (auto simp: write_e_def split: prod.splits)
  show ?thesis
  proof (cases "?a \<le> 0")
    case True
    then have s: "r \<le> 0" "s = ?s\<lparr>wr_n := Suc (wr_n ?s)\<rparr>" "r < 0 \<longleftrightarrow> ?a < 0"
      using y(1) by (auto simp: write_fd_def Let_def split: if_splits)
    have t: "wrote fd [] x y" "wr_n (os y) = Suc (wr_n ?s)" using y(2) s(2) by (simp_all add: wrote_def)
    show ?thesis
    proof (cases "errno y = EINTR")
      case True
      then show ?thesis using intr s t \<open>?a \<le> 0\<close> by simp
    next
      case False
      then have "?a \<noteq> - EINTR" using y(2) s(3) by (auto simp: EINTR_def)
      then have "w_fails x" using True unfolding w_fails_def by blast
      then show ?thesis using fail s t False by simp
    qed
  next
    case False
    define k where "k = min (nat ?a) (length bs)"
    have s: "r = int k" "s = ?s\<lparr>wr_n := Suc (wr_n ?s), outp := (outp ?s)(fd := outp ?s fd @ take k bs)\<rparr>"
      using y(1) False unfolding k_def by (auto simp: write_fd_def Let_def)
    have "wrote fd (take k bs) x y" "wr_n (os y) = Suc (wr_n ?s)" using y(2) unfolding s(2) by (simp_all add: wrote_def)
    moreover have "0 < k" "k \<le> length bs" using False assms(1) by (simp_all add: k_def)
    ultimately show ?thesis using data [OF s(1)] by blast
  qed
qed

lemma writen_loop_spec:
  assumes "w_settles x"
  shows "\<exists>r k y. writen_loop fd bs x = Some (r, y) \<and> wrote fd (take k bs) x y \<and> k \<le> length bs
    \<and> (r = 0 \<and> k = length bs \<or> r = -1 \<and> w_fails x)"
proof -
  obtain N where "\<forall>m \<ge> N. 0 < wr_ans (os x) m" using assms by (auto simp: w_settles_def)
  then show ?thesis
  proof (induction "length bs + (N - wr_n (os x))" arbitrary: bs x rule: less_induct)
    case less
    show ?case
    proof (cases "bs = []")
      case True
      then show ?thesis by (intro exI [of _ 0] exI [of _ "0 :: nat"] exI [of _ x]) (subst writen_loop.simps, simp)
    next
      case False
      obtain r y where e: "write_e fd bs x = (r, y)" by (metis prod.exhaust)
      note un = writen_loop.simps [of fd bs x]
      from False e show ?thesis
      proof (cases rule: write_e_cases)
        case intr
        have "wr_n (os x) < N" using less.prems intr(4) by (meson not_le)
        then have "length bs + (N - wr_n (os y)) < length bs + (N - wr_n (os x))" using intr(5) by simp
        moreover have "\<forall>m \<ge> N. 0 < wr_ans (os y) m" using less.prems intr(3) by (simp add: wrote_def)
        ultimately obtain r' k z where z: "writen_loop fd bs y = Some (r', z)" "wrote fd (take k bs) y z" "k \<le> length bs"
            "r' = 0 \<and> k = length bs \<or> r' = -1 \<and> w_fails y"
          using less.hyps [of bs y] by blast
        have "writen_loop fd bs x = writen_loop fd bs y" using un e intr(1,2) False by simp
        then show ?thesis using z wrote_trans [OF intr(3) z(2)] wrote_fails [OF intr(3)]
          by (intro exI [of _ r'] exI [of _ k] exI [of _ z]) auto
      next
        case fail
        then show ?thesis using un e False by (intro exI [of _ "-1"] exI [of _ "0 :: nat"] exI [of _ y]) simp
      next
        case (data k)
        have "length (drop k bs) + (N - wr_n (os y)) < length bs + (N - wr_n (os x))" using data(2,3,5) by simp
        moreover have "\<forall>m \<ge> N. 0 < wr_ans (os y) m" using less.prems data(4) by (simp add: wrote_def)
        ultimately obtain r' j z where z: "writen_loop fd (drop k bs) y = Some (r', z)" "wrote fd (take j (drop k bs)) y z"
            "j \<le> length (drop k bs)" "r' = 0 \<and> j = length (drop k bs) \<or> r' = -1 \<and> w_fails y"
          using less.hyps [of "drop k bs" y] by blast
        have "writen_loop fd bs x = writen_loop fd (drop k bs) y" using un e data(1,2) False by simp
        then show ?thesis
          using z wrote_trans [OF data(4) z(2)] wrote_fails [OF data(4)] data(3)
          by (intro exI [of _ r'] exI [of _ "k + j"] exI [of _ z]) (auto simp: take_add)
      qed
    qed
  qed
qed

lemma rio_writen_spec:
  assumes "w_settles x"
  shows "\<exists>r k y. rio_writen fd bs x = Some (r, y) \<and> wrote fd (take k bs) x y \<and> k \<le> length bs
    \<and> (r = int (length bs) \<and> k = length bs \<or> r = -1 \<and> w_fails x)"
proof -
  obtain r k y where y: "writen_loop fd bs x = Some (r, y)" "wrote fd (take k bs) x y" "k \<le> length bs"
      "r = 0 \<and> k = length bs \<or> r = -1 \<and> w_fails x"
    using writen_loop_spec [OF assms] by blast
  then show ?thesis by (intro exI [of _ "if r = -1 then -1 else int (length bs)"] exI [of _ k] exI [of _ y]) (auto simp: rio_writen_def)
qed

section \<open>Buffered reading\<close>

text \<open>
  The unread bytes in the buffer and those still to come from the descriptor are the stream that the
  buffered functions read from.
\<close>

definition rio_ok :: "rio_t \<Rightarrow> bool" where
  "rio_ok rp \<longleftrightarrow> length (rio_buf rp) = RIO_BUFSIZE \<and> (0 < rio_cnt rp \<longrightarrow> rio_bufptr rp + nat (rio_cnt rp) \<le> RIO_BUFSIZE)"

definition unread :: "rio_t \<Rightarrow> byte list" where
  "unread rp = take (nat (rio_cnt rp)) (drop (rio_bufptr rp) (rio_buf rp))"

definition stream :: "rio_t \<Rightarrow> io \<Rightarrow> byte list" where
  "stream rp x = unread rp @ avail x (rio_fd rp)"

definition consumed :: "nat \<Rightarrow> rio_t \<Rightarrow> io \<Rightarrow> rio_t \<Rightarrow> io \<Rightarrow> bool" where
  "consumed k rp x rp' x' \<longleftrightarrow> rio_ok rp' \<and> rio_fd rp' = rio_fd rp \<and> stream rp' x' = drop k (stream rp x)
     \<and> k \<le> length (stream rp x) \<and> (\<exists>j. took (rio_fd rp) j x x')"

lemma consumed_refl: "rio_ok rp \<Longrightarrow> consumed 0 rp x rp x"
  unfolding consumed_def by (auto intro: exI [of _ 0])

lemma consumed_trans:
  assumes "consumed j rp x rp1 x1" and "consumed k rp1 x1 rp2 x2"
  shows "consumed (j + k) rp x rp2 x2"
  using assms took_trans by (fastforce simp: consumed_def add.commute)

lemma consumed_env: "consumed k rp x rp' x' \<Longrightarrow> settles x' = settles x" "consumed k rp x rp' x' \<Longrightarrow> fails x' \<Longrightarrow> fails x"
  using took_settles took_fails by (auto simp: consumed_def)

lemma length_unread: "rio_ok rp \<Longrightarrow> length (unread rp) = nat (rio_cnt rp)"
  by (cases "0 < rio_cnt rp") (auto simp: unread_def rio_ok_def)

lemma rio_refill_spec:
  assumes "settles x" and "rio_ok rp"
  shows "\<exists>c rp' y. rio_refill rp x = Some ((c, rp'), y) \<and> consumed 0 rp x rp' y
    \<and> (c = 1 \<and> 0 < rio_cnt rp' \<or> c = 0 \<and> stream rp x = [] \<or> c = -1 \<and> fails x \<and> errno y \<noteq> EINTR)"
proof -
  obtain N where "\<forall>m \<ge> N. rd_ans (os x) m \<noteq> - EINTR" using assms(1) by (auto simp: settles_def)
  then show ?thesis using assms(2)
  proof (induction "N - rd_n (os x)" arbitrary: rp x rule: less_induct)
    case less
    show ?case
    proof (cases "0 < rio_cnt rp")
      case True
      then show ?thesis using consumed_refl [OF less.prems(2)]
        by (intro exI [of _ 1] exI [of _ rp] exI [of _ x]) (subst rio_refill.simps, simp)
    next
      case False
      obtain r bs y where e: "read_e (rio_fd rp) RIO_BUFSIZE x = ((r, bs), y)" by (metis prod.exhaust)
      have pos: "0 < RIO_BUFSIZE" by (simp add: RIO_BUFSIZE_def)
      note un = rio_refill.simps [of rp x]
      have st: "stream rp x = avail x (rio_fd rp)" using False by (simp add: stream_def unread_def)
      have step: "consumed 0 rp x (rp\<lparr>rio_cnt := q\<rparr>) y" if "q \<le> 0" "took (rio_fd rp) 0 x y" for q
        using that less.prems(2) took_avail [OF that(2)] st
        unfolding consumed_def stream_def unread_def rio_ok_def by auto
      from pos e show ?thesis
      proof (cases rule: read_e_cases)
        case intr
        have "rd_n (os x) < N" using less.prems(1) intr(5) by (meson not_le)
        then have "N - rd_n (os y) < N - rd_n (os x)" using intr(6) by simp
        moreover have "\<forall>m \<ge> N. rd_ans (os y) m \<noteq> - EINTR" using less.prems(1) intr(4) by (simp add: took_def)
        moreover have c: "consumed 0 rp x (rp\<lparr>rio_cnt := r\<rparr>) y" using step intr(1,4) by simp
        moreover have "rio_ok (rp\<lparr>rio_cnt := r\<rparr>)" using c by (simp add: consumed_def)
        ultimately obtain c' rp' z where z: "rio_refill (rp\<lparr>rio_cnt := r\<rparr>) y = Some ((c', rp'), z)"
            "consumed 0 (rp\<lparr>rio_cnt := r\<rparr>) y rp' z"
            "c' = 1 \<and> 0 < rio_cnt rp' \<or> c' = 0 \<and> stream (rp\<lparr>rio_cnt := r\<rparr>) y = [] \<or> c' = -1 \<and> fails y \<and> errno z \<noteq> EINTR"
          using less.hyps [of y "rp\<lparr>rio_cnt := r\<rparr>"] by blast
        have "rio_refill rp x = rio_refill (rp\<lparr>rio_cnt := r\<rparr>) y" using un e intr(1,3) False by simp
        moreover have "stream (rp\<lparr>rio_cnt := r\<rparr>) y = stream rp x" using c by (simp add: consumed_def)
        ultimately show ?thesis using z consumed_trans [OF c z(2)] consumed_env(2) [OF c]
          by (intro exI [of _ c'] exI [of _ rp'] exI [of _ z]) auto
      next
        case fail
        then show ?thesis using un e False step [of r]
          by (intro exI [of _ "-1"] exI [of _ "rp\<lparr>rio_cnt := r\<rparr>"] exI [of _ y]) simp
      next
        case eof
        then show ?thesis using un e False step [of r] st
          by (intro exI [of _ 0] exI [of _ "rp\<lparr>rio_cnt := r\<rparr>"] exI [of _ y]) simp
      next
        case (data k)
        define rp' where "rp' = rp\<lparr>rio_cnt := r, rio_buf := bs @ drop (length bs) (rio_buf rp), rio_bufptr := 0\<rparr>"
        have k: "length bs = k" "k \<le> RIO_BUFSIZE" using data(3-5) by auto
        have "rio_ok rp'" using less.prems(2) k data(1) by (simp add: rp'_def rio_ok_def)
        moreover have "stream rp' y = stream rp x"
          using data(1,4,5) k took_avail [OF data(6)] unfolding st by (simp add: stream_def unread_def rp'_def)
        ultimately have c: "consumed 0 rp x rp' y" using data(6) unfolding consumed_def by (auto simp: rp'_def)
        have pos': "0 < rio_cnt rp'" using data(1,2) by (simp add: rp'_def)
        have "rio_refill rp x = rio_refill rp' y" using un e data(1,2) False by (simp add: rp'_def)
        also have "\<dots> = Some ((1, rp'), y)" using pos' by (subst rio_refill.simps) simp
        finally show ?thesis using c pos' by (intro exI [of _ 1] exI [of _ rp'] exI [of _ y]) simp
      qed
    qed
  qed
qed

lemma rio_read_spec:
  assumes "settles x" and "rio_ok rp" and "0 < n"
  shows "\<exists>r k rp' y. rio_read rp n x = Some (Inr ((r, take k (stream rp x)), rp', y)) \<and> consumed k rp x rp' y \<and> k \<le> n
    \<and> (r = int k \<and> 0 < k \<or> r = 0 \<and> k = 0 \<and> stream rp x = [] \<or> r = -1 \<and> k = 0 \<and> fails x \<and> errno y \<noteq> EINTR)"
proof -
  obtain c rp1 y where f: "rio_refill rp x = Some ((c, rp1), y)" "consumed 0 rp x rp1 y"
      "c = 1 \<and> 0 < rio_cnt rp1 \<or> c = 0 \<and> stream rp x = [] \<or> c = -1 \<and> fails x \<and> errno y \<noteq> EINTR"
    using rio_refill_spec [OF assms(1,2)] by blast
  have ok: "rio_ok rp1" "stream rp1 y = stream rp x" using f(2) by (simp_all add: consumed_def)
  show ?thesis
  proof (cases "c = 1")
    case True
    then have cnt: "0 < rio_cnt rp1" using f(3) by auto
    define k where "k = min (nat (rio_cnt rp1)) n"
    have q: "(if rio_cnt rp1 < int n then rio_cnt rp1 else int n) = int k" using cnt by (cases "rio_cnt rp1 < int n") (auto simp: k_def)
    have kc: "k \<le> nat (rio_cnt rp1)" by (simp add: k_def)
    then have fit: "rio_bufptr rp1 + k \<le> length (rio_buf rp1)" using ok(1) cnt unfolding rio_ok_def by linarith
    have kl: "k \<le> length (unread rp1)" using length_unread [OF ok(1)] by (simp add: k_def)
    define rp2 where "rp2 = rp1\<lparr>rio_bufptr := rio_bufptr rp1 + k, rio_cnt := rio_cnt rp1 - int k\<rparr>"
    have "nat (rio_cnt rp1 - int k) = nat (rio_cnt rp1) - k" by simp
    then have u: "unread rp2 = drop k (unread rp1)"
      by (simp add: unread_def rp2_def drop_take add.commute)
    have t: "take k (drop (rio_bufptr rp1) (rio_buf rp1)) = take k (stream rp x)"
    proof -
      have "take k (drop (rio_bufptr rp1) (rio_buf rp1)) = take k (unread rp1)" using kc by (simp add: unread_def min_absorb1)
      also have "\<dots> = take k (stream rp1 y)" using kl by (simp add: stream_def)
      finally show ?thesis by (simp add: ok(2))
    qed
    have "rio_ok rp2" using ok(1) cnt by (auto simp: rio_ok_def rp2_def k_def nat_diff_distrib')
    moreover have "stream rp2 y = drop k (stream rp1 y)" using kl u by (simp add: stream_def rp2_def)
    ultimately have "consumed k rp x rp2 y"
      using f(2) kl unfolding consumed_def ok(2) [symmetric] by (auto simp: rp2_def stream_def)
    moreover have "rio_read rp n x = Some (Inr ((int k, take k (stream rp x)), rp2, y))"
      using f(1) True q fit t by (simp add: rio_read_def rp2_def Let_def)
    moreover have "0 < k" "k \<le> n" using cnt assms(3) by (simp_all add: k_def)
    ultimately show ?thesis by blast
  next
    case False
    then have "rio_read rp n x = Some (Inr ((c, take 0 (stream rp x)), rp1, y))" using f(1,3) by (auto simp: rio_read_def)
    then show ?thesis using f(2,3) False by (intro exI [of _ c] exI [of _ "0 :: nat"] exI [of _ rp1] exI [of _ y]) auto
  qed
qed

lemma readnb_loop_spec:
  assumes "settles x" and "rio_ok rp"
  shows "\<exists>r k rp' y. readnb_loop rp nleft buf x = Some (Inr ((r, nleft - k, buf @ take k (stream rp x)), rp', y))
    \<and> consumed k rp x rp' y \<and> k \<le> nleft \<and> (r = 0 \<and> (k = nleft \<or> k = length (stream rp x)) \<or> r = -1 \<and> fails x)"
  using assms
proof (induction nleft arbitrary: rp buf x rule: less_induct)
  case (less nleft)
  show ?case
  proof (cases "nleft = 0")
    case True
    then show ?thesis using consumed_refl [OF less.prems(2)]
      by (intro exI [of _ 0] exI [of _ "0 :: nat"] exI [of _ rp] exI [of _ x]) (subst readnb_loop.simps, simp)
  next
    case False
    obtain r k rp1 y where c: "rio_read rp nleft x = Some (Inr ((r, take k (stream rp x)), rp1, y))" "consumed k rp x rp1 y" "k \<le> nleft"
        "r = int k \<and> 0 < k \<or> r = 0 \<and> k = 0 \<and> stream rp x = [] \<or> r = -1 \<and> k = 0 \<and> fails x \<and> errno y \<noteq> EINTR"
      using rio_read_spec [OF less.prems, of nleft] False by blast
    note un = readnb_loop.simps [of rp nleft buf x]
    show ?thesis
    proof (cases "0 < k")
      case False
      then show ?thesis using un c \<open>nleft \<noteq> 0\<close>
        by (intro exI [of _ r] exI [of _ "0 :: nat"] exI [of _ rp1] exI [of _ y]) auto
    next
      case True
      then have r: "r = int k" using c(4) by auto
      have st: "stream rp1 y = drop k (stream rp x)" "rio_ok rp1" "k \<le> length (stream rp x)" using c(2) by (simp_all add: consumed_def)
      have "settles y" using less.prems(1) consumed_env(1) [OF c(2)] by simp
      then obtain r' j rp2 z where z: "readnb_loop rp1 (nleft - k) (buf @ take k (stream rp x)) y
            = Some (Inr ((r', nleft - k - j, (buf @ take k (stream rp x)) @ take j (stream rp1 y)), rp2, z))"
          "consumed j rp1 y rp2 z" "j \<le> nleft - k"
          "r' = 0 \<and> (j = nleft - k \<or> j = length (stream rp1 y)) \<or> r' = -1 \<and> fails y"
        using less.IH [of "nleft - k" y rp1 "buf @ take k (stream rp x)"] st(2) True False by auto
      have "readnb_loop rp nleft buf x = readnb_loop rp1 (nleft - k) (buf @ take k (stream rp x)) y"
        using un c(1) r True False by simp
      also have "\<dots> = Some (Inr ((r', nleft - (k + j), buf @ take (k + j) (stream rp x)), rp2, z))"
        using z(1) unfolding st(1) by (simp add: take_add)
      finally show ?thesis
        using z(2-4) consumed_trans [OF c(2) z(2)] consumed_env(2) [OF c(2)] c(3) st(3) unfolding st(1)
        by (intro exI [of _ r'] exI [of _ "k + j"] exI [of _ rp2] exI [of _ z]) auto
    qed
  qed
qed

lemma rio_readnb_spec:
  assumes "settles x" and "rio_ok rp"
  shows "\<exists>r k rp' y. rio_readnb rp n x = Some (Inr ((r, take k (stream rp x)), rp', y)) \<and> consumed k rp x rp' y \<and> k \<le> n
    \<and> (r = int k \<and> (k = n \<or> k = length (stream rp x)) \<or> r = -1 \<and> fails x)"
proof -
  obtain r k rp' y where y: "readnb_loop rp n [] x = Some (Inr ((r, n - k, [] @ take k (stream rp x)), rp', y))"
      "consumed k rp x rp' y" "k \<le> n" "r = 0 \<and> (k = n \<or> k = length (stream rp x)) \<or> r = -1 \<and> fails x"
    using readnb_loop_spec [OF assms] by blast
  then show ?thesis
    by (intro exI [of _ "if r = -1 then -1 else int k"] exI [of _ k] exI [of _ rp'] exI [of _ y]) (auto simp: rio_readnb_def)
qed

text \<open>The next line of a stream, of at most \<open>k\<close> bytes, with the newline that ends it.\<close>

fun text_line :: "nat \<Rightarrow> byte list \<Rightarrow> byte list" where
  "text_line 0 st = []"
| "text_line k [] = []"
| "text_line (Suc k) (c # st) = c # (if c = 10 then [] else text_line k st)"

lemma text_line_length: "length (text_line k st) \<le> k" "length (text_line k st) \<le> length st"
  by (induction k st rule: text_line.induct) auto

lemma text_line_take: "text_line k st = take (length (text_line k st)) st"
  by (induction k st rule: text_line.induct) auto

definition ended :: "byte list \<Rightarrow> bool" where
  "ended line \<longleftrightarrow> line \<noteq> [] \<and> last line = 10"

text \<open>
  The result of \<open>rio_readlineb\<close> is the number of bytes of the line if it has a newline, one more if it was
  cut off, and 0, with nothing stored, at the end of the stream.
\<close>

lemma readline_loop_spec:
  assumes "settles x" and "rio_ok rp" and "\<not> fails x" and "n = Suc (length buf)" and "\<not> ended buf"
  shows "\<exists>rp' y. consumed (length (text_line k (stream rp x))) rp x rp' y \<and> readline_loop k n buf rp x =
     Some (Inr (let line = buf @ text_line k (stream rp x) in
       if 0 < k \<and> line = [] then (0, []) else (if ended line then int (length line) else int (length line) + 1, line @ [0]), rp', y))"
  using assms
proof (induction k arbitrary: n buf rp x)
  case 0
  then show ?case using consumed_refl [OF "0.prems"(2)] by (intro exI [of _ rp] exI [of _ x]) auto
next
  case (Suc k)
  obtain r j rp1 y where c: "rio_read rp 1 x = Some (Inr ((r, take j (stream rp x)), rp1, y))" "consumed j rp x rp1 y" "j \<le> 1"
      "r = int j \<and> 0 < j \<or> r = 0 \<and> j = 0 \<and> stream rp x = [] \<or> r = -1 \<and> j = 0 \<and> fails x \<and> errno y \<noteq> EINTR"
    using rio_read_spec [OF Suc.prems(1,2), of 1] by auto
  show ?case
  proof (cases "j = 0")
    case True
    then have "r = 0" "stream rp x = []" using c(4) Suc.prems(3) by auto
    then show ?thesis using c(1,2) True Suc.prems(4,5)
      by (intro exI [of _ rp1] exI [of _ y]) (auto simp: ended_def)
  next
    case False
    then have j: "j = 1" "r = 1" using c(3,4) by auto
    then obtain b st where b: "stream rp x = b # st" using c(2) by (cases "stream rp x") (auto simp: consumed_def)
    have st: "stream rp1 y = st" "rio_ok rp1" using c(2) j b by (simp_all add: consumed_def)
    have e: "readline_loop (Suc k) n buf rp x = (if b = 10 then Some (Inr ((int n, buf @ [b] @ [0]), rp1, y))
        else readline_loop k (Suc n) (buf @ [b]) rp1 y)"
      using c(1) j b by simp
    show ?thesis
    proof (cases "b = 10")
      case True
      then show ?thesis using c(2) e j b Suc.prems(4)
        by (intro exI [of _ rp1] exI [of _ y]) (simp add: ended_def)
    next
      case False
      have "settles y" "\<not> fails y" using Suc.prems(1,3) consumed_env [OF c(2)] by auto
      then obtain rp2 z where z: "consumed (length (text_line k st)) rp1 y rp2 z" "readline_loop k (Suc n) (buf @ [b]) rp1 y =
          Some (Inr (let line = (buf @ [b]) @ text_line k st in
            if 0 < k \<and> line = [] then (0, []) else (if ended line then int (length line) else int (length line) + 1, line @ [0]), rp2, z))"
        using Suc.IH [of y rp1 "Suc n" "buf @ [b]"] st Suc.prems(4) False by (auto simp: ended_def)
      have "consumed (length (text_line (Suc k) (stream rp x))) rp x rp2 z"
        using consumed_trans [OF c(2) z(1)] j b False by simp
      then show ?thesis using e z(2) b False by (intro exI [of _ rp2] exI [of _ z]) (simp add: Let_def)
    qed
  qed
qed

section \<open>Properties\<close>

text \<open>
  C35: If no read fails but for finitely many interruptions, reading with a fresh buffer gives what reading
  without one gives, however the kernel splits the data: the bytes asked for, or all that come before the end; and
  what comes after is left to be read next.
\<close>

theorem rio_buffered_is_unbuffered:
  assumes "settles x" and "\<not> fails x" and "length (rio_buf rp) = RIO_BUFSIZE" and "bytes = take n (avail x fd)"
  shows "\<exists>y rp' z. rio_readn fd n x = Some ((int (length bytes), bytes), y)
    \<and> rio_readnb (rio_readinitb fd rp) n x = Some (Inr ((int (length bytes), bytes), rp', z))
    \<and> avail y fd = drop n (avail x fd) \<and> stream rp' z = drop n (avail x fd)"
proof -
  let ?rp = "rio_readinitb fd rp" and ?a = "avail x fd"
  have rp: "rio_ok ?rp" "stream ?rp x = ?a" using assms(3) by (simp_all add: rio_readinitb_def rio_ok_def stream_def unread_def)
  obtain k y where u: "rio_readn fd n x = Some ((int k, take k ?a), y)" "took fd k x y" "k \<le> n" "k = n \<or> k = length ?a"
    using rio_readn_spec [OF assms(1), of fd n] assms(2) by blast
  obtain j rp' z where b: "rio_readnb ?rp n x = Some (Inr ((int j, take j ?a), rp', z))" "consumed j ?rp x rp' z" "j \<le> n"
      "j = n \<or> j = length ?a"
    using rio_readnb_spec [OF assms(1) rp(1), of n] assms(2) unfolding rp(2) by blast
  have e: "take k ?a = bytes" "drop k ?a = drop n ?a" "int k = int (length bytes)" if "k \<le> length ?a" "k \<le> n" "k = n \<or> k = length ?a" for k
    using that by (auto simp: assms(4))
  have "k \<le> length ?a" using u(2) by (simp add: took_def)
  moreover have "j \<le> length ?a" using b(2) rp(2) by (simp add: consumed_def)
  moreover have "avail y fd = drop k ?a" "stream rp' z = drop j ?a" using took_avail [OF u(2)] b(2) rp(2) by (simp_all add: consumed_def)
  ultimately show ?thesis using u(1) b(1) e [of k] e [of j] u(3,4) b(3,4) by auto
qed

definition demo_io :: io where
  "demo_io = \<lparr>os = calm_sys\<lparr>inp := (\<lambda>_. [97, 98, 10, 99])\<rparr>, errno = 0\<rparr>"

lemma demo_io_ok: "settles demo_io" "\<not> fails demo_io" "avail demo_io fd = [97, 98, 10, 99]" "w_settles demo_io" "\<not> w_fails demo_io"
  by (simp_all add: demo_io_def settles_def fails_def avail_def w_settles_def w_fails_def calm_sys_def EINTR_def)

definition demo_rio :: rio_t where
  "demo_rio = \<lparr>rio_fd = 0, rio_cnt = 0, rio_bufptr = 0, rio_buf = replicate RIO_BUFSIZE 0\<rparr>"

lemma demo_rio_length: "length (rio_buf demo_rio) = RIO_BUFSIZE"
  by (simp add: demo_rio_def)

theorem rio_buffered_is_unbuffered_witness:
  "\<exists>y rp' z. rio_readn 3 2 demo_io = Some ((2, [97, 98]), y)
    \<and> rio_readnb (rio_readinitb 3 demo_rio) 2 demo_io = Some (Inr ((2, [97, 98]), rp', z)) \<and> stream rp' z = [10, 99]"
proof -
  have t: "take 2 (avail demo_io 3) = [97, 98]" "drop 2 (avail demo_io 3) = [10, 99]"
    by (simp_all add: demo_io_ok(3) numeral_2_eq_2)
  show ?thesis using rio_buffered_is_unbuffered [OF demo_io_ok(1,2) demo_rio_length t(1) [symmetric]] t(2) by auto
qed

text \<open>
  C36: If no read fails but for finitely many interruptions, a text line is read from the stream of
  the buffer: the bytes up to and with the first newline, at most \<open>maxlen\<close> - 1 of them, and a NUL, so that
  never more than \<open>maxlen\<close> bytes are stored; the rest of the stream is left. The result is the length of the line if it
  has its newline, one more if it was cut off, and 0 at the end of the stream.
\<close>

theorem rio_readlineb_line:
  assumes "settles x" and "\<not> fails x" and "rio_ok rp" and "0 < maxlen"
    and "line = text_line (maxlen - 1) (stream rp x)"
  shows "\<exists>r stored rp' y. rio_readlineb rp maxlen x = Some (Inr ((r, stored), rp', y))
    \<and> stream rp' y = drop (length line) (stream rp x) \<and> rio_ok rp' \<and> length stored \<le> maxlen
    \<and> (if 1 < maxlen \<and> stream rp x = [] then r = 0 \<and> stored = []
       else stored = line @ [0] \<and> r = (if line \<noteq> [] \<and> last line = 10 then int (length line) else int (length line) + 1))"
proof -
  obtain rp' y where c: "consumed (length line) rp x rp' y" "rio_readlineb rp maxlen x =
     Some (Inr (if 0 < maxlen - 1 \<and> line = [] then (0, []) else (if ended line then int (length line) else int (length line) + 1, line @ [0]), rp', y))"
    using readline_loop_spec [OF assms(1,3,2), of "Suc 0" "[]" "maxlen - 1"]
    by (auto simp: rio_readlineb_def assms(5) ended_def Let_def)
  have "line = [] \<longleftrightarrow> stream rp x = []" if "1 < maxlen"
    using that unfolding assms(5) by (cases "maxlen - 1"; cases "stream rp x") auto
  moreover have "length line + 1 \<le> maxlen" using text_line_length(1) [of "maxlen - 1" "stream rp x"] assms(4) by (simp add: assms(5))
  ultimately show ?thesis using c assms(4) by (auto simp: consumed_def ended_def)
qed

theorem rio_readlineb_line_witness:
  "\<exists>rp' y. rio_readlineb (rio_readinitb 3 demo_rio) 80 demo_io = Some (Inr ((3, [97, 98, 10, 0]), rp', y)) \<and> stream rp' y = [99]"
proof -
  have rp: "rio_ok (rio_readinitb 3 demo_rio)" "stream (rio_readinitb 3 demo_rio) demo_io = [97, 98, 10, 99]"
    by (simp_all add: rio_readinitb_def rio_ok_def stream_def unread_def demo_rio_def demo_io_ok)
  have "text_line (Suc (Suc (Suc k))) [97, 98, 10, 99] = [97, 98, 10]" for k by simp
  from this [of 76] have t: "[97, 98, 10] = text_line (80 - 1) (stream (rio_readinitb 3 demo_rio) demo_io)"
    unfolding rp(2) by (simp add: numeral_eq_Suc)
  show ?thesis using rio_readlineb_line [OF demo_io_ok(1,2) rp(1) _ t] unfolding rp(2) by auto
qed

text \<open>
  C37: If writes go through from some time on, the robust writing comes to an end: everything was written, or,
  if some write failed for another reason than an interruption, a part of it, and the wrapper ends the program.
\<close>

theorem rio_writen_all:
  assumes "w_settles x"
  shows "\<exists>r k y. rio_writen fd bs x = Some (r, y) \<and> outp (os y) = (outp (os x))(fd := outp (os x) fd @ take k bs)
    \<and> (if r = int (length bs) then k \<ge> length bs \<and> Rio_writen fd bs x = Some (Inr y)
       else r = -1 \<and> w_fails x \<and> Rio_writen fd bs x = Some (Inl (Exited 0)))"
proof -
  obtain r k y where y: "rio_writen fd bs x = Some (r, y)" "wrote fd (take k bs) x y" "k \<le> length bs"
      "r = int (length bs) \<and> k = length bs \<or> r = -1 \<and> w_fails x"
    using rio_writen_spec [OF assms] by blast
  then show ?thesis by (intro exI [of _ r] exI [of _ k] exI [of _ y]) (auto simp: wrote_def Rio_writen_def unix_error_def)
qed

theorem rio_writen_all_witness:
  "\<exists>y. rio_writen 5 [1, 2, 3] demo_io = Some (3, y) \<and> outp (os y) 5 = [1, 2, 3]"
proof -
  obtain r k y where y: "rio_writen 5 [1, 2, 3] demo_io = Some (r, y)" "outp (os y) = (outp (os demo_io))(5 := outp (os demo_io) 5 @ take k [1, 2, 3])"
      "if r = int (length [1 :: byte, 2, 3]) then k \<ge> length [1 :: byte, 2, 3] \<and> Rio_writen 5 [1, 2, 3] demo_io = Some (Inr y)
       else r = -1 \<and> w_fails demo_io \<and> Rio_writen 5 [1, 2, 3] demo_io = Some (Inl (Exited 0))"
    using rio_writen_all [OF demo_io_ok(4), of 5 "[1, 2, 3]"] by (elim exE conjE) (rule that)
  then have "r = 3" "k \<ge> 3" using demo_io_ok(5) by (auto split: if_splits)
  then show ?thesis using y(1,2) by (simp add: demo_io_def calm_sys_def)
qed

end
