(* ===== verification/Wrappers.thy ===== *)
theory Wrappers
  imports Program
begin

text \<open>
  The wrappers of \<^verbatim>\<open>src/csapp.c\<close> around the functions of the operating system and the C library that
  the server does not call itself: processes, signals, files, memory, standard I/O, sockets, the name
  service, threads and semaphores; and \<^verbatim>\<open>open_clientfd\<close>, which puts some of them together.

  The wrapped functions are arguments: functions on a state \<open>'s\<close> of the system about which nothing
  is assumed. What they store through pointers is part of their results.
\<close>

section \<open>Reporting an error\<close>

text \<open>
  Each prints with \<^verbatim>\<open>error\<close>, which is empty in the release build, and ends the program with
  status 0; \<open>unix_error\<close> is in \<open>Program\<close>.
\<close>

definition posix_error :: "int \<Rightarrow> 'a result" where
  "posix_error code = Inl (Exited 0)"

definition dns_error :: "'a result" where
  "dns_error = Inl (Exited 0)"

definition app_error :: "'a result" where
  "app_error = Inl (Exited 0)"

section \<open>What the wrappers have in common\<close>

text \<open>A function of the system, called and checked; the result is passed on, or only the new state.\<close>

type_synonym ('s, 'a) call = "'s \<Rightarrow> 'a \<times> 's"

definition checked :: "('a \<Rightarrow> ('a \<times> 's) result option) \<Rightarrow> ('s, 'a) call \<Rightarrow> 's \<Rightarrow> ('a \<times> 's) result" where
  "checked err f s = (case f s of (r, s) \<Rightarrow> case err r of None \<Rightarrow> Inr (r, s) | Some e \<Rightarrow> e)"

definition ignoring :: "('a \<times> 's) result \<Rightarrow> 's result" where
  "ignoring m = and_then m (\<lambda>(_, s). Inr s)"

definition negative :: "int \<Rightarrow> 'b result option" where
  "negative rc = (if rc < 0 then Some unix_error else None)"

definition null :: "ptr \<Rightarrow> 'b result option" where
  "null p = (if p = None then Some unix_error else None)"

definition nonzero :: "int \<Rightarrow> 'b result option" where
  "nonzero rc = (if rc \<noteq> 0 then Some (posix_error rc) else None)"

text \<open>
  The contract of a wrapper: it returns what the function returned if that was not a failure, and
  ends the program with status 0 if it was.
\<close>

locale wrapper =
  fixes fails :: "'a \<Rightarrow> bool" and call :: "'s \<Rightarrow> 'a \<times> 's" and wrapped :: "'s \<Rightarrow> ('a \<times> 's) result"
  assumes passes: "\<not> fails (fst (call s)) \<Longrightarrow> wrapped s = Inr (call s)"
    and ends: "fails (fst (call s)) \<Longrightarrow> wrapped s = Inl (Exited 0)"
begin

lemma returns_iff: "wrapped s = Inr (r, t) \<longleftrightarrow> call s = (r, t) \<and> \<not> fails r"
  using passes [of s] ends [of s] by (cases "fails (fst (call s))") auto

lemma result: "wrapped s = (if fails (fst (call s)) then Inl (Exited 0) else Inr (call s))"
  using passes [of s] ends [of s] by simp

lemma then_eq: "and_then (wrapped s) k = (if fails (fst (call s)) then Inl (Exited 0) else k (call s))"
  by (simp add: result)

end

lemma checked_wrapper:
  assumes "\<And>r. err r = (if fails r then Some (Inl (Exited 0)) else None)"
  shows "wrapper fails f (checked err f)"
proof
  fix s
  show "checked err f s = Inr (f s)" if "\<not> fails (fst (f s))" using that assms by (simp add: checked_def split_beta)
  show "checked err f s = Inl (Exited 0)" if "fails (fst (f s))" using that assms by (simp add: checked_def split_beta)
qed

lemma negative_wrapper: "wrapper (\<lambda>rc. rc < 0) f (checked negative f)"
  by (rule checked_wrapper) (simp add: negative_def unix_error_def)

lemma null_wrapper: "wrapper (\<lambda>p. p = None) f (checked null f)"
  by (rule checked_wrapper) (simp add: null_def unix_error_def)

lemma nonzero_wrapper: "wrapper (\<lambda>rc. rc \<noteq> 0) f (checked nonzero f)"
  by (rule checked_wrapper) (simp add: nonzero_def posix_error_def)

section \<open>Processes\<close>

definition Fork :: "('s, int) call \<Rightarrow> 's \<Rightarrow> (int \<times> 's) result" where
  "Fork fork = checked negative fork"

definition Execve :: "(string \<Rightarrow> string list \<Rightarrow> string list \<Rightarrow> ('s, int) call) \<Rightarrow> string \<Rightarrow> string list \<Rightarrow> string list \<Rightarrow> 's \<Rightarrow> 's result" where
  "Execve execve filename argv envp s = ignoring (checked negative (execve filename argv envp) s)"

text \<open>The status is stored through the pointer that is passed.\<close>

definition Wait :: "('s, int \<times> int) call \<Rightarrow> 's \<Rightarrow> ((int \<times> int) \<times> 's) result" where
  "Wait wait = checked (negative \<circ> fst) wait"

definition Waitpid :: "(int \<Rightarrow> int \<Rightarrow> ('s, int \<times> int) call) \<Rightarrow> int \<Rightarrow> int \<Rightarrow> 's \<Rightarrow> ((int \<times> int) \<times> 's) result" where
  "Waitpid waitpid pid opts = checked (negative \<circ> fst) (waitpid pid opts)"

definition Kill :: "(int \<Rightarrow> int \<Rightarrow> ('s, int) call) \<Rightarrow> int \<Rightarrow> int \<Rightarrow> 's \<Rightarrow> 's result" where
  "Kill kill pid signum s = ignoring (checked negative (kill pid signum) s)"

definition Pause :: "('s, int) call \<Rightarrow> 's \<Rightarrow> 's result" where
  "Pause pause s = Inr (snd (pause s))"

text \<open>The result of \<open>sleep\<close> is unsigned, so the test whether it is negative never succeeds.\<close>

definition Sleep :: "(32 word \<Rightarrow> ('s, 32 word) call) \<Rightarrow> 32 word \<Rightarrow> 's \<Rightarrow> (32 word \<times> 's) result" where
  "Sleep sleep secs = checked (\<lambda>rc. if rc < 0 then Some unix_error else None) (sleep secs)"

definition Alarm :: "(32 word \<Rightarrow> ('s, 32 word) call) \<Rightarrow> 32 word \<Rightarrow> ('s, 32 word) call" where
  "Alarm alarm seconds = alarm seconds"

definition Setpgid :: "(int \<Rightarrow> int \<Rightarrow> ('s, int) call) \<Rightarrow> int \<Rightarrow> int \<Rightarrow> 's \<Rightarrow> 's result" where
  "Setpgid setpgid pid pgid s = ignoring (checked negative (setpgid pid pgid) s)"

definition Getpgrp :: "('s, int) call \<Rightarrow> ('s, int) call" where
  "Getpgrp getpgrp = getpgrp"

section \<open>Signals\<close>

text \<open>What is passed to \<open>sigaction\<close>: the handler, the signals blocked meanwhile and the flags.\<close>

record 'h sigact =
  sa_handler :: 'h
  sa_mask :: "int set"
  sa_flags :: int

definition SA_RESTART :: int where "SA_RESTART = 0x10000000"

definition Signal ::
  "(int \<Rightarrow> 'h sigact \<Rightarrow> ('s, int \<times> 'h sigact) call) \<Rightarrow> int \<Rightarrow> 'h \<Rightarrow> 's \<Rightarrow> ('h \<times> 's) result" where
  "Signal sigaction signum handler s =
     and_then (checked (negative \<circ> fst) (sigaction signum \<lparr>sa_handler = handler, sa_mask = {}, sa_flags = SA_RESTART\<rparr>) s)
       (\<lambda>((_, old_action), s). Inr (sa_handler old_action, s))"

definition Sigprocmask ::
  "(int \<Rightarrow> int set option \<Rightarrow> ('s, int \<times> int set) call) \<Rightarrow> int \<Rightarrow> int set option \<Rightarrow> 's \<Rightarrow> (int set \<times> 's) result" where
  "Sigprocmask sigprocmask how new s =
     and_then (checked (negative \<circ> fst) (sigprocmask how new) s) (\<lambda>((_, oldset), s). Inr (oldset, s))"

text \<open>
  The functions on signal sets change the set they are given and nothing else. A number that is not
  that of a signal is refused.
\<close>

definition NSIG :: int where "NSIG = 64"

definition is_signal :: "int \<Rightarrow> bool" where
  "is_signal n \<longleftrightarrow> 1 \<le> n \<and> n \<le> NSIG"

definition sigemptyset :: "(int set, int) call" where "sigemptyset A = (0, {})"
definition sigfillset :: "(int set, int) call" where "sigfillset A = (0, {n. is_signal n})"
definition sigaddset :: "int \<Rightarrow> (int set, int) call" where
  "sigaddset n A = (if is_signal n then (0, insert n A) else (-1, A))"
definition sigdelset :: "int \<Rightarrow> (int set, int) call" where
  "sigdelset n A = (if is_signal n then (0, A - {n}) else (-1, A))"
definition sigismember :: "int \<Rightarrow> (int set, int) call" where
  "sigismember n A = (if is_signal n then (of_bool (n \<in> A), A) else (-1, A))"

definition Sigemptyset :: "int set \<Rightarrow> int set result" where
  "Sigemptyset A = ignoring (checked negative sigemptyset A)"

definition Sigfillset :: "int set \<Rightarrow> int set result" where
  "Sigfillset A = ignoring (checked negative sigfillset A)"

definition Sigaddset :: "int \<Rightarrow> int set \<Rightarrow> int set result" where
  "Sigaddset signum A = ignoring (checked negative (sigaddset signum) A)"

definition Sigdelset :: "int \<Rightarrow> int set \<Rightarrow> int set result" where
  "Sigdelset signum A = ignoring (checked negative (sigdelset signum) A)"

definition Sigismember :: "int \<Rightarrow> int set \<Rightarrow> (int \<times> int set) result" where
  "Sigismember signum = checked negative (sigismember signum)"

text \<open>Adding signals one by one to an empty set gives the set of them, unless one is not a signal.\<close>

fun add_signals :: "int list \<Rightarrow> int set \<Rightarrow> int set result" where
  "add_signals [] A = Inr A"
| "add_signals (n # ns) A = and_then (Sigaddset n A) (add_signals ns)"

lemma sigset_built:
  "and_then (Sigemptyset A) (add_signals ns) = (if \<forall>n \<in> set ns. is_signal n then Inr (set ns) else Inl (Exited 0))"
proof -
  have "add_signals ns B = (if \<forall>n \<in> set ns. is_signal n then Inr (B \<union> set ns) else Inl (Exited 0))" for B
    by (induction ns arbitrary: B)
      (auto simp: Sigaddset_def ignoring_def checked_def sigaddset_def negative_def unix_error_def)
  then show ?thesis by (simp add: Sigemptyset_def ignoring_def checked_def sigemptyset_def negative_def)
qed

lemma Sigismember_built:
  "and_then (Sigemptyset A) (\<lambda>A. and_then (add_signals ns A) (Sigismember n))
    = (if (\<forall>m \<in> set ns. is_signal m) \<and> is_signal n then Inr (of_bool (n \<in> set ns), set ns) else Inl (Exited 0))"
proof -
  have "and_then (Sigemptyset A) (\<lambda>A. and_then (add_signals ns A) (Sigismember n))
      = and_then (and_then (Sigemptyset A) (add_signals ns)) (Sigismember n)"
    by (simp add: and_then_def split: sum.split)
  then show ?thesis
    by (simp add: sigset_built Sigismember_def checked_def sigismember_def negative_def unix_error_def)
qed

section \<open>Files\<close>

definition Open :: "(string \<Rightarrow> int \<Rightarrow> int \<Rightarrow> ('s, int) call) \<Rightarrow> string \<Rightarrow> int \<Rightarrow> int \<Rightarrow> 's \<Rightarrow> (int \<times> 's) result" where
  "Open open_c pathname flags mode = checked negative (open_c pathname flags mode)"

definition Read :: "(int \<Rightarrow> nat \<Rightarrow> ('s, int \<times> byte list) call) \<Rightarrow> int \<Rightarrow> nat \<Rightarrow> 's \<Rightarrow> ((int \<times> byte list) \<times> 's) result" where
  "Read read fd count = checked (negative \<circ> fst) (read fd count)"

definition Write :: "(int \<Rightarrow> byte list \<Rightarrow> ('s, int) call) \<Rightarrow> int \<Rightarrow> byte list \<Rightarrow> 's \<Rightarrow> (int \<times> 's) result" where
  "Write write fd buf = checked negative (write fd buf)"

definition Lseek :: "(int \<Rightarrow> int \<Rightarrow> int \<Rightarrow> ('s, int) call) \<Rightarrow> int \<Rightarrow> int \<Rightarrow> int \<Rightarrow> 's \<Rightarrow> (int \<times> 's) result" where
  "Lseek lseek fildes offset whence = checked negative (lseek fildes offset whence)"

text \<open>The three sets of descriptors are changed in place.\<close>

type_synonym fd_sets = "int set \<times> int set \<times> int set"

definition Select ::
  "(int \<Rightarrow> fd_sets \<Rightarrow> 't \<Rightarrow> ('s, int \<times> fd_sets) call) \<Rightarrow> int \<Rightarrow> fd_sets \<Rightarrow> 't \<Rightarrow> 's \<Rightarrow> ((int \<times> fd_sets) \<times> 's) result" where
  "Select select n fds timeout = checked (negative \<circ> fst) (select n fds timeout)"

definition Dup2 :: "(int \<Rightarrow> int \<Rightarrow> ('s, int) call) \<Rightarrow> int \<Rightarrow> int \<Rightarrow> 's \<Rightarrow> (int \<times> 's) result" where
  "Dup2 dup2 fd1 fd2 = checked negative (dup2 fd1 fd2)"

definition Stat :: "(string \<Rightarrow> ('s, int \<times> 'st) call) \<Rightarrow> string \<Rightarrow> 's \<Rightarrow> ('st \<times> 's) result" where
  "Stat stat filename s = and_then (checked (negative \<circ> fst) (stat filename) s) (\<lambda>((_, buf), s). Inr (buf, s))"

definition Fstat :: "(int \<Rightarrow> ('s, int \<times> 'st) call) \<Rightarrow> int \<Rightarrow> 's \<Rightarrow> ('st \<times> 's) result" where
  "Fstat fstat fd s = and_then (checked (negative \<circ> fst) (fstat fd) s) (\<lambda>((_, buf), s). Inr (buf, s))"

section \<open>Memory\<close>

text \<open>\<open>mmap\<close> reports a failure by the address that is all ones.\<close>

definition Mmap ::
  "(64 word \<Rightarrow> nat \<Rightarrow> int \<Rightarrow> int \<Rightarrow> int \<Rightarrow> int \<Rightarrow> ('s, 64 word) call) \<Rightarrow>
   64 word \<Rightarrow> nat \<Rightarrow> int \<Rightarrow> int \<Rightarrow> int \<Rightarrow> int \<Rightarrow> 's \<Rightarrow> (64 word \<times> 's) result" where
  "Mmap mmap a len prot flags fd offset =
     checked (\<lambda>p. if p = - 1 then Some unix_error else None) (mmap a len prot flags fd offset)"

definition Munmap :: "(64 word \<Rightarrow> nat \<Rightarrow> ('s, int) call) \<Rightarrow> 64 word \<Rightarrow> nat \<Rightarrow> 's \<Rightarrow> 's result" where
  "Munmap munmap start len s = ignoring (checked negative (munmap start len) s)"

definition Malloc :: "(nat \<Rightarrow> ('s, ptr) call) \<Rightarrow> nat \<Rightarrow> 's \<Rightarrow> (ptr \<times> 's) result" where
  "Malloc malloc sz = checked null (malloc sz)"

definition Realloc :: "(ptr \<Rightarrow> nat \<Rightarrow> ('s, ptr) call) \<Rightarrow> ptr \<Rightarrow> nat \<Rightarrow> 's \<Rightarrow> (ptr \<times> 's) result" where
  "Realloc realloc_c p sz = checked null (realloc_c p sz)"

definition Calloc :: "(nat \<Rightarrow> nat \<Rightarrow> ('s, ptr) call) \<Rightarrow> nat \<Rightarrow> nat \<Rightarrow> 's \<Rightarrow> (ptr \<times> 's) result" where
  "Calloc calloc_c nmemb sz = checked null (calloc_c nmemb sz)"

definition Free :: "(ptr \<Rightarrow> 's \<Rightarrow> 's result) \<Rightarrow> ptr \<Rightarrow> 's \<Rightarrow> 's result" where
  "Free free p = free p"

section \<open>Standard I/O\<close>

definition Fclose :: "(addr \<Rightarrow> ('s, int) call) \<Rightarrow> addr \<Rightarrow> 's \<Rightarrow> 's result" where
  "Fclose fclose fp s = ignoring (checked (\<lambda>rc. if rc \<noteq> 0 then Some unix_error else None) (fclose fp) s)"

definition Fdopen :: "(int \<Rightarrow> string \<Rightarrow> ('s, ptr) call) \<Rightarrow> int \<Rightarrow> string \<Rightarrow> 's \<Rightarrow> (ptr \<times> 's) result" where
  "Fdopen fdopen fd type = checked null (fdopen fd type)"

text \<open>The end of the input is not an error; only then is \<open>ferror\<close> asked.\<close>

definition Fgets ::
  "(int \<Rightarrow> addr \<Rightarrow> ('s, byte list option) call) \<Rightarrow> (addr \<Rightarrow> 's \<Rightarrow> bool) \<Rightarrow> int \<Rightarrow> addr \<Rightarrow> 's \<Rightarrow> (byte list option \<times> 's) result" where
  "Fgets fgets ferror n stream s =
     (case fgets n stream s of (rptr, s) \<Rightarrow>
        if rptr = None \<and> ferror stream s then app_error else Inr (rptr, s))"

definition Fopen :: "(string \<Rightarrow> string \<Rightarrow> ('s, ptr) call) \<Rightarrow> string \<Rightarrow> string \<Rightarrow> 's \<Rightarrow> (ptr \<times> 's) result" where
  "Fopen fopen filename mode = checked null (fopen filename mode)"

definition EOF :: int where "EOF = -1"

definition Fputs :: "(string \<Rightarrow> addr \<Rightarrow> ('s, int) call) \<Rightarrow> string \<Rightarrow> addr \<Rightarrow> 's \<Rightarrow> 's result" where
  "Fputs fputs str stream s = ignoring (checked (\<lambda>rc. if rc = EOF then Some unix_error else None) (fputs str stream) s)"

definition Fread ::
  "(nat \<Rightarrow> nat \<Rightarrow> addr \<Rightarrow> ('s, nat \<times> byte list) call) \<Rightarrow> (addr \<Rightarrow> 's \<Rightarrow> bool) \<Rightarrow> nat \<Rightarrow> nat \<Rightarrow> addr \<Rightarrow> 's
   \<Rightarrow> ((nat \<times> byte list) \<times> 's) result" where
  "Fread fread ferror sz nmemb stream s =
     (case fread sz nmemb stream s of ((n, bs), s) \<Rightarrow>
        if n < nmemb \<and> ferror stream s then unix_error else Inr ((n, bs), s))"

definition Fwrite :: "(byte list \<Rightarrow> nat \<Rightarrow> nat \<Rightarrow> addr \<Rightarrow> ('s, nat) call) \<Rightarrow> byte list \<Rightarrow> nat \<Rightarrow> nat \<Rightarrow> addr \<Rightarrow> 's \<Rightarrow> 's result" where
  "Fwrite fwrite buf sz nmemb stream s =
     ignoring (checked (\<lambda>n. if n < nmemb then Some unix_error else None) (fwrite buf sz nmemb stream) s)"

section \<open>Threads and semaphores\<close>

definition Pthread_create :: "('t \<Rightarrow> ('s, int \<times> nat) call) \<Rightarrow> 't \<Rightarrow> 's \<Rightarrow> (nat \<times> 's) result" where
  "Pthread_create pthread_create routine s =
     and_then (checked (nonzero \<circ> fst) (pthread_create routine) s) (\<lambda>((_, tid), s). Inr (tid, s))"

definition Pthread_cancel :: "(nat \<Rightarrow> ('s, int) call) \<Rightarrow> nat \<Rightarrow> 's \<Rightarrow> 's result" where
  "Pthread_cancel pthread_cancel tid s = ignoring (checked nonzero (pthread_cancel tid) s)"

definition Pthread_join :: "(nat \<Rightarrow> ('s, int \<times> ptr) call) \<Rightarrow> nat \<Rightarrow> 's \<Rightarrow> (ptr \<times> 's) result" where
  "Pthread_join pthread_join tid s =
     and_then (checked (nonzero \<circ> fst) (pthread_join tid) s) (\<lambda>((_, thread_return), s). Inr (thread_return, s))"

definition Pthread_detach :: "(nat \<Rightarrow> ('s, int) call) \<Rightarrow> nat \<Rightarrow> 's \<Rightarrow> 's result" where
  "Pthread_detach pthread_detach tid s = ignoring (checked nonzero (pthread_detach tid) s)"

definition Pthread_exit :: "(ptr \<Rightarrow> 's \<Rightarrow> 's) \<Rightarrow> ptr \<Rightarrow> 's \<Rightarrow> 's" where
  "Pthread_exit pthread_exit retval = pthread_exit retval"

definition Pthread_self :: "('s \<Rightarrow> nat) \<Rightarrow> 's \<Rightarrow> nat" where
  "Pthread_self pthread_self = pthread_self"

definition Pthread_once :: "(addr \<Rightarrow> ('s \<Rightarrow> 's) \<Rightarrow> ('s, int) call) \<Rightarrow> addr \<Rightarrow> ('s \<Rightarrow> 's) \<Rightarrow> 's \<Rightarrow> 's" where
  "Pthread_once pthread_once once_control init_function s = snd (pthread_once once_control init_function s)"

definition Sem_init :: "(addr \<Rightarrow> int \<Rightarrow> 32 word \<Rightarrow> ('s, int) call) \<Rightarrow> addr \<Rightarrow> int \<Rightarrow> 32 word \<Rightarrow> 's \<Rightarrow> 's result" where
  "Sem_init sem_init_c sem pshared v s = ignoring (checked negative (sem_init_c sem pshared v) s)"

definition P_sem :: "(addr \<Rightarrow> ('s, int) call) \<Rightarrow> addr \<Rightarrow> 's \<Rightarrow> 's result" where
  "P_sem sem_wait_c sem s = ignoring (checked negative (sem_wait_c sem) s)"

definition V_sem :: "(addr \<Rightarrow> ('s, int) call) \<Rightarrow> addr \<Rightarrow> 's \<Rightarrow> 's result" where
  "V_sem sem_post_c sem s = ignoring (checked negative (sem_post_c sem) s)"

section \<open>Sockets and the name service\<close>

text \<open>The address of a socket of the internet family, as it lies in memory: port, address, padding.\<close>

record sockaddr_in =
  sin_family :: int
  sin_port :: "16 word"
  sin_addr :: "byte list"
  sin_zero :: "byte list"

record hostent =
  h_length :: int
  h_addr_list :: "byte list list"

definition Socket :: "(int \<Rightarrow> int \<Rightarrow> int \<Rightarrow> ('s, int) call) \<Rightarrow> int \<Rightarrow> int \<Rightarrow> int \<Rightarrow> 's \<Rightarrow> (int \<times> 's) result" where
  "Socket socket domain type protocol = checked negative (socket domain type protocol)"

definition Setsockopt ::
  "(int \<Rightarrow> int \<Rightarrow> int \<Rightarrow> byte list \<Rightarrow> ('s, int) call) \<Rightarrow> int \<Rightarrow> int \<Rightarrow> int \<Rightarrow> byte list \<Rightarrow> 's \<Rightarrow> 's result" where
  "Setsockopt setsockopt fd level optname optval s = ignoring (checked negative (setsockopt fd level optname optval) s)"

definition Bind :: "(int \<Rightarrow> sockaddr_in \<Rightarrow> ('s, int) call) \<Rightarrow> int \<Rightarrow> sockaddr_in \<Rightarrow> 's \<Rightarrow> 's result" where
  "Bind bind sockfd my_addr s = ignoring (checked negative (bind sockfd my_addr) s)"

definition Listen :: "(int \<Rightarrow> int \<Rightarrow> ('s, int) call) \<Rightarrow> int \<Rightarrow> int \<Rightarrow> 's \<Rightarrow> 's result" where
  "Listen listen fd backlog s = ignoring (checked negative (listen fd backlog) s)"

definition Connect :: "(int \<Rightarrow> sockaddr_in \<Rightarrow> ('s, int) call) \<Rightarrow> int \<Rightarrow> sockaddr_in \<Rightarrow> 's \<Rightarrow> 's result" where
  "Connect connect sockfd serv_addr s = ignoring (checked negative (connect sockfd serv_addr) s)"

definition no_host :: "hostent option \<Rightarrow> 'b result option" where
  "no_host p = (if p = None then Some dns_error else None)"

definition Gethostbyname :: "(string \<Rightarrow> ('s, hostent option) call) \<Rightarrow> string \<Rightarrow> 's \<Rightarrow> (hostent option \<times> 's) result" where
  "Gethostbyname gethostbyname name = checked no_host (gethostbyname name)"

definition Gethostbyaddr ::
  "(byte list \<Rightarrow> int \<Rightarrow> int \<Rightarrow> ('s, hostent option) call) \<Rightarrow> byte list \<Rightarrow> int \<Rightarrow> int \<Rightarrow> 's \<Rightarrow> (hostent option \<times> 's) result" where
  "Gethostbyaddr gethostbyaddr a len type = checked no_host (gethostbyaddr a len type)"

text \<open>The wrappers that pass a result on keep the contract.\<close>

interpretation fork: wrapper "\<lambda>rc. rc < 0" fork "Fork fork" for fork
  unfolding Fork_def by (rule negative_wrapper)

interpretation open_w: wrapper "\<lambda>rc. rc < 0" "open_c p f m" "Open open_c p f m" for open_c p f m
  unfolding Open_def by (rule negative_wrapper)

interpretation lseek: wrapper "\<lambda>rc. rc < 0" "lseek fd n k" "Lseek lseek fd n k" for lseek fd n k
  unfolding Lseek_def by (rule negative_wrapper)

interpretation dup2: wrapper "\<lambda>rc. rc < 0" "dup2 a b" "Dup2 dup2 a b" for dup2 a b
  unfolding Dup2_def by (rule negative_wrapper)

interpretation malloc: wrapper "\<lambda>p. p = None" "malloc n" "Malloc malloc n" for malloc n
  unfolding Malloc_def by (rule null_wrapper)

interpretation fopen: wrapper "\<lambda>p. p = None" "fopen a b" "Fopen fopen a b" for fopen a b
  unfolding Fopen_def by (rule null_wrapper)

interpretation socket: wrapper "\<lambda>rc. rc < 0" "socket d t p" "Socket socket d t p" for socket d t p
  unfolding Socket_def by (rule negative_wrapper)

interpretation gethost: wrapper "\<lambda>p. p = None" "gethostbyname n" "Gethostbyname gethostbyname n" for gethostbyname n
  unfolding Gethostbyname_def by (rule checked_wrapper) (simp add: no_host_def dns_error_def)

lemma Sleep_returns: "Sleep sleep secs s = Inr (sleep secs s)"
  by (simp add: Sleep_def checked_def split_beta)

lemma ignoring_negative: "ignoring (checked negative f s) = (if fst (f s) < 0 then Inl (Exited 0) else Inr (snd (f s)))"
  by (simp add: ignoring_def checked_def negative_def unix_error_def split_beta)

section \<open>Connecting to a server\<close>

definition AF_INET :: int where "AF_INET = 2"
definition SOCK_STREAM :: int where "SOCK_STREAM = 1"

text \<open>
  The first address of the host is copied to the place of the address: its first four bytes are the
  address, up to eight more go to the padding, and the rest is written past the end of the
  structure. A host without addresses has a null pointer there.
\<close>

definition copy_addr :: "byte list list \<Rightarrow> int \<Rightarrow> sockaddr_in \<Rightarrow> sockaddr_in result" where
  "copy_addr addrs n sa =
     (if n = 0 then Inr sa
      else case addrs of
        [] \<Rightarrow> Inl NullDeref
      | src # _ \<Rightarrow>
          if n < 0 \<or> 12 < n then Inl BufferOverflow
          else if int (length src) < n then Inl OutOfBounds
          else let m = take (nat n) src @ drop (nat n) (sin_addr sa @ sin_zero sa) in
            Inr (sa\<lparr>sin_addr := take 4 m, sin_zero := drop 4 m\<rparr>))"

definition server_addr :: "hostent \<Rightarrow> int \<Rightarrow> sockaddr_in result" where
  "server_addr hp port =
     (let sa = \<lparr>sin_family = AF_INET, sin_port = 0, sin_addr = replicate 4 0, sin_zero = replicate 8 0\<rparr> in
      and_then (copy_addr (h_addr_list hp) (h_length hp) sa) (\<lambda>sa.
      Inr (sa\<lparr>sin_port := htons (word_of_int port)\<rparr>)))"

definition open_clientfd ::
  "(int \<Rightarrow> int \<Rightarrow> int \<Rightarrow> ('s, int) call) \<Rightarrow> (string \<Rightarrow> ('s, hostent option) call) \<Rightarrow> (int \<Rightarrow> sockaddr_in \<Rightarrow> ('s, int) call)
   \<Rightarrow> string \<Rightarrow> int \<Rightarrow> 's \<Rightarrow> (int \<times> 's) result" where
  "open_clientfd socket gethostbyname connect hostname port s =
     (case socket AF_INET SOCK_STREAM 0 s of (clientfd, s) \<Rightarrow>
        if clientfd < 0 then Inr (-1, s)
        else case gethostbyname hostname s of
          (None, s) \<Rightarrow> Inr (-2, s)
        | (Some hp, s) \<Rightarrow>
            and_then (server_addr hp port) (\<lambda>serveraddr.
            case connect clientfd serveraddr s of (rc, s) \<Rightarrow>
              if rc < 0 then Inr (-1, s) else Inr (clientfd, s)))"

definition Open_clientfd ::
  "(int \<Rightarrow> int \<Rightarrow> int \<Rightarrow> ('s, int) call) \<Rightarrow> (string \<Rightarrow> ('s, hostent option) call) \<Rightarrow> (int \<Rightarrow> sockaddr_in \<Rightarrow> ('s, int) call)
   \<Rightarrow> string \<Rightarrow> int \<Rightarrow> 's \<Rightarrow> (int \<times> 's) result" where
  "Open_clientfd socket gethostbyname connect hostname port s =
     and_then (open_clientfd socket gethostbyname connect hostname port s) (\<lambda>(rc, s).
     if rc < 0 then if rc = -1 then unix_error else dns_error
     else Inr (rc, s))"

text \<open>
  \<^verbatim>\<open>Open_clientfd\<close> does the same as its calls wrapped one by one. In the release build the error functions
  all print nothing and exit with status 0, so that it does not matter to the caller which of them is called.
\<close>

lemma Open_clientfd_stepwise:
  "Open_clientfd socket gethostbyname connect hostname port s =
     and_then (Socket socket AF_INET SOCK_STREAM 0 s) (\<lambda>(clientfd, s).
     and_then (Gethostbyname gethostbyname hostname s) (\<lambda>(hp, s).
     and_then (server_addr (the hp) port) (\<lambda>serveraddr.
     and_then (Connect connect clientfd serveraddr s) (\<lambda>s.
     Inr (clientfd, s)))))"
proof -
  obtain fd s1 where a: "socket AF_INET SOCK_STREAM 0 s = (fd, s1)" by fastforce
  obtain hp s2 where b: "gethostbyname hostname s1 = (hp, s2)" by fastforce
  have c: "Open_clientfd socket gethostbyname connect hostname port s = Inl (Exited 0)" if "fd < 0 \<or> hp = None"
    using that a b by (auto simp: Open_clientfd_def open_clientfd_def unix_error_def dns_error_def)
  have d: "Open_clientfd socket gethostbyname connect hostname port s =
      and_then (server_addr h port) (\<lambda>sa. and_then (Connect connect fd sa s2) (\<lambda>s. Inr (fd, s)))" if "\<not> fd < 0" "hp = Some h" for h
    using that a b by (cases "server_addr h port")
      (simp_all add: Open_clientfd_def open_clientfd_def Connect_def ignoring_negative unix_error_def split_beta)
  show ?thesis using a b c d by (cases hp) (simp_all add: socket.then_eq gethost.then_eq)
qed

text \<open>On a failure the socket that was opened is not closed.\<close>

lemma open_clientfd_leak:
  assumes "\<And>d t p s. 0 \<le> fst (socket d t p s) \<Longrightarrow> opened (snd (socket d t p s)) = insert (fst (socket d t p s)) (opened s)"
    and "\<And>h s. opened (snd (gethostbyname h s)) = opened s" and "\<And>d a s. opened (snd (connect d a s)) = opened s"
    and "0 \<le> fst (socket AF_INET SOCK_STREAM 0 s)" and "open_clientfd socket gethostbyname connect hostname port s = Inr (rc, s')"
  shows "opened s' = insert (fst (socket AF_INET SOCK_STREAM 0 s)) (opened s)"
proof -
  obtain fd s1 where a: "socket AF_INET SOCK_STREAM 0 s = (fd, s1)" by fastforce
  obtain hp s2 where b: "gethostbyname hostname s1 = (hp, s2)" by fastforce
  have s1: "opened s1 = insert fd (opened s)" "opened s2 = opened s1"
    using assms(1) [of AF_INET SOCK_STREAM 0 s] assms(2) [of hostname s1] assms(4) a b by simp_all
  show ?thesis
  proof (cases hp)
    case None
    then show ?thesis using assms(4,5) a b s1 by (simp add: open_clientfd_def)
  next
    case (Some h)
    then obtain sa where "server_addr h port = Inr sa" using assms(4,5) a b
      by (cases "server_addr h port") (simp_all add: open_clientfd_def)
    then show ?thesis using Some assms(3) [of fd sa s2] assms(4,5) a b s1
      by (auto simp: open_clientfd_def split_beta split: if_splits)
  qed
qed

text \<open>The address of a host with four bytes and the port are the ones that are connected to.\<close>

lemma server_addr_inet:
  assumes "h_length hp = 4" and "h_addr_list hp = a # as" and "length a = 4"
  shows "server_addr hp port = Inr \<lparr>sin_family = AF_INET, sin_port = htons (word_of_int port), sin_addr = a, sin_zero = replicate 8 0\<rparr>"
  using assms by (simp add: server_addr_def copy_addr_def)

lemma server_addr_faults:
  "h_addr_list hp = [] \<Longrightarrow> h_length hp \<noteq> 0 \<Longrightarrow> server_addr hp port = Inl NullDeref"
  "h_addr_list hp = a # as \<Longrightarrow> 12 < h_length hp \<Longrightarrow> server_addr hp port = Inl BufferOverflow"
  by (simp_all add: server_addr_def copy_addr_def)

text \<open>
  C38: What \<^verbatim>\<open>open_clientfd\<close> returns, as its comment says: -1 when no socket can be had or the connection fails, -2 when
  the host is not found, and otherwise the socket. The connection is made to the first address of the host and
  to the low 16 bits of the port in network byte order. A host entry without an address is a null pointer that is read, and one with an
  address longer than the structure has room for is written past its end. In every case in
  which it returns, also with an error, the socket it opened is still open, and \<^verbatim>\<open>Open_clientfd\<close> ends the
  program with status 0 on either error. What is assumed of the system is that \<^verbatim>\<open>socket\<close> opens the
  descriptor it returns and that the other two functions open and close none.
\<close>

theorem open_clientfd_contract:
  assumes "\<And>d t p s. 0 \<le> fst (socket d t p s) \<Longrightarrow> opened (snd (socket d t p s)) = insert (fst (socket d t p s)) (opened s)"
    and "\<And>h s. opened (snd (gethostbyname h s)) = opened s" and "\<And>d a s. opened (snd (connect d a s)) = opened s"
    and fd: "socket AF_INET SOCK_STREAM 0 s = (fd, s1)" and hp: "gethostbyname hostname s1 = (hp, s2)"
  shows "(fd < 0 \<longrightarrow> open_clientfd socket gethostbyname connect hostname port s = Inr (-1, s1))
    \<and> (0 \<le> fd \<and> hp = None \<longrightarrow> open_clientfd socket gethostbyname connect hostname port s = Inr (-2, s2))
    \<and> (\<forall>h a as rc s3. 0 \<le> fd \<and> hp = Some h \<and> h_addr_list h = a # as \<and> h_length h = 4 \<and> length a = 4
         \<and> connect fd \<lparr>sin_family = AF_INET, sin_port = htons (word_of_int port), sin_addr = a, sin_zero = replicate 8 0\<rparr> s2 = (rc, s3)
         \<longrightarrow> open_clientfd socket gethostbyname connect hostname port s = Inr (if rc < 0 then -1 else fd, s3))
    \<and> (\<forall>h. 0 \<le> fd \<and> hp = Some h \<and> h_addr_list h = [] \<and> h_length h \<noteq> 0
         \<longrightarrow> open_clientfd socket gethostbyname connect hostname port s = Inl NullDeref)
    \<and> (\<forall>h. 0 \<le> fd \<and> hp = Some h \<and> h_addr_list h \<noteq> [] \<and> 12 < h_length h
         \<longrightarrow> open_clientfd socket gethostbyname connect hostname port s = Inl BufferOverflow)
    \<and> (\<forall>rc s'. 0 \<le> fd \<and> open_clientfd socket gethostbyname connect hostname port s = Inr (rc, s') \<longrightarrow> opened s' = insert fd (opened s))
    \<and> (\<forall>rc s'. open_clientfd socket gethostbyname connect hostname port s = Inr (rc, s')
         \<longrightarrow> Open_clientfd socket gethostbyname connect hostname port s = (if rc < 0 then Inl (Exited 0) else Inr (rc, s')))"
proof (intro conjI allI impI)
  note o = open_clientfd_def fd hp
  show "open_clientfd socket gethostbyname connect hostname port s = Inr (-1, s1)" if "fd < 0" using that by (simp add: o)
  show "open_clientfd socket gethostbyname connect hostname port s = Inr (-2, s2)" if "0 \<le> fd \<and> hp = None" using that by (simp add: o)
  show "open_clientfd socket gethostbyname connect hostname port s = Inr (if rc < 0 then -1 else fd, s3)"
    if "0 \<le> fd \<and> hp = Some h \<and> h_addr_list h = a # as \<and> h_length h = 4 \<and> length a = 4
         \<and> connect fd \<lparr>sin_family = AF_INET, sin_port = htons (word_of_int port), sin_addr = a, sin_zero = replicate 8 0\<rparr> s2 = (rc, s3)" for h a as rc s3
    using that server_addr_inet [of h a as port] by (simp add: o)
  show "open_clientfd socket gethostbyname connect hostname port s = Inl NullDeref"
    if "0 \<le> fd \<and> hp = Some h \<and> h_addr_list h = [] \<and> h_length h \<noteq> 0" for h
    using that server_addr_faults(1) [of h port] by (simp add: o)
  show "open_clientfd socket gethostbyname connect hostname port s = Inl BufferOverflow"
    if h: "0 \<le> fd \<and> hp = Some h \<and> h_addr_list h \<noteq> [] \<and> 12 < h_length h" for h
  proof -
    obtain a as where "h_addr_list h = a # as" using h by (cases "h_addr_list h") auto
    then show ?thesis using h server_addr_faults(2) [of h a as port] by (simp add: o)
  qed
  show "opened s' = insert fd (opened s)" if "0 \<le> fd \<and> open_clientfd socket gethostbyname connect hostname port s = Inr (rc, s')" for rc s'
    using open_clientfd_leak [of socket opened gethostbyname connect s, OF assms(1-3), of hostname port rc s'] that fd by simp
  show "Open_clientfd socket gethostbyname connect hostname port s = (if rc < 0 then Inl (Exited 0) else Inr (rc, s'))"
    if "open_clientfd socket gethostbyname connect hostname port s = Inr (rc, s')" for rc s'
    using that by (simp add: Open_clientfd_def unix_error_def dns_error_def)
qed

text \<open>A system that knows one host, on which nobody listens on the port 80; its state is the set of open descriptors.\<close>

definition demo_socket :: "int \<Rightarrow> int \<Rightarrow> int \<Rightarrow> (int set, int) call" where
  "demo_socket d t p A = (3, insert 3 A)"

definition demo_host :: "string \<Rightarrow> (int set, hostent option) call" where
  "demo_host name A = (if name = ''localhost'' then Some \<lparr>h_length = 4, h_addr_list = [[127, 0, 0, 1]]\<rparr> else None, A)"

definition demo_connect :: "int \<Rightarrow> sockaddr_in \<Rightarrow> (int set, int) call" where
  "demo_connect d sa A = (if sin_port sa = htons 80 then -1 else 0, A)"

theorem open_clientfd_contract_witness:
  "open_clientfd demo_socket demo_host demo_connect ''nowhere'' 8080 {} = Inr (-2, {3})
   \<and> open_clientfd demo_socket demo_host demo_connect ''localhost'' 80 {} = Inr (-1, {3})
   \<and> Open_clientfd demo_socket demo_host demo_connect ''nowhere'' 8080 {} = Inl (Exited 0)"
proof -
  have laws: "snd (demo_socket d t p A) = insert (fst (demo_socket d t p A)) A"
      "snd (demo_host h A) = A" "snd (demo_connect e a A) = A" for d t p A h e a
    by (simp_all add: demo_socket_def demo_host_def demo_connect_def)
  have calls: "demo_socket AF_INET SOCK_STREAM 0 {} = (3, {3})" "demo_host ''nowhere'' {3} = (None, {3})"
      "demo_host ''localhost'' {3} = (Some \<lparr>h_length = 4, h_addr_list = [[127, 0, 0, 1]]\<rparr>, {3})"
      "demo_connect 3 \<lparr>sin_family = AF_INET, sin_port = htons (word_of_int 80), sin_addr = [127, 0, 0, 1], sin_zero = replicate 8 0\<rparr> {3} = (-1, {3})"
    by (simp_all add: demo_socket_def demo_host_def demo_connect_def)
  note c = open_clientfd_contract [of demo_socket "\<lambda>A. A" demo_host demo_connect, OF laws(1) laws(2) laws(3) calls(1)]
  have n: "open_clientfd demo_socket demo_host demo_connect ''nowhere'' 8080 {} = Inr (-2, {3})"
    using c [OF calls(2), of 8080, THEN conjunct2, THEN conjunct1] by simp
  moreover have "open_clientfd demo_socket demo_host demo_connect ''localhost'' 80 {} = Inr (-1, {3})"
    using c [OF calls(3), of 80, THEN conjunct2, THEN conjunct2, THEN conjunct1] calls(4) by simp
  moreover have "Open_clientfd demo_socket demo_host demo_connect ''nowhere'' 8080 {} = Inl (Exited 0)"
    using c [OF calls(2), of 8080, THEN conjunct2, THEN conjunct2, THEN conjunct2, THEN conjunct2, THEN conjunct2, THEN conjunct2] n by simp
  ultimately show ?thesis by blast
qed

end
