(* ===== verification/Spec2Isabelle.thy ===== *)
theory Spec2Isabelle
  imports Demo Robust_IO Wrappers
begin

text \<open>
  A model of the Jeux game server (\<^verbatim>\<open>src/\<close>, \<^verbatim>\<open>include/\<close>): a server on which clients log in under a
  name, invite each other and play tic-tac-toe, and which rates the players. Each connection has a
  service thread (\<^verbatim>\<open>jeux_client_service\<close>) that receives packets and calls the handler of the packet's
  type; the handlers work on clients, invitations, games and players, which count references to
  each other, and on two registries, one of connected clients and one of players.

  \<^bold>\<open>The theories and what they model.\<close>

    \<^item> \<open>Jeux_Prelude\<close>: results (\<open>Inl\<close> a fault, \<open>Inr\<close> a value), sequencing \<open>and_then\<close>, mutexes, semaphores, arrays
      with checked indices, and the locale \<open>refcounted\<close>: what any counted object does.
    \<^item> \<open>Runtime\<close>: the system calls as a record \<open>sys\<close> of streams: whether a request for memory succeeds, how much a read or
      write transfers, the bytes still to be read and those written. \<open>no_oom\<close> says that every request
      succeeds, \<open>net_up\<close> that every write succeeds.
    \<^item> \<open>Game\<close> (\<^verbatim>\<open>game.c\<close>), \<open>Player\<close> (\<^verbatim>\<open>player.c\<close>), \<open>Protocol\<close> (\<^verbatim>\<open>protocol.c\<close>, \<^verbatim>\<open>includeme.c\<close>): every function, on the
      structures as records; the text of a board, the encoding of a header and the sending and receiving loops byte by byte.
    \<^item> \<open>World\<close>: the state of the running server, a heap for each C type, the registries, the semaphores and \<open>sys\<close>.
    \<^item> \<open>Client\<close>, \<open>Invitation\<close>, \<open>Client_Invitations\<close> (\<^verbatim>\<open>client.c\<close>, \<^verbatim>\<open>invitation.c\<close>), \<open>Player_Registry\<close>, \<open>Client_Registry\<close>
      (with login and logout of \<^verbatim>\<open>client.c\<close>), \<open>Server\<close> (\<^verbatim>\<open>server.c\<close>): every function, as a function from the
      world to a result and a world.
    \<^item> \<open>Program\<close> (\<^verbatim>\<open>main.c\<close>, \<^verbatim>\<open>option_processing.c\<close> and what they use of \<^verbatim>\<open>csapp.c\<close>): the command line,
      the signal handler, start-up, a round of the accept loop, termination.
    \<^item> \<open>Robust_IO\<close>: the Rio package of \<^verbatim>\<open>csapp.c\<close>, on system calls that may be interrupted. \<open>Wrappers\<close>: its other functions,
      with the functions of the operating system that they wrap as arguments, and the locale \<open>wrapper\<close>, the contract of a wrapper.
    \<^item> \<open>Ownership\<close>, \<open>Handlers\<close>, \<open>Sessions\<close>, \<open>Logins\<close>, \<open>Service\<close>, \<open>Connections\<close>, \<open>Requests\<close>: the invariant and what each
      handler does to the world. \<open>Departures\<close>: what can go wrong between the two halves of a departure.
    \<^item> \<open>System\<close>: the state machine of the whole server, whose steps are connections, requests, logouts and departures of
      the service threads in any order, with its invariant as an instance of the locale \<open>state_machine\<close>; the runs of the server in
      which the clients send what they like (\<open>run\<close>); the service of a connection; the shutdown, in which the service threads and
      the waiting main thread take their last steps in any order, a machine of bounded length (\<open>terminating\<close>). \<open>Demo\<close>: a session of two players that the witnesses use.

  \<^bold>\<open>What the lemmas show.\<close> \<open>core\<close> (in \<open>Ownership\<close>) is the invariant of the heaps: all pointers lead to live
  objects, counts are exact, no lock is held, every game belongs to one invitation. \<open>good\<close> adds that the semaphores
  are free, and \<open>server_ok rs\<close> (in \<open>Sessions\<close>) the registries: \<open>rs\<close> are the registered clients in the order of the array.
  \<open>system_ok\<close> adds where each service thread is: in its loop, with a client that is \<open>present\<close>, or behind it, with one that is logged out. \<open>Handlers\<close> has for each
  operation of \<^verbatim>\<open>client.c\<close> what it returns, sends and changes in each state of the invitation it is given
  (\<open>closes\<close>, \<open>moved\<close>, \<open>frame\<close>). \<open>Requests\<close> concludes that each request is \<open>served\<close>. The games refine
  an abstract game, the list of the cells played (\<open>game_rel\<close>), the player registry a map from names to players
  (\<open>preg_names\<close>), the array of the client registry a list.

  \<^bold>\<open>Bounds.\<close> The service loop (\<open>service_loop\<close>) is given one round more than there are bytes to receive on its connection: every
  round but the last consumes at least the 16 bytes of a header. Without it the model reports a fault, and \<open>client_service_ends\<close> excludes that.
  The loops of \<open>Robust_IO\<close> go on after interruptions and may not end: they are partial
  functions, and end if only finitely many calls are interrupted (\<open>settles\<close>).
  The sending and receiving loops terminate because each round transfers a byte or fails. The recursion between
  \<^verbatim>\<open>client_unref\<close>, \<^verbatim>\<open>client_logout\<close> and \<^verbatim>\<open>inv_unref\<close> is cut off at a depth of calls that the invariant shows is never reached.

  \<^bold>\<open>Idealisations.\<close> Handlers run to completion one at a time: a step of the state machine is one request, one logout at the
  end of a service loop, or one unregistering. In the
  code the semaphores of \<^verbatim>\<open>client.c\<close> make the operations on invitations and logins exclude each other;
  preemption between the lock regions of one request is not a step of the state machine. The code also serves
  requests that its data structures do not survive; \<open>safe_request\<close> says which they are, and \<open>invite_without_login\<close>, \<open>invite_during_departure\<close> and
  \<open>users_listing\<close> what they do. \<open>run\<close> has them as steps, and \<open>reachable_invariant\<close> says what holds until the first of them;
  the reachable states of the other theorems are those that a run without them gets to (\<open>reachable_iff_run\<close>). A semaphore or mutex that would
  block is the fault \<open>Deadlock\<close>, because no other thread runs meanwhile; only the wait of the main thread for an empty
  registry is resumed later (\<open>terminating\<close>). Addresses are never
  reused, so that a use of a freed object is a fault. The rounding of doubles and \<^verbatim>\<open>pow\<close> are a parameter \<open>fp\<close> of the operations.
  Where the arithmetic on ratings overflows an \<^verbatim>\<open>int\<close> it wraps around (\<open>to_int32\<close>), as on the machine. Counters that
  cannot get that large in the server are unbounded: reference counts, and the number of bytes in \<^verbatim>\<open>rio_readlineb\<close>, which is an \<^verbatim>\<open>int\<close> in the code and
  would overflow for a line of 2 GB. A write to a connection that the client has closed fails with -1; the signal SIGPIPE
  that comes with it, which the server does not ignore, is not modelled.

  \<^bold>\<open>Not modelled.\<close> The code under \<open>DEBUG\<close> and the output of \<^verbatim>\<open>debug.h\<close>, which is empty in the release build; the operating
  system behind the wrappers of \<^verbatim>\<open>csapp.c\<close> that the server does not call; the tests and the demo binaries.
\<close>

unbundle bit_operations_syntax

section \<open>The server as a whole\<close>

text \<open>
  C1: Whatever the clients send, in a run of the server everything it relies on holds until a
  request of one of the unsafe kinds (\<open>safe_request\<close>) is served. The objects are linked
  and counted correctly, no lock is held, every semaphore is free, the players registered have
  distinct names, the array of the client registry lists the registered clients without gaps, no
  two registered clients point to the same player, and the parties of every invitation that is not
  closed are logged in. The client of a thread that serves requests is logged in or has no player; the
  client of a thread that is about to unregister it is logged out. The threads' steps may be
  interleaved in any way. If this does not hold any more, the run has served an unsafe request, and
  the first time it did so in a reachable state.
\<close>

theorem reachable_invariant:
  assumes "run F tr (w, fl)"
  shows "(\<exists>(s, i) \<in> set tr. reachable F s \<and> unsafe_request s i)
    \<or> server_ok (registered w) w \<and> (\<forall>c \<in> set (registered w). case fl c of
      Serving f \<Rightarrow> \<forall>a l fd. who w c = Some (Some a, l, fd) \<longrightarrow> l = CLIENT_LOGGED_IN
    | Leaving \<Rightarrow> \<exists>x fd. who w c = Some (x, CLIENT_LOGGED_OUT, fd))"
proof -
  have "server_ok (registered w) w \<and> (\<forall>c \<in> set (registered w). case fl c of
      Serving f \<Rightarrow> \<forall>a l fd. who w c = Some (Some a, l, fd) \<longrightarrow> l = CLIENT_LOGGED_IN
    | Leaving \<Rightarrow> \<exists>x fd. who w c = Some (x, CLIENT_LOGGED_OUT, fd))" if "reachable F (w, fl)"
    using reachable_ok [OF that] reachable_thread [OF that] unfolding thread_ok_def present_def by blast
  then show ?thesis using run_reachable [OF assms] by blast
qed

theorem reachable_invariant_witness:
  "(\<exists>tr. run demo_fp tr (playing, demo_fl) \<and> (\<forall>(s, i) \<in> set tr. \<not> unsafe_request s i)) \<and> server_ok [1, 2] playing
    \<and> (\<exists>w tr x fd. run demo_fp tr (w, demo_fl(2 := Leaving)) \<and> who w 2 = Some (x, CLIENT_LOGGED_OUT, fd))"
proof -
  obtain w where w: "reachable demo_fp (w, demo_fl(2 := Leaving))" "registered w = [1, 2]" using parting by blast
  obtain tr where tr: "run demo_fp tr (w, demo_fl(2 := Leaving))" "\<forall>(s, i) \<in> set tr. \<not> unsafe_request s i"
    using w(1) unfolding reachable_iff_run by blast
  obtain tp where tp: "run demo_fp tp (playing, demo_fl)" "\<forall>(s, i) \<in> set tp. \<not> unsafe_request s i"
    using playing_reachable unfolding reachable_iff_run by blast
  have "\<exists>x fd. who w 2 = Some (x, CLIENT_LOGGED_OUT, fd)" using reachable_invariant [OF tr(1)] tr(2) w(2) by fastforce
  moreover have "server_ok (registered playing) playing" using reachable_invariant [OF tp(1)] tp(2) by fastforce
  ultimately show ?thesis using tr(1) tp by (auto simp only: demo_registered)
qed

text \<open>
  C2: In every reachable state, one that the server gets to without serving an unsafe request,
  a request that a service thread takes and that is not one of
  the four unsafe kinds is served: no fault, no deadlock and no exit. Only a packet of type 0 ends the
  service; the same clients stay registered and no other client's login changes.
\<close>

theorem reachable_requests_served:
  assumes "reachable F (w, fl)" and "c \<in> set (registered w)" and "fl c = Serving k"
    and "safe_request (registered w) c k hdr payload w"
  shows "\<exists>cont f w'. dispatch F c k hdr payload w = Inr ((cont, f), w') \<and> registered w' = registered w
    \<and> (\<not> cont \<longrightarrow> uint (h_type hdr) = pkt_val JEUX_NO_PKT) \<and> (\<forall>d. d \<noteq> c \<longrightarrow> who w' d = who w d)"
proof -
  have pr: "present w c" using reachable_thread [OF assms(1,2)] assms(3) by simp
  obtain cont f w' where d: "dispatch F c k hdr payload w = Inr ((cont, f), w')"
      "if cont then server_ok (registered w) w' \<and> present w' c else leaving (registered w) c w' \<and> uint (h_type hdr) = 0"
      "\<forall>d. d \<noteq> c \<longrightarrow> who w' d = who w d"
    using dispatch_ok [OF reachable_ok [OF assms(1)] assms(2) pr assms(4), of F] by (elim exE conjE) (rule that)
  have "creg_ok (registered w) w'" using d(2) server_okD(4) leaving_server_ok by (auto split: if_splits)
  then show ?thesis using d registered_eq
    by (intro exI [of _ cont] exI [of _ f] exI [of _ w']) (auto split: if_splits)
qed

theorem reachable_requests_served_witness:
  "\<exists>cont f w'. dispatch demo_fp 1 1 (req JEUX_RESIGN_PKT 0 0 0) None playing = Inr ((cont, f), w') \<and> cont
    \<and> registered w' = [1, 2]"
proof -
  have "safe_request [1, 2] 1 1 (req JEUX_RESIGN_PKT 0 0 0) None playing" by (simp add: safe_request_def req_type)
  then show ?thesis
    using reachable_requests_served [OF playing_reachable, of 1 1 "req JEUX_RESIGN_PKT 0 0 0" None]
    unfolding demo_registered req_type by auto
qed

text \<open>
  C9: In every reachable state, one that the server gets to without serving an unsafe request,
  no two connections are logged in under the same name.
\<close>

theorem reachable_unique_logins:
  assumes "reachable F (w, fl)"
    and "clients w c = Some cl" "logged_in cl = CLIENT_LOGGED_IN" "c_player cl = Some a" "players w a = Some p"
    and "clients w d = Some dl" "logged_in dl = CLIENT_LOGGED_IN" "c_player dl = Some b" "players w b = Some q"
    and "p_name p = p_name q"
  shows "c = d"
proof -
  have ok: "server_ok (registered w) w" using reachable_ok [OF assms(1)] .
  have on: "who w c = Some (Some a, CLIENT_LOGGED_IN, c_fd cl)" "who w d = Some (Some b, CLIENT_LOGGED_IN, c_fd dl)"
    using assms by (simp_all add: who_def)
  then have "c \<in> set (registered w)" "d \<in> set (registered w)" using logins_okD(1) [OF server_okD(5) [OF ok]] by blast+
  moreover have "called w c (the (p_name p))" "called w d (the (p_name p))"
    using on assms by (auto simp: called_def name_of_def)
  ultimately show ?thesis using called_unique [OF ok] by blast
qed

theorem reachable_unique_logins_witness:
  "\<exists>cl a p. clients playing 1 = Some cl \<and> logged_in cl = CLIENT_LOGGED_IN \<and> c_player cl = Some a \<and> players playing a = Some p
     \<and> (\<forall>d dl b q. clients playing d = Some dl \<and> logged_in dl = CLIENT_LOGGED_IN \<and> c_player dl = Some b \<and> players playing b = Some q
          \<and> p_name p = p_name q \<longrightarrow> d = 1)"
proof -
  obtain cl a p where cl: "clients playing 1 = Some cl" "c_player cl = Some a" "logged_in cl = CLIENT_LOGGED_IN" "players playing a = Some p"
    using logged_in_players [OF playing_facts(1) playing_on(1)] by blast
  note u = reachable_unique_logins [OF playing_reachable cl(1,3,2,4)]
  have "d = 1" if "clients playing d = Some dl" "logged_in dl = CLIENT_LOGGED_IN" "c_player dl = Some b" "players playing b = Some q"
      "p_name p = p_name q" for d dl b q
    using u [OF that] by simp
  then show ?thesis using cl by blast
qed

text \<open>
  C6: In every reachable state, one that the server gets to without serving an unsafe request,
  the reference counts are exact. A client is counted
  once by the registry and once by every invitation it is a party of; an invitation once for each
  of its parties' lists that has it; a registered player once by the registry and once by
  every client logged in as it. No count is zero, so no live object has been freed.
\<close>

theorem reachable_reference_counts:
  assumes "reachable F (w, fl)"
  shows "(\<forall>c cl. clients w c = Some cl \<longrightarrow> c_ref_count cl = of_bool (c \<in> set (registered w))
           + int (card {i. \<exists>v. invs w i = Some v \<and> (i_source v = c \<or> i_target v = c)}) \<and> 0 < c_ref_count cl)
    \<and> (\<forall>i v. invs w i = Some v \<longrightarrow> i_ref_count v = of_bool (listed w (i_source v) i) + of_bool (listed w (i_target v) i) \<and> 0 < i_ref_count v)
    \<and> (\<forall>n a p. preg_names w n = Some a \<and> players w a = Some p \<longrightarrow> p_ref_count p = 1
           + int (card {c. \<exists>cl. clients w c = Some cl \<and> c_player cl = Some a \<and> logged_in cl = CLIENT_LOGGED_IN}))"
proof (intro conjI allI impI)
  have ok: "server_ok (registered w) w" using reachable_ok [OF assms] .
  note co = coreD(1) [OF server_okD(1) [OF ok]]
  fix c cl
  assume "clients w c = Some cl"
  then have "refs_ok (set (registered w)) w c cl" using co by (simp add: objs_ok_def)
  then show "c_ref_count cl = of_bool (c \<in> set (registered w))
           + int (card {i. \<exists>v. invs w i = Some v \<and> (i_source v = c \<or> i_target v = c)})" and "0 < c_ref_count cl"
    using finite_held [OF co, of c] by (auto simp: refs_ok_def held_def [symmetric] card_gt_0_iff)
next
  have ok: "server_ok (registered w) w" using reachable_ok [OF assms] .
  fix i v
  assume v: "invs w i = Some v"
  show "i_ref_count v = of_bool (listed w (i_source v) i) + of_bool (listed w (i_target v) i)" and "0 < i_ref_count v"
    using objs_invD [OF coreD(1) [OF server_okD(1) [OF ok]] v] server_okD(1) [OF ok] v
    unfolding inv_ok_def core_def pos_refs_def by blast+
next
  have ok: "server_ok (registered w) w" using reachable_ok [OF assms] .
  fix n a p
  assume a: "preg_names w n = Some a \<and> players w a = Some p"
  have "{c. \<exists>cl. clients w c = Some cl \<and> c_player cl = Some a \<and> logged_in cl = CLIENT_LOGGED_IN} = logins w a"
    by (auto simp: logins_def who_def)
  moreover have "\<exists>n. whose w a = Some (n, 1 + int (card (logins w a)), False)"
    using server_okD(2) [OF ok] ranI [of "preg_names w", OF conjunct1 [OF a]] unfolding players_ok_def by blast
  ultimately show "p_ref_count p = 1 + int (card {c. \<exists>cl. clients w c = Some cl \<and> c_player cl = Some a \<and> logged_in cl = CLIENT_LOGGED_IN})"
    using a by (simp add: whose_def)
qed

theorem reachable_reference_counts_witness:
  "\<exists>cl i v a p. clients playing 1 = Some cl \<and> c_ref_count cl = 2 \<and> invs playing i = Some v \<and> i_ref_count v = 2
     \<and> players playing a = Some p \<and> p_ref_count p = 2"
proof -
  obtain i g cl dl where w: "clients playing 1 = Some cl" "clients playing 2 = Some dl"
      "invite_list cl = [\<lparr>n_id = 0, n_inv = i\<rparr>]" "invite_list dl = [\<lparr>n_id = 0, n_inv = i\<rparr>]"
      "invs playing = [i \<mapsto> demo_inv\<lparr>i_state := INV_ACCEPTED_STATE, i_game := Some g\<rparr>]"
    using playing_facts(3) by blast
  note rc = reachable_reference_counts [OF playing_reachable, THEN conjunct1, rule_format]
    reachable_reference_counts [OF playing_reachable, THEN conjunct2, THEN conjunct1, rule_format]
    reachable_reference_counts [OF playing_reachable, THEN conjunct2, THEN conjunct2, rule_format]
  have v: "invs playing i = Some (demo_inv\<lparr>i_state := INV_ACCEPTED_STATE, i_game := Some g\<rparr>)" (is "_ = Some ?v") using w(5) by simp
  have pa: "i_source ?v = 1" "i_target ?v = 2" by (simp_all add: demo_inv_def make_inv_def)
  have "{j. \<exists>v. invs playing j = Some v \<and> (i_source v = 1 \<or> i_target v = 1)} = {i}" using w(5) pa by auto
  then have "c_ref_count cl = 2" using rc(1) [OF w(1)] unfolding demo_registered by simp
  moreover have "listed playing 1 i" "listed playing 2 i" using w by (auto simp: listed_def)
  then have "i_ref_count ?v = 2" using rc(2) [OF v] unfolding pa by simp
  moreover obtain cl' a p n where on: "clients playing 1 = Some cl'" "c_player cl' = Some a" "logged_in cl' = CLIENT_LOGGED_IN"
      "players playing a = Some p" "preg_names playing n = Some a"
    using logged_in_players [OF playing_facts(1) playing_on(1)] by blast
  have a: "who playing 1 = Some (Some a, CLIENT_LOGGED_IN, c_fd cl')" using on by (simp add: who_def)
  have "{c. \<exists>cl. clients playing c = Some cl \<and> c_player cl = Some a \<and> logged_in cl = CLIENT_LOGGED_IN} = {1}"
  proof -
    have "c = 1" if c: "who playing c = Some (Some a, CLIENT_LOGGED_IN, fe)" for c fe
    proof (rule called_unique [OF playing_facts(1)])
      show "c \<in> set [1, 2]" by (rule logins_okD(1) [OF server_okD(5) [OF playing_facts(1)] c])
      show "called playing c (name_of (players playing) a)" "called playing 1 (name_of (players playing) a)"
        using c a unfolding called_def by blast+
    qed simp
    then have eq: "c = 1" if "clients playing c = Some dl" "c_player dl = Some a" "logged_in dl = CLIENT_LOGGED_IN" for c dl
      using that by (simp add: who_def)
    then show ?thesis using on(1-3) by blast
  qed
  then have "p_ref_count p = 2" using rc(3) [OF conjI [OF on(5,4)]] by simp
  ultimately show ?thesis using w(1) v on(4) by blast
qed

text \<open>
  C10: In every reachable state, one that the server gets to without serving an unsafe request,
  an invitation has two different live clients as its
  parties, with the two roles; it has a game exactly when it was accepted, or was when it was closed,
  and the game is alive and well formed; a closed one has no running game. An entry of a client's list is an
  invitation it is a party of, its identifier is not negative, and no other entry of the list has it.
\<close>

theorem reachable_well_formed:
  assumes "reachable F (w, fl)"
  shows "(\<forall>i v. invs w i = Some v \<longrightarrow> i_source v \<noteq> i_target v \<and> clients w (i_source v) \<noteq> None \<and> clients w (i_target v) \<noteq> None
      \<and> {i_source_role v, i_target_role v} = {FIRST_PLAYER_ROLE, SECOND_PLAYER_ROLE} \<and> \<not> i_lock v
      \<and> (i_state v = INV_OPEN_STATE \<longrightarrow> i_game v = None) \<and> (i_state v = INV_ACCEPTED_STATE \<longrightarrow> i_game v \<noteq> None)
      \<and> (\<forall>g. i_game v = Some g \<longrightarrow> (\<exists>gm. games w g = Some gm \<and> game_ok gm \<and> (i_state v = INV_CLOSED_STATE \<longrightarrow> stopped gm))))
    \<and> (\<forall>c cl. clients w c = Some cl \<longrightarrow> distinct (map n_id (invite_list cl)) \<and> (\<forall>n \<in> set (invite_list cl). 0 \<le> n_id n
      \<and> (\<exists>v. invs w (n_inv n) = Some v \<and> (i_source v = c \<or> i_target v = c))))"
proof -
  have ok: "server_ok (registered w) w" using reachable_ok [OF assms] .
  note co = coreD(1) [OF server_okD(1) [OF ok]]
  have "i_source v \<noteq> i_target v \<and> clients w (i_source v) \<noteq> None \<and> clients w (i_target v) \<noteq> None
      \<and> {i_source_role v, i_target_role v} = {FIRST_PLAYER_ROLE, SECOND_PLAYER_ROLE} \<and> \<not> i_lock v
      \<and> (i_state v = INV_OPEN_STATE \<longrightarrow> i_game v = None) \<and> (i_state v = INV_ACCEPTED_STATE \<longrightarrow> i_game v \<noteq> None)
      \<and> (\<forall>g. i_game v = Some g \<longrightarrow> (\<exists>gm. games w g = Some gm \<and> game_ok gm \<and> (i_state v = INV_CLOSED_STATE \<longrightarrow> stopped gm)))"
    if v: "invs w i = Some v" for i v
  proof -
    note o = objs_invD [OF co v, unfolded inv_ok_def]
    have "{i_source_role v, i_target_role v} = {FIRST_PLAYER_ROLE, SECOND_PLAYER_ROLE}"
      using o by (cases "i_source_role v"; cases "i_target_role v") auto
    then show ?thesis using o by (simp split: option.splits)
  qed
  moreover have "distinct (map n_id (invite_list cl)) \<and> (\<forall>n \<in> set (invite_list cl). 0 \<le> n_id n
      \<and> (\<exists>v. invs w (n_inv n) = Some v \<and> (i_source v = c \<or> i_target v = c)))" if "clients w c = Some cl" for c cl
    using objs_clientD(2,4) [OF co that] unfolding ids_ok_def held_def by blast
  ultimately show ?thesis by blast
qed

theorem reachable_well_formed_witness:
  "\<exists>i v g gm. invs playing i = Some v \<and> i_game v = Some g \<and> games playing g = Some gm \<and> game_ok gm
     \<and> (\<exists>cl. clients playing 1 = Some cl \<and> distinct (map n_id (invite_list cl)))"
proof -
  obtain i g cl where w: "clients playing 1 = Some cl"
      "invs playing = [i \<mapsto> demo_inv\<lparr>i_state := INV_ACCEPTED_STATE, i_game := Some g\<rparr>]"
    using playing_facts(3) by blast
  have v: "invs playing i = Some (demo_inv\<lparr>i_state := INV_ACCEPTED_STATE, i_game := Some g\<rparr>)" (is "_ = Some ?v") using w(2) by simp
  have "\<exists>gm. games playing g = Some gm \<and> game_ok gm"
    using reachable_well_formed [OF playing_reachable, THEN conjunct1, rule_format, OF v] by simp
  then show ?thesis using reachable_well_formed [OF playing_reachable, THEN conjunct2, rule_format, OF w(1)] v w(1) by fastforce
qed

text \<open>
  C11: No step of the server from a reachable state, other than an unsafe request, takes an invitation back
  to an earlier one of the states OPEN, ACCEPTED, CLOSED.
\<close>

theorem invitations_move_forward:
  assumes "reachable F (w, fl)" and "system_step F (w, fl) (w', fl')" and "invs w i = Some v" "invs w' i = Some v'"
  shows "i_state v \<le> i_state v'"
  using reachable_states_up [OF assms(1,2)] assms(3,4) by (auto simp: states_up_def)

theorem invitations_move_forward_witness:
  "\<exists>i v v'. invs offered i = Some v \<and> invs playing i = Some v' \<and> i_state v = INV_OPEN_STATE \<and> i_state v' = INV_ACCEPTED_STATE
     \<and> i_state v \<le> i_state v'"
proof -
  obtain i g where "invs offered = [i \<mapsto> demo_inv]" "invs playing = [i \<mapsto> demo_inv\<lparr>i_state := INV_ACCEPTED_STATE, i_game := Some g\<rparr>]"
    using playing_facts(3) by blast
  then have v: "invs offered i = Some demo_inv" "invs playing i = Some (demo_inv\<lparr>i_state := INV_ACCEPTED_STATE, i_game := Some g\<rparr>)"
    by simp_all
  have "i_state demo_inv = INV_OPEN_STATE" by (simp add: demo_inv_def make_inv_def)
  then show ?thesis using v invitations_move_forward [OF offered_reachable accept_step v]
    by (intro exI [of _ i] exI [of _ demo_inv] exI [of _ "demo_inv\<lparr>i_state := INV_ACCEPTED_STATE, i_game := Some g\<rparr>"]) simp
qed

text \<open>
  C5: The service of a connection comes to an end, whatever bytes the client sends and however they
  are split: each round of the loop consumes a packet of the input. At its end the connection is
  closed and the server is as usable as before, unless the client ran into one of the two faults that
  remain, inviting without a login and listing a rating that does not fit the buffer.
\<close>

theorem client_service_ends:
  assumes "quiet rs w" and "tidy w" and "net_up (sy w)" and "0 \<le> connfd"
  shows "(\<exists>w'. jeux_client_service F connfd w = Inr w' \<and> quiet rs w' \<and> tidy w')
    \<or> jeux_client_service F connfd w = Inl NullDeref \<or> jeux_client_service F connfd w = Inl BufferOverflow"
  using client_service_ok [OF assms] by (simp add: bad_end_def)

theorem client_service_ends_witness:
  "(\<exists>w'. jeux_client_service demo_fp 6 lobby = Inr w' \<and> quiet [1, 2] w' \<and> tidy w')
    \<or> jeux_client_service demo_fp 6 lobby = Inl NullDeref \<or> jeux_client_service demo_fp 6 lobby = Inl BufferOverflow"
proof -
  have "quiet [1, 2] lobby" using lobby_ok lobby_facts(1,2) by (simp add: quiet_def present_def)
  from client_service_ends [OF this lobby_facts(6,5)] show ?thesis by simp
qed

text \<open>
  C7: The server terminates from every reachable state. The main thread calls
  \<^verbatim>\<open>creg_shutdown_all\<close> and then \<^verbatim>\<open>creg_wait_for_empty\<close>, with the clients still registered. Meanwhile a service
  thread that is in its loop finds the end of its input, logs its client out and leaves the loop, and a thread
  behind its loop unregisters its client. In whatever order they and the main thread do so, there are at most two steps for
  every client and two of the main thread, and until the wait has returned there is always a next one: a
  main thread that is blocked by the semaphore is woken. If the semaphore held no post from
  before, the wait returns only when no client is registered, and then the registries are torn down with every player freed.
\<close>

theorem graceful_shutdown:
  assumes "reachable F (w, fl)"
  shows "\<exists>w1. creg_shutdown_all w = Inr w1
    \<and> (\<exists>n st. (terminating F ^^ n) ((w1, fl), Calling) (st, Returned))
    \<and> (\<forall>n w2 fl2 m. (terminating F ^^ n) ((w1, fl), Calling) ((w2, fl2), m) \<longrightarrow> n \<le> 2 * length (registered w) + 2
       \<and> (m \<noteq> Returned \<longrightarrow> (\<exists>y. terminating F ((w2, fl2), m) y))
       \<and> (m = Returned \<and> sem_of w = 0 \<longrightarrow> registered w2 = []
          \<and> (\<exists>w3. and_then (creg_fini w2) preg_fini = Inr w3 \<and> creg w3 = None \<and> preg w3 = None
                \<and> (\<forall>a \<in> ran (preg_names w2). players w3 a = None))))"
proof -
  let ?w1 = "shut_w (registered w) w"
  note ok = reachable_system_ok [OF assms]
  note s = shutting_start [OF ok]
  have s0: "waiting_ok (sem_of w = 0) ((?w1, fl), Calling)"
    using s(1) by (simp add: waiting_ok_def sem_of_def shut_w_def split: option.split)
  have "n \<le> 2 * length (registered w) + 2 \<and> (m \<noteq> Returned \<longrightarrow> (\<exists>y. terminating F ((w2, fl2), m) y))
       \<and> (m = Returned \<and> sem_of w = 0 \<longrightarrow> registered w2 = []
          \<and> (\<exists>w3. and_then (creg_fini w2) preg_fini = Inr w3 \<and> creg w3 = None \<and> preg w3 = None
                \<and> (\<forall>a \<in> ran (preg_names w2). players w3 a = None)))"
    if "(terminating F ^^ n) ((?w1, fl), Calling) ((w2, fl2), m)" for n w2 fl2 m
  proof -
    have r: "waiting_ok (sem_of w = 0) ((w2, fl2), m)" "n + to_wait ((w2, fl2), m) \<le> to_wait ((?w1, fl), Calling)"
      using terminating.run_bound [OF that s0] by simp_all
    have "n \<le> 2 * length (registered w) + 2" using r(2) to_go_le [of ?w1 fl] s(2) by (simp add: to_wait_def)
    moreover have "server_ok (registered w2) w2" using r(1) by (simp add: waiting_ok_def shutting_def system_ok_def)
    moreover have "m = Returned \<and> sem_of w = 0 \<longrightarrow> registered w2 = []" using r(1) by (simp add: waiting_ok_def)
    ultimately show ?thesis using terminating_progress [OF r(1), of F] idle_end [of w2] by auto
  qed
  then show ?thesis using shutdown_all_ok(1) [OF system_okD(1) [OF ok]] terminating_ends [OF s0, of F] by blast
qed

theorem graceful_shutdown_witness:
  "\<exists>w1 n w2 fl2 w3. creg_shutdown_all lobby = Inr w1 \<and> (terminating demo_fp ^^ n) ((w1, \<lambda>_. Serving 0), Calling) ((w2, fl2), Returned)
    \<and> n \<le> 6 \<and> registered w2 = [] \<and> and_then (creg_fini w2) preg_fini = Inr w3 \<and> creg w3 = None"
proof -
  have z: "sem_of lobby = 0"
    by (simp add: lobby_eq sem_of_def connected_w_def started_def main_init_def blank_world_def creg_init_def preg_init_def)
  obtain w1 where w1: "creg_shutdown_all lobby = Inr w1" "\<exists>n st. (terminating demo_fp ^^ n) ((w1, \<lambda>_. Serving 0), Calling) (st, Returned)"
      "\<And>n w2 fl2 m. (terminating demo_fp ^^ n) ((w1, \<lambda>_. Serving 0), Calling) ((w2, fl2), m) \<Longrightarrow> n \<le> 2 * length (registered lobby) + 2
       \<and> (m \<noteq> Returned \<longrightarrow> (\<exists>y. terminating demo_fp ((w2, fl2), m) y))
       \<and> (m = Returned \<and> sem_of lobby = 0 \<longrightarrow> registered w2 = []
          \<and> (\<exists>w3. and_then (creg_fini w2) preg_fini = Inr w3 \<and> creg w3 = None \<and> preg w3 = None
                \<and> (\<forall>a \<in> ran (preg_names w2). players w3 a = None)))"
    using graceful_shutdown [OF lobby_reachable] by blast
  obtain n w2 fl2 where r: "(terminating demo_fp ^^ n) ((w1, \<lambda>_. Serving 0), Calling) ((w2, fl2), Returned)" using w1(2) by auto
  show ?thesis using w1(1) r w1(3) [OF r] z by (auto simp: demo_registered)
qed

text \<open>
  C25: The semaphore that \<^verbatim>\<open>creg_wait_for_empty\<close> waits for is posted whenever the registry becomes empty,
  and not taken when it fills again: after the last client has left and another one has
  connected, the wait returns although that client is registered.
\<close>

theorem wait_for_empty_early:
  assumes "leaving [c] c w" and "creg w = Some cr" and "cr_no cr \<noteq> 1"
  shows "\<exists>w1 w2 w3 d. creg_unregister F (client_unref F) (Some c) w = Inr (0, w1) \<and> creg_register fd w1 = Inr (Some d, w2)
    \<and> creg_wait_for_empty w2 = Inr w3 \<and> registered w3 = [d]"
proof -
  obtain w1 where w1: "creg_unregister F (client_unref F) (Some c) w = Inr (0, w1)" "server_ok [] w1"
      "creg w1 = Some (unreg_creg [c] c cr)"
    using unregister_ok [OF assms(1), of F] assms(2) by auto
  have cr: "creg_ok [c] w" using server_okD(4) [OF leaving_server_ok [OF assms(1)]] .
  have u: "cr_sem (unreg_creg [c] c cr) = Suc (cr_sem cr)" "cr_no (unreg_creg [c] c cr) \<noteq> 1"
    using unreg_creg_ok(2,3) [OF cr assms(2)] assms(3) by simp_all
  have len: "cr_length (unreg_creg [c] c cr) = 0" using creg_okD [OF server_okD(4) [OF w1(2)]] w1(3) by force
  note r = register_ok [OF w1(2,3) u(2), of fd]
  have r': "creg_register fd w1 = Inr (Some (next_addr w1), connected_w fd w1)" "server_ok [next_addr w1] (connected_w fd w1)"
    using r by (simp_all add: MAX_CLIENTS_def)
  obtain cr' where cr': "creg (connected_w fd w1) = Some cr'" "cr_sem cr' = Suc (cr_sem cr)" "cr_length cr' = 1"
    using w1(3) u len by (simp add: connected_w_def)
  let ?w3 = "(connected_w fd w1)\<lparr>creg := Some (cr'\<lparr>cr_sem := cr_sem cr\<rparr>)\<rparr>"
  have "creg_wait_for_empty (connected_w fd w1) = Inr ?w3"
    using cr' by (simp add: creg_wait_for_empty_def creg_sem_wait_def the_creg_def sem_wait_def)
  moreover have "registered ?w3 = [next_addr w1]"
    using registered_eq [OF server_okD(4) [OF r'(2)]] cr'(1) by (simp add: registered_def creg_entries_def)
  ultimately show ?thesis using w1(1) r'(1) by blast
qed

theorem wait_for_empty_early_witness:
  "\<exists>w w1 w2 w3 d. creg_register 4 started = Inr (Some 1, w) \<and> creg_unregister demo_fp (client_unref demo_fp) (Some 1) w = Inr (0, w1)
    \<and> creg_register 5 w1 = Inr (Some d, w2) \<and> creg_wait_for_empty w2 = Inr w3 \<and> registered w3 = [d]"
proof -
  obtain cr where cr: "creg started = Some cr" "cr_no cr = 0" using started_creg(1) by blast
  have r: "creg_register 4 started = Inr (Some 1, connected_w 4 started)" "server_ok [1] (connected_w 4 started)"
      "who (connected_w 4 started) 1 = Some (None, CLIENT_LOGGED_OUT, 4)"
    using register_ok [OF started_ok cr(1), of 4] cr(2) started_creg(2) by (simp_all add: MAX_CLIENTS_def)
  have l: "leaving [1] 1 (connected_w 4 started)" using r(2,3) by (simp add: leaving_def)
  obtain cr' where cr': "creg (connected_w 4 started) = Some cr'" "cr_no cr' \<noteq> 1" using cr by (simp add: connected_w_def)
  show ?thesis using wait_for_empty_early [OF l cr', of demo_fp 5] r(1) by metis
qed

section \<open>Logging in and finding players\<close>

text \<open>
  C12: A LOGIN under a name of a client that is not logged in always returns 1. The name is bound in
  the player registry, to the player that already had it if there was one. If no registered client has the
  player of that name, the client is now logged in as it and is sent an ACK; otherwise nothing about the clients changes and the
  client is sent a NACK, but then an ACK too.
\<close>

theorem login_by_name:
  assumes "server_ok rs w" and "c \<in> set rs" and "who w c = Some (None, l, fd)" and "str \<noteq> []" and "n = take (payload_size hdr) str"
  shows "\<exists>a w'. process_login (Some str) hdr c w = Inr (1, w') \<and> server_ok rs w' \<and> invs w' = invs w
    \<and> preg_names w' = (preg_names w)(n \<mapsto> a) \<and> (\<forall>b. preg_names w n = Some b \<longrightarrow> a = b)
    \<and> (if \<forall>d \<in> set rs. \<forall>k fe. who w d \<noteq> Some (Some a, k, fe)
       then who w' = (who w)(c \<mapsto> (Some a, CLIENT_LOGGED_IN, fd)) \<and> sent JEUX_ACK_PKT 0 None fd (sy w) (sy w')
       else who w' = who w \<and> (\<exists>s. sent JEUX_NACK_PKT 0 None fd (sy w) s \<and> sent JEUX_ACK_PKT 0 None fd s (sy w')))"
proof -
  obtain a w' where w': "process_login (Some str) hdr c w = Inr (1, w')" "login_outcome rs c n fd w a w'"
    using login_accepted [OF assms(1-4), of hdr] assms(5) by blast
  have "bound w a \<inter> set rs = {} \<longleftrightarrow> (\<forall>d \<in> set rs. \<forall>k fe. who w d \<noteq> Some (Some a, k, fe))" by (auto simp: bound_def)
  then show ?thesis using w' unfolding login_outcome_def by (intro exI [of _ a] exI [of _ w']) simp
qed

theorem login_by_name_witness:
  "\<exists>a w'. process_login (Some ''ann'') (req JEUX_LOGIN_PKT 0 0 3) 1 lobby = Inr (1, w') \<and> server_ok [1, 2] w'
    \<and> preg_names w' = [''ann'' \<mapsto> a]"
  using login_by_name [OF lobby_ok _ lobby_facts(1), of "''ann''" "''ann''" "req JEUX_LOGIN_PKT 0 0 3"] lobby_facts(4)
  by (fastforce simp: req_size)

text \<open>
  C20: A LOGIN is refused with a NACK, and changes nothing, if the client is logged in already, or if the
  packet has no name.
\<close>

theorem login_refusals:
  assumes "server_ok rs w" and "who w c = Some (x, l, fd)" and "x \<noteq> None \<or> payload = None \<or> payload = Some []"
  shows "\<exists>s. process_login payload hdr c w = Inr (-1, w\<lparr>sy := s\<rparr>) \<and> sent JEUX_NACK_PKT 0 None fd (sy w) s"
  by (rule login_refused [OF server_okD(1) [OF assms(1)] assms(2,3)])

theorem login_refusals_witness:
  "\<exists>s. process_login None (req JEUX_LOGIN_PKT 0 0 0) 1 lobby = Inr (-1, lobby\<lparr>sy := s\<rparr>) \<and> sent JEUX_NACK_PKT 0 None 4 (sy lobby) s"
  using login_refusals [OF lobby_ok lobby_facts(1)] by simp



section \<open>Invitations\<close>

text \<open>
  C13: An INVITE of another player who is logged in, with one of the two roles, makes one new open
  invitation, with the roles as asked, which both clients list under the lowest identifier they have free.
  The other player is sent an INVITED packet with the name of the inviting one, who is sent an ACK with the identifier.
\<close>

theorem invite_makes_invitation:
  assumes "server_ok rs w" and "c \<in> set rs" "who w c = Some (Some a, CLIENT_LOGGED_IN, fd)"
    and "d \<in> set rs" "called w d n" "d \<noteq> c" "online w d" and "roles_of hdr = Some (sr, tr)"
  shows "\<exists>w'. process_invite F (Some n) c hdr w = Inr (0, w') \<and> server_ok rs w' \<and> who w' = who w \<and> invited c d tr a fd w (sy w')
    \<and> invs w' = (invs w)(next_addr w \<mapsto> \<lparr>i_state = INV_OPEN_STATE, i_ref_count = 2, i_source = c, i_target = d, i_game = None,
         i_source_role = sr, i_target_role = tr, i_lock = False\<rparr>)
    \<and> invs w (next_addr w) = None \<and> listed w' c (next_addr w) \<and> listed w' d (next_addr w)"
proof -
  obtain s where s: "process_invite F (Some n) c hdr w = Inr (0, (make_w c d sr tr w)\<lparr>sy := s\<rparr>)"
      "server_ok rs ((make_w c d sr tr w)\<lparr>sy := s\<rparr>)" "invited c d tr a fd w s"
    using invite_ok [OF assms(1-6) present_in [OF assms(3)] assms(7,8)] by blast
  let ?w = "(make_w c d sr tr w)\<lparr>sy := s\<rparr>"
  have "invs w (next_addr w) = None"
    using objs_invD [OF coreD(1) [OF server_okD(1) [OF assms(1)]], of "next_addr w"] by (cases "invs w (next_addr w)") (auto simp: inv_ok_def)
  moreover have v: "invs ?w (next_addr w) = Some (make_inv c d sr tr 2)" by simp
  then have "listed ?w c (next_addr w) \<and> listed ?w d (next_addr w)"
    using server_okD(1) [OF s(2)] unfolding core_def live_ok_def by (fastforce simp: make_inv_def)
  moreover have "frame w (make_w c d sr tr w)"
    using make_w_core(2) [OF server_okD(1) [OF assms(1)] _ assms(2,4)] assms(6) roles_of_ok [OF assms(8)] by auto
  then have "who ?w = who w" by (simp add: frame_def)
  ultimately show ?thesis using s by (intro exI [of _ ?w]) (simp add: make_inv_def)
qed

theorem invite_makes_invitation_witness:
  "\<exists>w'. process_invite demo_fp (Some ''bob'') 1 (req JEUX_INVITE_PKT 0 2 3) both_in = Inr (0, w') \<and> server_ok [1, 2] w'
    \<and> listed w' 1 (next_addr both_in) \<and> listed w' 2 (next_addr both_in)"
proof -
  obtain a b where ab: "who both_in 1 = Some (Some a, CLIENT_LOGGED_IN, 4)" "who both_in 2 = Some (Some b, CLIENT_LOGGED_IN, 5)"
      "name_of (players both_in) b = ''bob''" using both_in_facts(4) by blast
  have "called both_in 2 ''bob''" using ab(2,3) by (auto simp: called_def)
  moreover have "roles_of (req JEUX_INVITE_PKT 0 2 3) = Some (FIRST_PLAYER_ROLE, SECOND_PLAYER_ROLE)"
    by (simp add: roles_of_def req_def)
  ultimately show ?thesis
    using invite_makes_invitation [OF both_in_facts(1) _ ab(1), of 2 "''bob''" "req JEUX_INVITE_PKT 0 2 3"] both_in_on(2) by auto
qed

text \<open>
  C21: The client's flag only tells whether a LOGIN was tried, not whether it succeeded. So a client whose LOGIN
  was refused gets its INVITE of a player who is logged in processed, and its missing player is dereferenced.
\<close>

theorem invite_without_login:
  assumes "server_ok rs w" and "c \<in> set rs" "who w c = Some (None, l, fd)"
    and "d \<in> set rs" "called w d n" and "roles_of hdr = Some (sr, tr)" and "uint (h_type hdr) = pkt_val JEUX_INVITE_PKT"
  shows "\<exists>w1. dispatch F c 0 (hdr\<lparr>h_type := word_of_int (pkt_val JEUX_LOGIN_PKT)\<rparr>) None w = Inr ((True, -1), w1)
    \<and> dispatch F c (-1) hdr (Some n) w1 = Inl NullDeref"
proof -
  obtain s where s: "process_login None (hdr\<lparr>h_type := word_of_int (pkt_val JEUX_LOGIN_PKT)\<rparr>) c w = Inr (-1, w\<lparr>sy := s\<rparr>)"
      "sent JEUX_NACK_PKT 0 None fd (sy w) s"
    using login_refused [OF server_okD(1) [OF assms(1)] assms(3)] by blast
  let ?w = "w\<lparr>sy := s\<rparr>"
  have ok: "server_ok rs ?w" using server_ok_sy [OF assms(1)] sentD [OF s(2)] by blast
  have "who ?w c = Some (None, l, fd)" "called ?w d n" using assms(3,5) by (simp_all add: called_def)
  from invite_crash [OF ok assms(2) this(1) assms(4) this(2) assms(6)] s(1) assms(7) show ?thesis
    by (intro exI [of _ ?w]) (simp add: dispatch_def guarded_def Let_def)
qed

theorem invite_without_login_witness:
  "\<exists>w1. dispatch demo_fp 2 0 ((req JEUX_INVITE_PKT 0 1 3)\<lparr>h_type := word_of_int (pkt_val JEUX_LOGIN_PKT)\<rparr>) None ann_in = Inr ((True, -1), w1)
    \<and> dispatch demo_fp 2 (-1) (req JEUX_INVITE_PKT 0 1 3) (Some ''ann'') w1 = Inl NullDeref"
proof -
  obtain a where a: "who ann_in = (who lobby)(1 \<mapsto> (Some a, CLIENT_LOGGED_IN, 4))" "name_of (players ann_in) a = ''ann''"
    using ann_in_facts(4) by blast
  have "who ann_in 2 = Some (None, CLIENT_LOGGED_OUT, 5)" "called ann_in 1 ''ann''" using a lobby_facts(2) by (auto simp: called_def)
  moreover have "roles_of (req JEUX_INVITE_PKT 0 1 3) = Some (SECOND_PLAYER_ROLE, FIRST_PLAYER_ROLE)"
    by (simp add: roles_of_def req_def)
  ultimately show ?thesis using invite_without_login [OF ann_in_facts(1), of 2 CLIENT_LOGGED_OUT 5 1 "''ann''"] by (simp add: req_type)
qed

text \<open>
  C17: Revoking an open invitation closes it, and its target is sent a REVOKED packet. For the source, the
  invitation is gone from both lists and freed, and 0 is returned. For the target, which is not supposed to revoke it,
  it is closed all the same, but stays in the list of the source, and -1 is returned.
\<close>

theorem revoke_invitation:
  assumes "server_ok rs w" and "c \<in> set rs" and "clients w c = Some cl" and "inv_of_id (invite_list cl) n = Some i"
    and "invs w i = Some v" and "i_state v = INV_OPEN_STATE" and "clients w (i_target v) = Some tc" and "net_up (sy w)"
  shows "\<exists>r w' pkt. client_revoke_invitation (client_unref F) c n w = Inr (r, w') \<and> server_ok rs w'
    \<and> (\<forall>j. j \<noteq> i \<longrightarrow> invs w' j = invs w j)
    \<and> header_for (pkt_val JEUX_REVOKED_PKT) (id_of_inv (invite_list tc) i) 0 0 pkt
    \<and> outp (sy w') = (outp (sy w))(c_fd tc := outp (sy w) (c_fd tc) @ wire pkt None)
    \<and> (if c = i_source v then r = 0 \<and> invs w' i = None else r = -1 \<and> listed w' (i_source v) i)
    \<and> (\<forall>v'. invs w' i = Some v' \<longrightarrow> i_state v' = INV_CLOSED_STATE)"
proof -
  obtain r w' pkt where w': "client_revoke_invitation (client_unref F) c n w = Inr (r, w')" "good (set rs) w'" "frame w w'" "closes i w w'"
      "header_for (pkt_val JEUX_REVOKED_PKT) (id_of_inv (invite_list tc) i) 0 0 pkt"
      "net_up (sy w) \<longrightarrow> outp (sy w') = (outp (sy w))(c_fd tc := outp (sy w) (c_fd tc) @ wire pkt None)
         \<and> (if c = i_source v then r = 0 \<and> invs w' i = None else r = -1 \<and> listed w' (i_source v) i)"
    using revoke_open [OF server_okD(7) [OF assms(1,2)] assms(3-7), of F] by (elim exE conjE) (rule that)
  have "server_ok rs w'" by (rule server_ok_handled [OF assms(1) w'(2,3) closes_parties_kept [OF w'(4)]])
  then show ?thesis using w'(1,5,6) closesD [OF w'(4)] assms(8) by (intro exI [of _ r] exI [of _ w'] exI [of _ pkt]) simp
qed

theorem revoke_invitation_witness:
  "\<exists>w' i. client_revoke_invitation (client_unref demo_fp) 1 0 offered = Inr (0, w') \<and> invs offered i \<noteq> None \<and> invs w' i = None"
proof -
  obtain i cl dl where o: "clients offered 1 = Some cl" "clients offered 2 = Some dl" "invite_list cl = [\<lparr>n_id = 0, n_inv = i\<rparr>]"
      "invs offered = [i \<mapsto> demo_inv]" using offered_facts(3) by blast
  have v: "inv_of_id (invite_list cl) 0 = Some i" "invs offered i = Some demo_inv" "i_state demo_inv = INV_OPEN_STATE"
      "clients offered (i_target demo_inv) = Some dl" "i_source demo_inv = 1"
    using o by (simp_all add: demo_inv_def make_inv_def)
  from revoke_invitation [OF offered_facts(1) _ o(1) v(1-4) offered_facts(2), of demo_fp] v(2,5) show ?thesis by auto
qed

text \<open>
  C18: Declining an open invitation closes it, returns 0, and its source is sent a DECLINED packet. For the target
  the invitation is gone and freed; for the source, which is not supposed to decline it, it stays in the list of the target.
\<close>

theorem decline_invitation:
  assumes "server_ok rs w" and "c \<in> set rs" and "clients w c = Some cl" and "inv_of_id (invite_list cl) n = Some i"
    and "invs w i = Some v" and "i_state v = INV_OPEN_STATE" and "clients w (i_source v) = Some sc" and "net_up (sy w)"
  shows "\<exists>w' pkt. client_decline_invitation (client_unref F) c n w = Inr (0, w') \<and> server_ok rs w'
    \<and> (\<forall>j. j \<noteq> i \<longrightarrow> invs w' j = invs w j)
    \<and> header_for (pkt_val JEUX_DECLINED_PKT) (id_of_inv (invite_list sc) i) 0 0 pkt
    \<and> outp (sy w') = (outp (sy w))(c_fd sc := outp (sy w) (c_fd sc) @ wire pkt None)
    \<and> (if c = i_target v then invs w' i = None else listed w' (i_target v) i)
    \<and> (\<forall>v'. invs w' i = Some v' \<longrightarrow> i_state v' = INV_CLOSED_STATE)"
proof -
  obtain w' pkt where w': "client_decline_invitation (client_unref F) c n w = Inr (0, w')" "good (set rs) w'" "frame w w'" "closes i w w'"
      "header_for (pkt_val JEUX_DECLINED_PKT) (id_of_inv (invite_list sc) i) 0 0 pkt"
      "net_up (sy w) \<longrightarrow> outp (sy w') = (outp (sy w))(c_fd sc := outp (sy w) (c_fd sc) @ wire pkt None)"
      "if c = i_target v then invs w' i = None else listed w' (i_target v) i"
    using decline_open [OF server_okD(7) [OF assms(1,2)] assms(3-7), of F] by (elim exE conjE) (rule that)
  have "server_ok rs w'" by (rule server_ok_handled [OF assms(1) w'(2,3) closes_parties_kept [OF w'(4)]])
  then show ?thesis using w'(1,5-7) closesD [OF w'(4)] assms(8) by (intro exI [of _ w'] exI [of _ pkt]) simp
qed

theorem decline_invitation_witness:
  "\<exists>w' i. client_decline_invitation (client_unref demo_fp) 2 0 offered = Inr (0, w') \<and> invs offered i \<noteq> None \<and> invs w' i = None"
proof -
  obtain i cl dl where o: "clients offered 1 = Some cl" "clients offered 2 = Some dl" "invite_list dl = [\<lparr>n_id = 0, n_inv = i\<rparr>]"
      "invs offered = [i \<mapsto> demo_inv]" using offered_facts(3) by blast
  have v: "inv_of_id (invite_list dl) 0 = Some i" "invs offered i = Some demo_inv" "i_state demo_inv = INV_OPEN_STATE"
      "clients offered (i_source demo_inv) = Some cl" "i_target demo_inv = 2"
    using o by (simp_all add: demo_inv_def make_inv_def)
  from decline_invitation [OF offered_facts(1) _ o(2) v(1-4) offered_facts(2), of demo_fp] v(2,5) show ?thesis by auto
qed

text \<open>
  C14: When the target accepts an open invitation, the invitation gets a new game with an empty board and is accepted.
  The player who moves first is sent the printed board: the target with the result, or the source
  with the ACCEPTED packet.
\<close>

theorem accept_invitation:
  assumes "server_ok rs w" and "c \<in> set rs" and "clients w c = Some cl" and "inv_of_id (invite_list cl) n = Some i"
    and "invs w i = Some v" and "i_state v = INV_OPEN_STATE" and "c = i_target v" and "clients w (i_source v) = Some sc" and "net_up (sy w)"
  shows "\<exists>w' pkt g. client_accept_invitation c n w
        = Inr ((0, if i_target_role v = FIRST_PLAYER_ROLE then Some (state_string fresh_game) else None), w') \<and> server_ok rs w'
    \<and> invs w' = (invs w)(i \<mapsto> v\<lparr>i_state := INV_ACCEPTED_STATE, i_game := Some g\<rparr>) \<and> games w' = (games w)(g \<mapsto> fresh_game)
    \<and> games w g = None \<and> clients w' = clients w
    \<and> header_for (pkt_val JEUX_ACCEPTED_PKT) (id_of_inv (invite_list sc) i) 0 (if i_target_role v = FIRST_PLAYER_ROLE then 0 else 40) pkt
    \<and> outp (sy w') = (outp (sy w))(c_fd sc := outp (sy w) (c_fd sc)
         @ wire pkt (if i_target_role v = FIRST_PLAYER_ROLE then None else Some (bytes_of (state_string fresh_game))))"
proof -
  note g = server_okD(7) [OF assms(1,2)]
  obtain r s pkt where a: "client_accept_invitation c n w = Inr ((r, if r = 0 \<and> i_target_role v = FIRST_PLAYER_ROLE
        then Some (state_string fresh_game) else None), (accept_w i w)\<lparr>sy := s\<rparr>)" "env_same (sy w) s"
      "header_for (pkt_val JEUX_ACCEPTED_PKT) (id_of_inv (invite_list sc) i) 0 (if i_target_role v = FIRST_PLAYER_ROLE then 0 else 40) pkt"
      "net_up (sy w) \<longrightarrow> r = 0 \<and> outp s = (outp (sy w))(c_fd sc := outp (sy w) (c_fd sc)
          @ wire pkt (if i_target_role v = FIRST_PLAYER_ROLE then None else Some (bytes_of (state_string fresh_game))))"
    using accept_open [OF g assms(3-8)] by (elim exE conjE) (rule that)
  let ?w = "(accept_w i w)\<lparr>sy := s\<rparr>"
  have fr: "frame w (accept_w i w)" "core (set rs) (accept_w i w)" using accept_w_core [OF goodD(1) [OF g] assms(5,6)] by simp_all
  have "good (set rs) (accept_w i w)" using fr(2) g by (simp add: good_def sems_free_def)
  then have g': "good (set rs) ?w" using good_sy [of "accept_w i w" s] a(2) by simp
  have "frame w ?w" using frame_trans [OF fr(1) frame_sy] a(2) by simp
  moreover have "parties_kept w ?w" using assms(5,6) by (auto simp: parties_kept_def accept_w_inv [OF assms(5)])
  ultimately have ok: "server_ok rs ?w" using server_ok_handled [OF assms(1) g'] by blast
  have fg: "games w (next_addr w) = None"
    using coreD(1) [OF goodD(1) [OF g]] unfolding objs_ok_def games_owned_def by (metis less_irrefl)
  have "invs ?w = (invs w)(i \<mapsto> v\<lparr>i_state := INV_ACCEPTED_STATE, i_game := Some (next_addr w)\<rparr>)"
      "games ?w = (games w)(next_addr w \<mapsto> fresh_game)" "clients ?w = clients w"
    using assms(5) by (simp_all add: accept_w_def Let_def)
  then show ?thesis using a(1,3,4) assms(9) ok fg by (intro exI [of _ ?w] exI [of _ pkt] exI [of _ "next_addr w"]) simp
qed

theorem accept_invitation_witness:
  "\<exists>w' i v. client_accept_invitation 2 0 offered = Inr ((0, None), w') \<and> server_ok [1, 2] w' \<and> invs w' i = Some v
    \<and> i_state v = INV_ACCEPTED_STATE"
proof -
  obtain i cl dl where o: "clients offered 1 = Some cl" "clients offered 2 = Some dl" "invite_list dl = [\<lparr>n_id = 0, n_inv = i\<rparr>]"
      "invs offered = [i \<mapsto> demo_inv]" using offered_facts(3) by blast
  have v: "inv_of_id (invite_list dl) 0 = Some i" "invs offered i = Some demo_inv" "i_state demo_inv = INV_OPEN_STATE" "2 = i_target demo_inv"
      "clients offered (i_source demo_inv) = Some cl" "i_target_role demo_inv = SECOND_PLAYER_ROLE"
    using o by (simp_all add: demo_inv_def make_inv_def)
  from accept_invitation [OF offered_facts(1) _ o(2) v(1-5) offered_facts(2)] v(6) show ?thesis by fastforce
qed

text \<open>
  C16: Resigning an accepted game ends it in favour of the opponent, who is sent a RESIGNED packet: the invitation is
  removed from both lists and freed, and the ratings of the two players are updated as for a win of the
  opponent, with the player of the first role as first argument.
\<close>

theorem resign_accepted_game:
  assumes "server_ok rs w" and "c \<in> set rs" and "clients w c = Some cl" and "inv_of_id (invite_list cl) n = Some i"
    and "invs w i = Some v" and "i_state v = INV_ACCEPTED_STATE" and "clients w (opponent c v) = Some oc" and "net_up (sy w)"
  shows "\<exists>w' pkt. client_resign_game F (client_unref F) c n w = Inr (0, w') \<and> server_ok rs w' \<and> invs w' = (invs w)(i := None)
    \<and> header_for (pkt_val JEUX_RESIGNED_PKT) (id_of_inv (invite_list oc) i) 0 0 pkt
    \<and> outp (sy w') = (outp (sy w))(c_fd oc := outp (sy w) (c_fd oc) @ wire pkt None)
    \<and> (if my_role_of c v = FIRST_PLAYER_ROLE
       then player_post_result F (players w) (c_player cl) (c_player oc) 2 = Inr (players w')
       else player_post_result F (players w) (c_player oc) (c_player cl) 1 = Inr (players w'))"
proof -
  note g = server_okD(7) [OF assms(1,2)]
  obtain r w' pkt where w': "client_resign_game F (client_unref F) c n w = Inr (r, w')" "good (set rs) w'" "frame w w'" "closes i w w'"
      "header_for (pkt_val JEUX_RESIGNED_PKT) (id_of_inv (invite_list oc) i) 0 0 pkt"
      "net_up (sy w) \<longrightarrow> outp (sy w') = (outp (sy w))(c_fd oc := outp (sy w) (c_fd oc) @ wire pkt None)
         \<and> (c_player cl \<noteq> None \<and> c_player oc \<noteq> None \<longrightarrow> r = 0 \<and> invs w' i = None \<and>
             player_post_result F (players w) (fst (ordered (my_role_of c v) (c_player cl) (c_player oc)))
               (snd (ordered (my_role_of c v) (c_player cl) (c_player oc)))
               (role_val (my_role_of (opponent c v) v)) = Inr (players w'))"
    using resign_accepted [OF g assms(3-7), of F] by (elim exE conjE) (rule that)
  have ok: "server_ok rs w'" by (rule server_ok_handled [OF assms(1) w'(2,3) closes_parties_kept [OF w'(4)]])
  note o = objs_invD [OF coreD(1) [OF server_okD(1) [OF assms(1)]] assms(5), unfolded inv_ok_def]
  have party: "c = i_source v \<or> c = i_target v"
    using found_invitation(2) [OF goodD(1) [OF g] assms(3,4)] assms(5) by auto
  have "online w (i_source v)" "online w (i_target v)" using server_okD(3) [OF assms(1)] assms(5,6) by (auto simp: parties_online_def)
  then have on: "c_player cl \<noteq> None" "c_player oc \<noteq> None"
    using party assms(3,7) by (auto simp: online_def who_def opponent_def split: if_splits)
  have "role_val (my_role_of (opponent c v) v) = (if my_role_of c v = FIRST_PLAYER_ROLE then 2 else 1)"
    using o party by (cases "i_source_role v"; cases "i_target_role v") (auto simp: my_role_of_def opponent_def)
  then have post: "if my_role_of c v = FIRST_PLAYER_ROLE
       then player_post_result F (players w) (c_player cl) (c_player oc) 2 = Inr (players w')
       else player_post_result F (players w) (c_player oc) (c_player cl) 1 = Inr (players w')"
    using w'(6) assms(8) on by (simp add: ordered_def split: if_splits)
  have "r = 0" "invs w' i = None" using w'(6) assms(8) on by simp_all
  then have "invs w' = (invs w)(i := None)" using closesD(1) [OF w'(4)] by (auto simp: fun_eq_iff)
  then show ?thesis using w'(1,5,6) ok post assms(8) \<open>r = 0\<close> by (intro exI [of _ w'] exI [of _ pkt]) simp
qed

theorem resign_accepted_game_witness:
  "\<exists>w'. client_resign_game demo_fp (client_unref demo_fp) 1 0 playing = Inr (0, w') \<and> server_ok [1, 2] w' \<and> invs w' = Map.empty"
proof -
  obtain i g cl dl where o: "clients playing 1 = Some cl" "clients playing 2 = Some dl" "invite_list cl = [\<lparr>n_id = 0, n_inv = i\<rparr>]"
      "invs playing = [i \<mapsto> demo_inv\<lparr>i_state := INV_ACCEPTED_STATE, i_game := Some g\<rparr>]" using playing_facts(3) by blast
  let ?v = "demo_inv\<lparr>i_state := INV_ACCEPTED_STATE, i_game := Some g\<rparr>"
  have v: "inv_of_id (invite_list cl) 0 = Some i" "invs playing i = Some ?v" "i_state ?v = INV_ACCEPTED_STATE"
      "clients playing (opponent 1 ?v) = Some dl"
    using o by (simp_all add: demo_inv_def make_inv_def opponent_def)
  from resign_accepted_game [OF playing_facts(1) _ o(1) v playing_facts(2), of demo_fp] o(4) show ?thesis by auto
qed

text \<open>
  C15: A move in an accepted game is parsed and applied to the game. If either fails, -1 is returned and the game is
  unchanged; otherwise 0 is returned, the game has the new board and the opponent is sent it in a MOVED packet. If
  the move ended the game, both players are sent an ENDED packet with the winner, each with its own
  identifier of the invitation, which is removed from both lists and freed, and the ratings are updated.
\<close>

theorem move_in_accepted_game:
  assumes "server_ok rs w" and "c \<in> set rs" and "clients w c = Some cl" and "inv_of_id (invite_list cl) n = Some i"
    and "invs w i = Some v" and "i_state v = INV_ACCEPTED_STATE" and "i_game v = Some gi" "games w gi = Some gm"
    and "clients w (opponent c v) = Some oc" and "net_up (sy w)"
  shows "\<exists>r w'. client_make_move F (client_unref F) c n str w = Inr (r, w') \<and> server_ok rs w'
    \<and> (case fst (game_parse_move gm (my_role_of c v) str (sy w)) of
         None \<Rightarrow> r = -1 \<and> games w' gi = Some gm
       | Some mv \<Rightarrow> (case game_apply_move gm mv of Inl e \<Rightarrow> False
           | Inr (q, gm1) \<Rightarrow> if q = -1 then r = -1 \<and> games w' gi = Some gm
               else r = 0 \<and> (case game_is_over gm1 of Inl e \<Rightarrow> False
                 | Inr (over, gm2) \<Rightarrow> announced i n gm1 (over \<noteq> 0) (winner gm2) cl oc (sy w) (sy w') \<and>
                     (if over = 0 then games w' gi = Some gm2 \<and> invs w' = invs w
                      else invs w' = (invs w)(i := None) \<and>
                        (let (p, q) = ordered (my_role_of c v) (c_player cl) (c_player oc) in
                         player_post_result F (players w) p q (role_val (winner gm2)) = Inr (players w'))))))"
proof -
  note g = server_okD(7) [OF assms(1,2)]
  obtain r w' where w': "client_make_move F (client_unref F) c n str w = Inr (r, w')" "good (set rs) w'" "frame w w'"
      "invs w' = invs w \<or> invs w' = (invs w)(i := None)"
      "case fst (game_parse_move gm (my_role_of c v) str (sy w)) of
         None \<Rightarrow> r = -1 \<and> games w' gi = Some gm
       | Some mv \<Rightarrow> (case game_apply_move gm mv of Inl e \<Rightarrow> False
           | Inr (q, gm1) \<Rightarrow> if q = -1 then r = -1 \<and> games w' gi = Some gm
               else net_up (sy w) \<longrightarrow> r = 0 \<and> moved F c v cl oc i n gi gm1 w w')"
    using move_accepted [OF g assms(3-9), of F str] by (elim exE conjE) (rule that)
  have "parties_kept w w'" using w'(4) unfolding parties_kept_def by (auto split: if_splits)
  then have ok: "server_ok rs w'" by (rule server_ok_handled [OF assms(1) w'(2,3)])
  have party: "c = i_source v \<or> c = i_target v"
    using found_invitation(2) [OF goodD(1) [OF g] assms(3,4)] assms(5) by auto
  have "online w (i_source v)" "online w (i_target v)" using server_okD(3) [OF assms(1)] assms(5,6) by (auto simp: parties_online_def)
  then have "c_player cl \<noteq> None" "c_player oc \<noteq> None"
    using party assms(3,9) by (auto simp: online_def who_def opponent_def split: if_splits)
  then show ?thesis using w'(1,5) ok assms(10)
    by (intro exI [of _ r] exI [of _ w']) (auto simp: moved_def ordered_def split: option.splits sum.splits prod.splits if_splits)
qed

theorem move_in_accepted_game_witness:
  "\<exists>w' g. client_make_move demo_fp (client_unref demo_fp) 1 0 ''5'' playing = Inr (0, w') \<and> server_ok [1, 2] w'
    \<and> games w' g = Some opened_game \<and> rows opened_game = [0, 0, 0, 0, 1, 0, 0, 0, 0]"
proof -
  obtain i g cl dl where o: "clients playing 1 = Some cl" "clients playing 2 = Some dl" "invite_list cl = [\<lparr>n_id = 0, n_inv = i\<rparr>]"
      "invs playing = [i \<mapsto> demo_inv\<lparr>i_state := INV_ACCEPTED_STATE, i_game := Some g\<rparr>]" "games playing g = Some fresh_game"
    using playing_facts(3) by blast
  let ?v = "demo_inv\<lparr>i_state := INV_ACCEPTED_STATE, i_game := Some g\<rparr>"
  have v: "inv_of_id (invite_list cl) 0 = Some i" "invs playing i = Some ?v" "i_state ?v = INV_ACCEPTED_STATE" "i_game ?v = Some g"
      "clients playing (opponent 1 ?v) = Some dl" "my_role_of 1 ?v = FIRST_PLAYER_ROLE"
    using o by (simp_all add: demo_inv_def make_inv_def opponent_def my_role_of_def)
  have no: "no_oom (sy playing)" using coreD(4) [OF server_okD(1) [OF playing_facts(1)]] .
  from move_in_accepted_game [OF playing_facts(1) _ o(1) v(1-4) o(5) v(5) playing_facts(2), of demo_fp "''5''"]
  show ?thesis unfolding v(6) demo_parse [OF no] by (auto simp: demo_apply opened_game_def [THEN arg_cong, of rows])
qed

text \<open>
  C19: A request for an invitation that the client does not list, or that is not in the state the request needs, is refused
  with -1 and changes nothing: to revoke, decline or accept, an open one; to resign, an accepted one. Only the target may accept.
\<close>

theorem wrong_state_refused:
  assumes "server_ok rs w" and "c \<in> set rs" and "clients w c = Some cl"
  shows "((\<forall>i v. inv_of_id (invite_list cl) n = Some i \<and> invs w i = Some v \<longrightarrow> i_state v \<noteq> INV_OPEN_STATE) \<longrightarrow>
       client_revoke_invitation (client_unref F) c n w = Inr (-1, w) \<and> client_decline_invitation (client_unref F) c n w = Inr (-1, w))
    \<and> ((\<forall>i v. inv_of_id (invite_list cl) n = Some i \<and> invs w i = Some v \<longrightarrow> i_state v \<noteq> INV_OPEN_STATE \<or> c \<noteq> i_target v) \<longrightarrow>
       client_accept_invitation c n w = Inr ((-1, None), w))
    \<and> ((\<forall>i v. inv_of_id (invite_list cl) n = Some i \<and> invs w i = Some v \<longrightarrow> i_state v \<noteq> INV_ACCEPTED_STATE) \<longrightarrow>
       client_resign_game F (client_unref F) c n w = Inr (-1, w))"
proof -
  note g = server_okD(7) [OF assms(1,2)]
  show ?thesis using revoke_refused [OF g assms(3)] accept_refused [OF g assms(3)] resign_refused [OF g assms(3)] by blast
qed

theorem wrong_state_refused_witness:
  "client_revoke_invitation (client_unref demo_fp) 1 7 offered = Inr (-1, offered)
    \<and> client_resign_game demo_fp (client_unref demo_fp) 1 0 offered = Inr (-1, offered)"
proof -
  obtain i cl where o: "clients offered 1 = Some cl" "invite_list cl = [\<lparr>n_id = 0, n_inv = i\<rparr>]"
      "invs offered = [i \<mapsto> demo_inv]" using offered_facts(3) by blast
  have "i_state demo_inv = INV_OPEN_STATE" by (simp add: demo_inv_def make_inv_def)
  then show ?thesis
    using wrong_state_refused [OF offered_facts(1) _ o(1), of 7 demo_fp] wrong_state_refused [OF offered_facts(1) _ o(1), of 0 demo_fp] o(2,3)
    by simp
qed

section \<open>Connections\<close>

text \<open>
  C23: Unregistering a client takes exactly that client out of the array of the registry: the
  in-place shifting of the entries behind it computes the array of the other clients in the same
  order, one more connection can be accepted, and the semaphore is posted if it was the last client.
\<close>

theorem unregister_removes:
  assumes "leaving rs c w" and "creg w = Some cr"
  shows "\<exists>w' cr'. creg_unregister F (client_unref F) (Some c) w = Inr (0, w') \<and> creg w' = Some cr'
    \<and> creg_entries cr = map Some rs \<and> creg_entries cr' = map Some (remove1 c rs) \<and> c \<notin> set (remove1 c rs)
    \<and> cr_length cr' = cr_length cr - 1 \<and> cr_login_queue cr' = Suc (cr_login_queue cr)
    \<and> cr_sem cr' = (if rs = [c] then Suc (cr_sem cr) else cr_sem cr)"
proof -
  obtain w' where w': "creg_unregister F (client_unref F) (Some c) w = Inr (0, w')" "creg w' = Some (unreg_creg rs c cr)"
      "server_ok (remove1 c rs) w'"
    using unregister_ok [OF assms(1), of F] assms(2) by auto
  have ok: "creg_ok rs w" "c \<in> set rs" using server_okD(4) [OF leaving_server_ok [OF assms(1)]] assms(1) by (simp_all add: leaving_def)
  have a: "creg_entries cr = map Some rs" "distinct rs" "length rs \<le> MAX_CLIENTS" "cr_length cr = int (length rs)"
      "cr_login_queue cr = MAX_CLIENTS - length rs"
    using creg_okD [OF ok(1)] assms(2) by (metis option.inject)+
  have b: "creg_entries (unreg_creg rs c cr) = map Some (remove1 c rs)"
      "cr_length (unreg_creg rs c cr) = int (length (remove1 c rs))"
      "cr_login_queue (unreg_creg rs c cr) = MAX_CLIENTS - length (remove1 c rs)"
    using creg_okD [OF server_okD(4) [OF w'(3)]] w'(2) by (metis option.inject)+
  have "length (remove1 c rs) = length rs - 1" "0 < length rs" using ok(2) by (auto simp: length_remove1)
  then have "int (length (remove1 c rs)) = int (length rs) - 1" "MAX_CLIENTS - length (remove1 c rs) = Suc (MAX_CLIENTS - length rs)"
    using a(3) by linarith+
  then show ?thesis using w'(1,2) a b unreg_creg_ok(2) [OF ok(1) assms(2) ok(2)]
    by (intro exI [of _ w'] exI [of _ "unreg_creg rs c cr"]) auto
qed

theorem unregister_removes_witness:
  "\<exists>r w1 w' cr'. client_logout demo_fp (client_unref demo_fp) 1 playing = Inr (r, w1)
    \<and> creg_unregister demo_fp (client_unref demo_fp) (Some 1) w1 = Inr (0, w') \<and> creg w' = Some cr' \<and> creg_entries cr' = [Some 2]"
proof -
  obtain r w1 where l: "client_logout demo_fp (client_unref demo_fp) 1 playing = Inr (r, w1)" "leaving [1, 2] 1 w1"
    using logout_leaving [OF playing_facts(1), of 1 demo_fp] by auto
  obtain cr where "creg w1 = Some cr" using creg_okD [OF server_okD(4) [OF leaving_server_ok [OF l(2)]]] by blast
  from unregister_removes [OF l(2) this, of demo_fp] l(1) show ?thesis by auto
qed

text \<open>
  C24: A connection is registered exactly while fewer than \<^verbatim>\<open>MAX_CLIENTS\<close> clients are, and the registry is not
  shut down; the new client is the last of the array and not logged in. Otherwise nothing changes. So never more
  than \<^verbatim>\<open>MAX_CLIENTS\<close> clients are registered, and the index into the array stays in range.
\<close>

theorem register_capacity:
  assumes "server_ok rs w" and "creg w = Some cr"
  shows "if length rs < MAX_CLIENTS \<and> cr_no cr \<noteq> 1
    then \<exists>c w'. creg_register fd w = Inr (Some c, w') \<and> c \<notin> set rs \<and> registered w' = rs @ [c] \<and> server_ok (rs @ [c]) w'
      \<and> who w' = (who w)(c \<mapsto> (None, CLIENT_LOGGED_OUT, fd)) \<and> length (rs @ [c]) \<le> length (cr_clients cr)
    else creg_register fd w = Inr (None, w)"
proof (cases "length rs < MAX_CLIENTS \<and> cr_no cr \<noteq> 1")
  case True
  note r = register_ok [OF assms conjunct2 [OF True] conjunct1 [OF True], of fd]
  have "length (cr_clients cr) = MAX_CLIENTS" using creg_okD [OF server_okD(4) [OF assms(1)]] assms(2) by (metis option.inject)
  then show ?thesis
    using True r fresh_client(3) [OF coreD(1) [OF server_okD(1) [OF assms(1)]]] registered_eq [OF server_okD(4) [OF r(2)]] by auto
next
  case False
  have "cr_length cr = int (length rs)" using creg_okD [OF server_okD(4) [OF assms(1)]] assms(2) by (metis option.inject)
  then show ?thesis using False register_refused [OF assms(2), of fd] by auto
qed

theorem register_capacity_witness:
  "\<exists>c w'. creg_register 6 lobby = Inr (Some c, w') \<and> registered w' = [1, 2, c]"
proof -
  obtain cr where cr: "creg lobby = Some cr" "cr_no cr = 0" using started_creg(1) by (auto simp: lobby_eq connected_w_def)
  show ?thesis using register_capacity [OF lobby_ok cr(1), of 6] cr(2) by (auto simp: MAX_CLIENTS_def)
qed

text \<open>
  C26: A service thread that ends logs its client out and then unregisters it, and \<^verbatim>\<open>client_logout\<close> leaves the
  pointer to the player in the client. In between, another client can find and invite it under its name: it gets an
  ACK, and when the client is gone the invitation is still open, with a target that is not registered. If that
  is the only invitation the client is a party of, it alone keeps the client alive: when the other client revokes
  it, or logs out, \<^verbatim>\<open>client_remove_invitation\<close> uses the client after it has been freed.
\<close>

theorem invite_during_departure:
  assumes "reachable F (w, fl)" and "d \<in> set (registered w)" "fl d = Leaving" "called w d n"
    and "c \<in> set (registered w)" "who w c = Some (Some a, CLIENT_LOGGED_IN, fd)" and "roles_of hdr = Some (sr, tr)"
    and "\<forall>i v. invs w i = Some v \<longrightarrow> i_source v \<noteq> d \<and> i_target v \<noteq> d" and "net_up (sy w)"
  shows "\<exists>w1 w2 i v k. process_invite F (Some n) c hdr w = Inr (0, w1) \<and> creg_unregister F (client_unref F) (Some d) w1 = Inr (0, w2)
    \<and> invs w2 i = Some v \<and> i_state v = INV_OPEN_STATE \<and> i_source v = c \<and> i_target v = d \<and> d \<notin> set (registered w2)
    \<and> client_revoke_invitation (client_unref F) c k w2 = Inl UseAfterFree
    \<and> client_logout F (client_unref F) c w2 = Inl UseAfterFree"
proof -
  let ?rs = "registered w"
  note ok = reachable_ok [OF assms(1)]
  obtain x fe where d: "who w d = Some (x, CLIENT_LOGGED_OUT, fe)" using reachable_thread [OF assms(1,2)] assms(3) by auto
  have l: "leaving ?rs d w" using ok assms(2) d by (simp add: leaving_def)
  have ne: "d \<noteq> c" using d assms(6) by auto
  have h: "held w d = {}" using assms(8) by (auto simp: held_def)
  obtain w1 w2 k where w: "process_invite F (Some n) c hdr w = Inr (0, w1)" "creg_unregister F (client_unref F) (Some d) w1 = Inr (0, w2)"
      "invs w2 (next_addr w) = Some (make_inv c d sr tr 2)" "creg_ok (remove1 d ?rs) w2"
      "client_revoke_invitation (client_unref F) c k w2 = Inl UseAfterFree" "client_logout F (client_unref F) c w2 = Inl UseAfterFree"
    using invite_leaving [OF l assms(5,6,4) ne assms(7), of F] h assms(9) by blast
  have "distinct ?rs" using creg_okD [OF server_okD(4) [OF ok]] by blast
  then have "d \<notin> set (registered w2)" unfolding registered_eq [OF w(4)] by simp
  then show ?thesis using w(1-3,5,6)
    by (intro exI [of _ w1] exI [of _ w2] exI [of _ "next_addr w"] exI [of _ "make_inv c d sr tr 2"] exI [of _ k]) simp
qed

theorem invite_during_departure_witness:
  "\<exists>w w1 w2. client_logout demo_fp (client_unref demo_fp) 2 both_in = Inr (0, w)
    \<and> process_invite demo_fp (Some ''bob'') 1 (req JEUX_INVITE_PKT 0 2 3) w = Inr (0, w1)
    \<and> creg_unregister demo_fp (client_unref demo_fp) (Some 2) w1 = Inr (0, w2) \<and> 2 \<notin> set (registered w2)
    \<and> client_logout demo_fp (client_unref demo_fp) 1 w2 = Inl UseAfterFree"
proof -
  obtain w a where w: "client_logout demo_fp (client_unref demo_fp) 2 both_in = Inr (0, w)" "reachable demo_fp (w, demo_fl(2 := Leaving))"
      "who w 1 = Some (Some a, CLIENT_LOGGED_IN, 4)" "called w 2 ''bob''" "registered w = [1, 2]" "invs w = Map.empty" "net_up (sy w)"
    using parting by blast
  have r: "roles_of (req JEUX_INVITE_PKT 0 2 3) = Some (FIRST_PLAYER_ROLE, SECOND_PLAYER_ROLE)" by (simp add: roles_of_def req_def)
  note i = invite_during_departure [OF w(2), of 2 "''bob''" 1 a 4 "req JEUX_INVITE_PKT 0 2 3", OF _ _ w(4) _ w(3) r]
  then show ?thesis using w(1,5-7) by fastforce
qed

section \<open>The program\<close>

text \<open>
  C39: A port number printed in decimal behind \<open>-p\<close> is the one the option processing reads, and the one the listening
  socket is bound to: read back from the network byte order, the low 16 bits of it. A client that is given
  the number connects to the same port, at the first address of the host.
\<close>

theorem port_roundtrip:
  assumes "n < 2 ^ 31" and "no_oom (sy w)" and "0 \<le> fd"
  shows "\<exists>o1 w' p. option_processor [''-p'', dec_nat n] = Inr (0, o1) \<and> options o1 = PORT_OPTION \<and> PORT o1 = int n
    \<and> Open_listenfd fd (PORT o1) w = Inr ((fd, p), w') \<and> unat (ntohs p) = n mod 2 ^ 16
    \<and> (\<forall>hp a as. h_length hp = 4 \<and> h_addr_list hp = a # as \<and> length a = 4 \<longrightarrow>
         (\<exists>sa. server_addr hp (int n) = Inr sa \<and> sin_port sa = p \<and> sin_addr sa = a))"
proof -
  have "fst (open_listenfd fd (int n) w) = (fd, htons (word_of_int (int n)))"
    using assms(2) by (simp add: open_listenfd_def request_w_ok Let_def)
  then obtain w' where "open_listenfd fd (int n) w = ((fd, htons (word_of_int (int n))), w')" by (metis prod.collapse)
  then have "Open_listenfd fd (int n) w = Inr ((fd, htons (word_of_int (int n))), w')" using assms(3) by (simp add: Open_listenfd_def)
  moreover have "unat (ntohs (htons (word_of_int (int n)))) = n mod 2 ^ 16" by (simp add: ntohs_htons unat_of_nat)
  moreover have "\<forall>hp a as. h_length hp = 4 \<and> h_addr_list hp = a # as \<and> length a = 4 \<longrightarrow>
      (\<exists>sa. server_addr hp (int n) = Inr sa \<and> sin_port sa = htons (word_of_int (int n)) \<and> sin_addr sa = a)"
    using server_addr_inet by fastforce
  ultimately show ?thesis using option_port [OF assms(1)]
    by (intro exI [of _ "\<lparr>options = PORT_OPTION, PORT = int n\<rparr>"] exI [of _ w'] exI [of _ "htons (word_of_int (int n))"])
      (auto simp: PORT_OPTION_def)
qed

theorem port_roundtrip_witness:
  "\<exists>o1 w' p sa. option_processor [''-p'', ''80''] = Inr (0, o1) \<and> Open_listenfd 3 (PORT o1) started = Inr ((3, p), w')
    \<and> unat (ntohs p) = 80 \<and> server_addr \<lparr>h_length = 4, h_addr_list = [[127, 0, 0, 1]]\<rparr> 80 = Inr sa \<and> sin_port sa = p"
proof -
  have d: "dec_nat 80 = ''80''" by (subst dec_nat.simps, subst dec_nat.simps) (simp add: char_of_def bit_Suc_0_iff)
  have no: "no_oom (sy started)" using coreD(4) [OF server_okD(1) [OF started_ok]] .
  obtain o1 w' p where o: "option_processor [''-p'', ''80''] = Inr (0, o1)" "Open_listenfd 3 (PORT o1) started = Inr ((3, p), w')"
      "unat (ntohs p) = 80 mod 2 ^ 16" and c: "\<forall>hp a as. h_length hp = 4 \<and> h_addr_list hp = a # as \<and> length a = 4 \<longrightarrow>
         (\<exists>sa. server_addr hp (int 80) = Inr sa \<and> sin_port sa = p \<and> sin_addr sa = a)"
    using port_roundtrip [of 80 started 3] no unfolding d by auto
  let ?hp = "\<lparr>h_length = 4, h_addr_list = [[127, 0, 0, 1]]\<rparr>"
  have "h_length ?hp = 4 \<and> h_addr_list ?hp = [127, 0, 0, 1] # [] \<and> length [127 :: byte, 0, 0, 1] = 4" by simp
  then obtain sa where "server_addr ?hp (int 80) = Inr sa" "sin_port sa = p" using c by blast
  then show ?thesis using o by simp
qed

text \<open>
  C40: A failed \<^verbatim>\<open>accept\<close> is only reported, and its result is handed to a service thread. Nothing can be read from
  that descriptor, so the thread ends at once, and closing it fails: the whole server exits with
  status 0, without a shutdown.
\<close>

theorem failed_accept_exits:
  assumes "server_ok rs w" and "rc < 0" and "inp (sy w) rc = []" and "sig AND HANDLE_SIGHUP = 0"
  shows "\<exists>w'. accept_round listenfd rc sig True w = Inr (rc, w') \<and> jeux_client_service F rc w' = Inl (Exited 0)"
proof -
  let ?w = "w\<lparr>sy := (sy w)\<lparr>res_n := Suc (res_n (sy w))\<rparr>\<rparr>"
  have no: "no_oom (sy w)" using coreD(4) [OF server_okD(1) [OF assms(1)]] .
  then have "accept_round listenfd rc sig True w = Inr (rc, ?w)"
    using assms(4) by (simp add: accept_round_def must_alloc_ok Accept_def)
  moreover have ok: "server_ok rs ?w" using server_ok_sys [OF assms(1)] no by simp
  have "jeux_client_service F rc ?w = Inl (Exited 0)" by (rule service_bad_fd [OF ok assms(2)]) (simp add: assms(3))
  ultimately show ?thesis by blast
qed

theorem failed_accept_exits_witness:
  "\<exists>w'. accept_round 3 (-1) 0 True lobby = Inr (-1, w') \<and> jeux_client_service demo_fp (-1) w' = Inl (Exited 0)"
proof -
  have "inp calm_sys (-1) = []" by (simp add: calm_sys_def)
  then have "inp (sy lobby) (-1) = []" by (simp add: lobby_eq connected_w_def created_w_def started_def main_init_def blank_world_def creg_init_def preg_init_def)
  then show ?thesis using failed_accept_exits [OF lobby_ok, of "-1" 0 3 demo_fp] by simp
qed

end
